(* ===== verification/Prelude.thy ===== *)
theory Prelude
  imports Main "HOL-Library.Word" "HOL-Library.Code_Target_Nat"
begin

text \<open>
  Shared vocabulary of the development: the fixed-width integers of the Rust code, byte strings,
  the little-endian conversions of the Rust standard library, checked slice access, and the
  generic list lemmas the component theories use.

  Conventions. An unsigned or signed Rust integer of w bits is a \<open>w word\<close> (\<open>sint\<close> reads a signed
  one); \<open>usize\<close> values that are lengths or offsets are \<open>nat\<close>. A Rust \<open>Result\<close> is a sum with the
  error on the left. A computation that may panic (slice index out of range, remainder by zero)
  returns an \<open>option\<close>, and \<open>None\<close> is the panic.
\<close>

section \<open>Types\<close>

type_synonym byte = "8 word"
type_synonym bytes = "byte list"
type_synonym u32 = "32 word"
type_synonym u64 = "64 word"
type_synonym i32 = "32 word"
type_synonym i64 = "64 word"

section \<open>Collections of lemmas\<close>

named_theorems bytes_simps \<open>little-endian conversions and lengths of encoded values\<close>
named_theorems slice_simps \<open>checked slice reads and writes\<close>

section \<open>Little-endian conversions\<close>

text \<open>
  \<open>to_le_bytes\<close> and \<open>from_le_bytes\<close> of the Rust integers: the value's base 256 digits, the least
  significant first.
\<close>

fun le_of_nat :: "nat \<Rightarrow> nat \<Rightarrow> bytes" where
  "le_of_nat 0 v = []"
| "le_of_nat (Suc k) v = word_of_nat v # le_of_nat k (v div 256)"

fun le_to_nat :: "bytes \<Rightarrow> nat" where
  "le_to_nat [] = 0"
| "le_to_nat (b # bs) = unat b + 256 * le_to_nat bs"

definition to_le_bytes :: "'a::len word \<Rightarrow> bytes" where
  "to_le_bytes w = le_of_nat (LENGTH('a) div 8) (unat w)"

definition from_le_bytes :: "bytes \<Rightarrow> 'a::len word" where
  "from_le_bytes bs = word_of_nat (le_to_nat bs)"

lemma length_le_of_nat [simp, bytes_simps]: "length (le_of_nat k v) = k"
  by (induction k arbitrary: v) auto

lemma length_to_le_bytes [simp, bytes_simps]:
  "length (to_le_bytes (w :: 'a::len word)) = LENGTH('a) div 8"
  by (simp add: to_le_bytes_def)

lemma unat_byte_mod: "unat (word_of_nat v :: byte) = v mod 256"
  by (simp add: unat_of_nat)

lemma le_to_nat_of_nat [bytes_simps]: "le_to_nat (le_of_nat k v) = v mod 256 ^ k"
proof (induction k arbitrary: v)
  case 0
  then show ?case by simp
next
  case (Suc k)
  have "v mod (256 * 256 ^ k) = 256 * (v div 256 mod 256 ^ k) + v mod 256"
    by (rule mod_mult2_eq)
  then show ?case using Suc by (simp add: unat_byte_mod)
qed

lemma le_to_nat_bound: "le_to_nat bs < 256 ^ length bs"
proof (induction bs)
  case Nil
  then show ?case by simp
next
  case (Cons b bs)
  have "unat b < 256" using unsigned_less [of b] by simp
  then show ?case using Cons by simp
qed

lemma le_of_nat_to_nat [bytes_simps]: "length bs = k \<Longrightarrow> le_of_nat k (le_to_nat bs) = bs"
proof (induction bs arbitrary: k)
  case Nil
  then show ?case by simp
next
  case (Cons b bs)
  have b: "unat b < 256" using unsigned_less [of b] by simp
  have d: "(unat b + 256 * le_to_nat bs) div 256 = le_to_nat bs" using b by simp
  have m: "(word_of_nat (unat b + 256 * le_to_nat bs) :: byte) = b"
  proof (rule word_unat_eq_iff [THEN iffD2])
    show "unat (word_of_nat (unat b + 256 * le_to_nat bs) :: byte) = unat b"
      using b by (simp only: unat_byte_mod) simp
  qed
  from Cons.prems obtain j where "k = Suc j" "length bs = j" by auto
  then show ?case using Cons.IH d m by simp
qed

lemma pow_256_bits: "8 dvd LENGTH('a::len) \<Longrightarrow> (256 :: nat) ^ (LENGTH('a) div 8) = 2 ^ LENGTH('a)"
proof -
  assume "8 dvd LENGTH('a)"
  then obtain m where m: "LENGTH('a) = 8 * m" by (rule dvdE)
  have "(256 :: nat) = 2 ^ 8" by simp
  then show ?thesis by (simp add: m power_mult)
qed

lemma from_to_le_bytes:
  "8 dvd LENGTH('a) \<Longrightarrow> from_le_bytes (to_le_bytes (w :: 'a::len word)) = w"
  by (simp add: from_le_bytes_def to_le_bytes_def le_to_nat_of_nat pow_256_bits)

lemma to_from_le_bytes:
  assumes "8 dvd LENGTH('a)" and "length bs = LENGTH('a) div 8"
  shows "to_le_bytes (from_le_bytes bs :: 'a::len word) = bs"
proof -
  have "le_to_nat bs < 2 ^ LENGTH('a)"
    using le_to_nat_bound [of bs] assms by (simp add: pow_256_bits)
  then have "unat (word_of_nat (le_to_nat bs) :: 'a word) = le_to_nat bs"
    by (simp add: unat_of_nat)
  with assms(2) show ?thesis
    by (simp add: from_le_bytes_def to_le_bytes_def le_of_nat_to_nat)
qed

lemma from_to_le_u32 [simp, bytes_simps]: "from_le_bytes (to_le_bytes (w :: u32)) = w"
  by (rule from_to_le_bytes) simp

lemma from_to_le_u64 [simp, bytes_simps]: "from_le_bytes (to_le_bytes (w :: u64)) = w"
  by (rule from_to_le_bytes) simp

lemma to_from_le_u32 [bytes_simps]: "length bs = 4 \<Longrightarrow> to_le_bytes (from_le_bytes bs :: u32) = bs"
  by (rule to_from_le_bytes) simp_all

lemma to_from_le_u64 [bytes_simps]: "length bs = 8 \<Longrightarrow> to_le_bytes (from_le_bytes bs :: u64) = bs"
  by (rule to_from_le_bytes) simp_all

section \<open>Checked slices\<close>

text \<open>
  \<open>&d[i..i + n]\<close> and \<open>d[i..i + n].copy_from_slice(src)\<close>: both panic when the range leaves the
  slice.
\<close>

definition read_slice :: "'a list \<Rightarrow> nat \<Rightarrow> nat \<Rightarrow> 'a list option" where
  "read_slice d i n = (if i + n \<le> length d then Some (take n (drop i d)) else None)"

definition write_slice :: "'a list \<Rightarrow> nat \<Rightarrow> 'a list \<Rightarrow> 'a list option" where
  "write_slice d i src =
     (if i + length src \<le> length d
      then Some (take i d @ src @ drop (i + length src) d) else None)"

lemma read_slice_Some [slice_simps]:
  "i + n \<le> length d \<Longrightarrow> read_slice d i n = Some (take n (drop i d))"
  by (simp add: read_slice_def)

lemma write_slice_Some [slice_simps]:
  "i + length src \<le> length d \<Longrightarrow> write_slice d i src = Some (take i d @ src @ drop (i + length src) d)"
  by (simp add: write_slice_def)

lemma write_slice_length: "write_slice d i src = Some d' \<Longrightarrow> length d' = length d"
  by (auto simp: write_slice_def split: if_splits)

lemma write_slice_nth:
  "write_slice d i src = Some d' \<Longrightarrow> j < length d \<Longrightarrow>
   d' ! j = (if i \<le> j \<and> j < i + length src then src ! (j - i) else d ! j)"
  by (auto simp: write_slice_def nth_append split: if_splits)

section \<open>Circular windows of a list\<close>

text \<open>The \<open>n\<close> elements of \<open>d\<close> read from position \<open>p\<close> on, positions taken modulo its length.\<close>

definition circ :: "'a list \<Rightarrow> nat \<Rightarrow> nat \<Rightarrow> 'a list" where
  "circ d p n = map (\<lambda>i. d ! ((p + i) mod length d)) [0..<n]"

lemma length_circ [simp]: "length (circ d p n) = n"
  by (simp add: circ_def)

lemma nth_circ [simp]: "i < n \<Longrightarrow> circ d p n ! i = d ! ((p + i) mod length d)"
  by (simp add: circ_def)

lemma circ_0 [simp]: "circ d p 0 = []"
  by (simp add: circ_def)

lemma circ_mod [simp]: "circ d (p mod length d) n = circ d p n"
  by (simp add: circ_def mod_add_left_eq)

lemma circ_append: "circ d p (m + n) = circ d p m @ circ d (p + m) n"
  by (rule nth_equalityI) (auto simp: nth_append add.assoc)

lemma take_circ: "m \<le> n \<Longrightarrow> take m (circ d p n) = circ d p m"
  by (rule nth_equalityI) auto

lemma drop_circ: "m \<le> n \<Longrightarrow> drop m (circ d p n) = circ d (p + m) (n - m)"
  by (rule nth_equalityI) (auto simp: add.assoc)

lemma circ_straight:
  "s + n \<le> length d \<Longrightarrow> circ d s n = take n (drop s d)"
  by (rule nth_equalityI) auto

lemma circ_from_start:
  assumes "n \<le> length d" and "s < length d"
  shows "circ d s n = take (min n (length d - s)) (drop s d) @ take (n - (length d - s)) d"
proof (cases "n \<le> length d - s")
  case True
  then show ?thesis using assms by (simp add: circ_straight min_absorb1)
next
  case False
  let ?f = "length d - s"
  have n: "n = ?f + (n - ?f)" using False by simp
  have wrap: "circ d (s + ?f) (n - ?f) = circ d 0 (n - ?f)"
    using assms(2) circ_mod [of d "s + ?f"] by simp
  have "circ d s n = circ d s ?f @ circ d (s + ?f) (n - ?f)"
    by (subst n) (rule circ_append)
  also have "\<dots> = take ?f (drop s d) @ take (n - ?f) d"
    using assms wrap by (simp add: circ_straight)
  finally show ?thesis using False by (simp add: min_absorb2)
qed

lemma offset_mod:
  "j < (n :: nat) \<Longrightarrow> s < n \<Longrightarrow> (j + n - s) mod n = (if s \<le> j then j - s else j + n - s)"
  by (auto simp: le_mod_geq)

text \<open>The offset of a position from a window's start, taken back modulo the length.\<close>

lemma window_offset:
  assumes "0 < (n :: nat)"
  shows "((p + i) mod n + n - p mod n) mod n = i mod n"
proof -
  let ?s = "p mod n" and ?i = "i mod n"
  have eq: "(p + i) mod n = (?s + ?i) mod n" by (simp add: mod_add_eq)
  have s: "?s < n" "?i < n" using assms by simp_all
  show ?thesis
  proof (cases "?s + ?i < n")
    case True
    then have "(?s + ?i) mod n = ?s + ?i" by simp
    with eq have "(p + i) mod n + n - ?s = ?i + n" by simp
    then show ?thesis by simp
  next
    case False
    have "?s + ?i - n < n" using s by linarith
    with False have "(?s + ?i) mod n = ?s + ?i - n" by (simp add: le_mod_geq)
    with eq have "(p + i) mod n + n - ?s = ?i" using False by simp
    then show ?thesis by simp
  qed
qed

section \<open>Signed readings\<close>

lemma unat_sint_nonneg:
  fixes w :: "'a::len word"
  assumes "0 \<le> sint w"
  shows "int (unat w) = sint w"
proof -
  have "sint w < 2 ^ (LENGTH('a) - 1)" by (rule sint_lt)
  also have "\<dots> \<le> (2 :: int) ^ LENGTH('a)" by (rule power_increasing) simp_all
  finally have "uint w = sint w"
    using assms by (simp add: uint_sint take_bit_int_eq_self)
  then show ?thesis by simp
qed

lemma sint_small:
  fixes w :: "'a::len word"
  assumes "unat w < 2 ^ (LENGTH('a) - 1)"
  shows "sint w = int (unat w)"
proof -
  have "uint w < 2 ^ (LENGTH('a) - 1)"
    using assms unfolding uint_nat by (metis of_nat_less_iff of_nat_numeral of_nat_power)
  moreover have "- (2 ^ (LENGTH('a) - 1)) \<le> uint w" by (rule order_trans [of _ 0]) simp_all
  ultimately have "signed_take_bit (LENGTH('a) - 1) (uint w) = uint w" by (rule signed_take_bit_int_eq_self [rotated])
  then show ?thesis by (simp only: sint_uint uint_nat One_nat_def)
qed

end
