(* ===== verification/Utf8.thy ===== *)
theory Utf8
  imports Prelude
begin

text \<open>
  The part of Rust's \<open>str\<close> that the extension relies on. A string is its UTF-8 byte sequence; a
  \<open>char\<close> is the byte sequence of one scalar value. \<open>utf8_valid\<close> is \<open>String::from_utf8\<close> succeeding,
  \<open>utf8_lossy\<close> is \<open>String::from_utf8_lossy\<close>, \<open>is_char_boundary\<close> and \<open>str_get\<close> are the methods of
  \<open>str\<close>.
\<close>

type_synonym str = bytes

text \<open>A Rust string literal, from an Isabelle one (ASCII only).\<close>

definition lit :: "string \<Rightarrow> str" where
  "lit s = map of_char s"

lemma of_char_byte_inject: "(of_char c :: byte) = of_char d \<longleftrightarrow> c = d"
proof -
  have "unat (of_char c :: byte) = of_char c" for c
  proof -
    have eq: "word_of_nat (of_char c) = (of_char c :: byte)" by (cases c) simp
    show ?thesis
      using unat_of_nat [where 'a = 8, of "of_char c"] nat_of_char_less_256 [of c]
      unfolding eq by simp
  qed
  then show ?thesis by (metis of_char_eq_iff)
qed

lemma lit_inject [simp]: "lit s = lit t \<longleftrightarrow> s = t"
  by (simp add: lit_def inj_map_eq_map inj_def of_char_byte_inject)

section \<open>One scalar value\<close>

definition is_cont :: "byte \<Rightarrow> bool" where
  "is_cont b \<longleftrightarrow> 0x80 \<le> b \<and> b \<le> 0xBF"

text \<open>The second byte of a three and of a four byte sequence: no overlong form, no surrogate.\<close>

definition second3 :: "byte \<Rightarrow> byte \<Rightarrow> bool" where
  "second3 a b \<longleftrightarrow>
     (if a = 0xE0 then 0xA0 \<le> b \<and> b \<le> 0xBF
      else if a = 0xED then 0x80 \<le> b \<and> b \<le> 0x9F
      else is_cont b)"

definition second4 :: "byte \<Rightarrow> byte \<Rightarrow> bool" where
  "second4 a b \<longleftrightarrow>
     (if a = 0xF0 then 0x90 \<le> b \<and> b \<le> 0xBF
      else if a = 0xF4 then 0x80 \<le> b \<and> b \<le> 0x8F
      else is_cont b)"

text \<open>
  The first chunk of a byte sequence: \<open>(True, n)\<close> for a scalar value of \<open>n\<close> bytes, \<open>(False, n)\<close> for
  a maximal invalid prefix of \<open>n\<close> bytes.
\<close>

definition utf8_tail2 :: "(byte \<Rightarrow> bool) \<Rightarrow> bytes \<Rightarrow> bool \<times> nat" where
  "utf8_tail2 ok bs = (case bs of b # _ \<Rightarrow> (if ok b then (True, 2) else (False, 1)) | [] \<Rightarrow> (False, 1))"

definition utf8_tail3 :: "(byte \<Rightarrow> bool) \<Rightarrow> bytes \<Rightarrow> bool \<times> nat" where
  "utf8_tail3 ok bs =
     (case bs of
        b # cs \<Rightarrow>
          (if \<not> ok b then (False, 1)
           else case cs of c # _ \<Rightarrow> (if is_cont c then (True, 3) else (False, 2)) | [] \<Rightarrow> (False, 2))
      | [] \<Rightarrow> (False, 1))"

definition utf8_tail4 :: "(byte \<Rightarrow> bool) \<Rightarrow> bytes \<Rightarrow> bool \<times> nat" where
  "utf8_tail4 ok bs =
     (case bs of
        b # cs \<Rightarrow>
          (if \<not> ok b then (False, 1)
           else case cs of
                  c # ds \<Rightarrow>
                    (if \<not> is_cont c then (False, 2)
                     else case ds of d # _ \<Rightarrow> (if is_cont d then (True, 4) else (False, 3)) | [] \<Rightarrow> (False, 3))
                | [] \<Rightarrow> (False, 2))
      | [] \<Rightarrow> (False, 1))"

fun utf8_step :: "bytes \<Rightarrow> bool \<times> nat" where
  "utf8_step [] = (True, 0)"
| "utf8_step (a # bs) =
     (if a < 0x80 then (True, 1)
      else if 0xC2 \<le> a \<and> a \<le> 0xDF then utf8_tail2 is_cont bs
      else if 0xE0 \<le> a \<and> a \<le> 0xEF then utf8_tail3 (second3 a) bs
      else if 0xF0 \<le> a \<and> a \<le> 0xF4 then utf8_tail4 (second4 a) bs
      else (False, 1))"

lemmas utf8_tails = utf8_tail2_def utf8_tail3_def utf8_tail4_def

lemma second_cont: "second3 a b \<Longrightarrow> is_cont b" "second4 a b \<Longrightarrow> is_cont b"
  by (auto simp: second3_def second4_def is_cont_def word_le_nat_alt split: if_splits)

lemma cont_high: "is_cont b \<Longrightarrow> \<not> b < 0x80"
  by (auto simp: is_cont_def word_le_nat_alt word_less_nat_alt)

lemma lead_not_cont: "0xC2 \<le> a \<Longrightarrow> \<not> is_cont a" "a < 0x80 \<Longrightarrow> \<not> is_cont a"
  by (auto simp: is_cont_def word_le_nat_alt word_less_nat_alt)

lemma utf8_step_pos: "bs \<noteq> [] \<Longrightarrow> utf8_step bs = (ok, n) \<Longrightarrow> 0 < n \<and> n \<le> length bs"
  by (cases bs) (auto simp: utf8_tails split: if_splits list.splits)

lemma utf8_step_prefix:
  "bs \<noteq> [] \<Longrightarrow> utf8_step bs = (True, n) \<Longrightarrow> utf8_step (take n bs @ ys) = (True, n)"
  by (cases bs) (auto simp: utf8_tails split: if_splits list.splits)

lemma utf8_step_cont:
  assumes "utf8_step bs = (True, n)" and "0 < i" and "i < n"
  shows "is_cont (bs ! i)"
proof (cases bs)
  case Nil
  with assms show ?thesis by simp
next
  case (Cons a as)
  with assms show ?thesis
    by (auto simp: utf8_tails less_Suc_eq numeral_eq_Suc split: if_splits list.splits)
      (blast intro: second_cont)+
qed

lemma utf8_step_first: "utf8_step bs = (True, n) \<Longrightarrow> bs \<noteq> [] \<Longrightarrow> \<not> is_cont (bs ! 0)"
  by (cases bs)
     (auto simp: is_cont_def word_le_nat_alt word_less_nat_alt split: if_splits)

section \<open>Strings\<close>

function utf8_valid :: "bytes \<Rightarrow> bool" where
  "utf8_valid bs =
     (if bs = [] then True
      else case utf8_step bs of (ok, n) \<Rightarrow> ok \<and> utf8_valid (drop n bs))"
  by pat_completeness auto
termination
  by (relation "measure length") (auto dest!: utf8_step_pos [OF _ sym])

declare utf8_valid.simps [simp del]

text \<open>\<open>from_utf8_lossy\<close>: every maximal invalid prefix becomes U+FFFD.\<close>

definition replacement :: bytes where
  "replacement = [0xEF, 0xBF, 0xBD]"

function utf8_lossy :: "bytes \<Rightarrow> str" where
  "utf8_lossy bs =
     (if bs = [] then []
      else case utf8_step bs of
             (ok, n) \<Rightarrow> (if ok then take n bs else replacement) @ utf8_lossy (drop n bs))"
  by pat_completeness auto
termination
  by (relation "measure length") (auto dest!: utf8_step_pos [OF _ sym])

declare utf8_lossy.simps [simp del]

definition is_char_boundary :: "str \<Rightarrow> nat \<Rightarrow> bool" where
  "is_char_boundary s i \<longleftrightarrow>
     i = 0 \<or> i = length s \<or> (i < length s \<and> \<not> is_cont (s ! i))"

text \<open>\<open>s.get(a..b)\<close>.\<close>

definition str_get :: "str \<Rightarrow> nat \<Rightarrow> nat \<Rightarrow> str option" where
  "str_get s a b =
     (if a \<le> b \<and> is_char_boundary s a \<and> is_char_boundary s b
      then Some (take (b - a) (drop a s)) else None)"

lemma utf8_valid_Nil [simp]: "utf8_valid []"
  by (simp add: utf8_valid.simps)

lemma utf8_lossy_Nil [simp]: "utf8_lossy [] = []"
  by (simp add: utf8_lossy.simps)

text \<open>One scalar value \<open>c\<close> of a valid string, and the induction that peels them off.\<close>

definition is_scalar :: "bytes \<Rightarrow> bool" where
  "is_scalar c \<longleftrightarrow> c \<noteq> [] \<and> utf8_step c = (True, length c)"

lemma utf8_step_scalar:
  assumes "bs \<noteq> []" and "utf8_step bs = (True, n)"
  shows "is_scalar (take n bs)"
proof -
  have "0 < n" "n \<le> length bs" using utf8_step_pos [OF assms] by simp_all
  then show ?thesis
    using utf8_step_prefix [OF assms, of "[]"] by (auto simp: is_scalar_def)
qed

lemma scalar_step: "is_scalar c \<Longrightarrow> utf8_step (c @ ys) = (True, length c)"
  using utf8_step_prefix [of c "length c" ys] by (simp add: is_scalar_def)

lemma valid_scalar_append: "is_scalar c \<Longrightarrow> utf8_valid (c @ ys) = utf8_valid ys"
  by (subst utf8_valid.simps) (auto simp: scalar_step is_scalar_def)

lemma valid_induct [consumes 1, case_names Nil scalar]:
  assumes "utf8_valid s" and "P []"
    and "\<And>c s. is_scalar c \<Longrightarrow> utf8_valid s \<Longrightarrow> P s \<Longrightarrow> P (c @ s)"
  shows "P s"
  using assms(1)
proof (induction s rule: utf8_valid.induct)
  case (1 s)
  show ?case
  proof (cases "s = []")
    case True
    then show ?thesis using assms(2) by simp
  next
    case False
    obtain n where n: "utf8_step s = (True, n)" "utf8_valid (drop n s)"
      using "1.prems" False by (subst (asm) utf8_valid.simps) (auto split: prod.splits)
    have "P (take n s @ drop n s)"
      using "1.IH" [OF False n(1) [symmetric]] n utf8_step_scalar [OF False n(1)]
      by (intro assms(3)) simp_all
    then show ?thesis by simp
  qed
qed

lemma valid_append: "utf8_valid s \<Longrightarrow> utf8_valid (s @ t) = utf8_valid t"
  by (induction rule: valid_induct) (simp_all add: valid_scalar_append)

lemma valid_scalar [simp]: "is_scalar c \<Longrightarrow> utf8_valid c"
  using valid_scalar_append [of c "[]"] by simp

lemma scalar_cont: "is_scalar c \<Longrightarrow> 0 < i \<Longrightarrow> i < length c \<Longrightarrow> is_cont (c ! i)"
  by (rule utf8_step_cont [of c "length c"]) (simp_all add: is_scalar_def)

lemma scalar_first: "is_scalar c \<Longrightarrow> \<not> is_cont (c ! 0)"
  by (rule utf8_step_first [of c "length c"]) (simp_all add: is_scalar_def)

text \<open>Cutting a valid string at a character boundary gives two valid strings, and only there.\<close>

lemma valid_split:
  "utf8_valid s \<Longrightarrow> is_char_boundary s i \<Longrightarrow> utf8_valid (take i s) \<and> utf8_valid (drop i s)"
proof (induction arbitrary: i rule: valid_induct)
  case Nil
  then show ?case by (simp add: is_char_boundary_def)
next
  case (scalar c s)
  consider "i = 0" | "0 < i" "i < length c" | "length c \<le> i" by linarith
  then show ?case
  proof cases
    case 1
    with scalar.hyps show ?thesis by (simp add: valid_scalar_append)
  next
    case 2
    then have "is_cont ((c @ s) ! i)" using scalar_cont [OF scalar.hyps(1)] by (simp add: nth_append)
    with 2 scalar.prems show ?thesis by (simp add: is_char_boundary_def)
  next
    case 3
    have c: "length c \<noteq> 0" using scalar.hyps(1) by (simp add: is_scalar_def)
    have "is_char_boundary s (i - length c)"
      using scalar.prems 3 c by (auto simp: is_char_boundary_def nth_append)
    then have "utf8_valid (take (i - length c) s) \<and> utf8_valid (drop (i - length c) s)"
      by (rule scalar.IH)
    with 3 scalar.hyps(1) show ?thesis by (simp add: valid_scalar_append)
  qed
qed

lemma valid_first_not_cont: "utf8_valid s \<Longrightarrow> s \<noteq> [] \<Longrightarrow> \<not> is_cont (s ! 0)"
proof (induction rule: valid_induct)
  case (scalar c s)
  then show ?case using scalar_first [of c] by (simp add: nth_append is_scalar_def)
qed simp

lemma valid_boundary:
  "utf8_valid t \<Longrightarrow> is_char_boundary (s @ t) (length s)"
  using valid_first_not_cont [of t] by (cases "t = []") (auto simp: is_char_boundary_def nth_append)

lemma str_get_valid: "utf8_valid s \<Longrightarrow> str_get s a b = Some t \<Longrightarrow> utf8_valid t"
proof -
  assume s: "utf8_valid s" and g: "str_get s a b = Some t"
  then have ab: "a \<le> b" "is_char_boundary s a" "is_char_boundary s b" "t = take (b - a) (drop a s)"
    by (auto simp: str_get_def split: if_splits)
  have p: "utf8_valid (take b s)" using valid_split [OF s ab(3)] by simp
  have bl: "b \<le> length s" using ab(3) by (auto simp: is_char_boundary_def)
  have "is_char_boundary (take b s) a"
    using ab(1,2) bl by (auto simp: is_char_boundary_def)
  then have "utf8_valid (drop a (take b s))" using valid_split [OF p] by blast
  then show ?thesis using ab(4) by (simp add: drop_take)
qed

lemma ascii_scalar: "b < 0x80 \<Longrightarrow> is_scalar [b]"
  by (simp add: is_scalar_def)

lemma ascii_valid: "list_all (\<lambda>b. b < 0x80) s \<Longrightarrow> utf8_valid s"
proof (induction s)
  case (Cons b s)
  then show ?case using valid_scalar_append [OF ascii_scalar, of b s] by simp
qed simp

lemma valid_lossy: "utf8_valid (utf8_lossy bs)"
proof (induction bs rule: utf8_lossy.induct)
  case (1 bs)
  show ?case
  proof (cases "bs = []")
    case False
    obtain ok n where st: "utf8_step bs = (ok, n)" by (cases "utf8_step bs")
    have rep: "is_scalar replacement" by (simp add: is_scalar_def replacement_def utf8_tails second3_def is_cont_def)
    from "1.IH" [OF False st [symmetric]] show ?thesis
      using utf8_step_scalar [OF False, of n] st rep False
      by (subst utf8_lossy.simps) (auto simp: valid_scalar_append)
  qed simp
qed

lemma lossy_valid: "utf8_valid bs \<Longrightarrow> utf8_lossy bs = bs"
proof (induction rule: valid_induct)
  case (scalar c s)
  then show ?case by (subst utf8_lossy.simps) (auto simp: scalar_step is_scalar_def)
qed simp

section \<open>ASCII case and decimal numbers\<close>

definition ascii_lower :: "byte \<Rightarrow> byte" where
  "ascii_lower b = (if 0x41 \<le> b \<and> b \<le> 0x5A then b + 0x20 else b)"

definition to_ascii_lowercase :: "str \<Rightarrow> str" where
  "to_ascii_lowercase s = map ascii_lower s"

definition eq_ignore_ascii_case :: "str \<Rightarrow> str \<Rightarrow> bool" where
  "eq_ignore_ascii_case s t \<longleftrightarrow> to_ascii_lowercase s = to_ascii_lowercase t"

definition dec_digit :: "nat \<Rightarrow> byte" where
  "dec_digit d = word_of_nat (48 + d)"

text \<open>The decimal digits that formatting an integer writes.\<close>

fun dec_nat :: "nat \<Rightarrow> str" where
  "dec_nat n = (if n < 10 then [dec_digit n] else dec_nat (n div 10) @ [dec_digit (n mod 10)])"

declare dec_nat.simps [simp del]

definition dec_int :: "int \<Rightarrow> str" where
  "dec_int i = (if i < 0 then 0x2D # dec_nat (nat (- i)) else dec_nat (nat i))"

lemma unat_dec_digit: "d < 10 \<Longrightarrow> unat (dec_digit d) = 48 + d"
  using unat_byte_mod [of "48 + d"] by (simp add: dec_digit_def)

lemma dec_digit_inj: "c < 10 \<Longrightarrow> d < 10 \<Longrightarrow> dec_digit c = dec_digit d \<longleftrightarrow> c = d"
  using unat_dec_digit [of c] unat_dec_digit [of d] by (metis add_left_cancel)

lemma dec_nat_digits: "list_all (\<lambda>b. 0x30 \<le> b \<and> b \<le> 0x39) (dec_nat n)"
proof (induction n rule: dec_nat.induct)
  case (1 n)
  have "0x30 \<le> dec_digit d \<and> dec_digit d \<le> 0x39" if "d < 10" for d
    using unat_dec_digit [OF that] that by (simp add: word_le_nat_alt)
  with 1 show ?case by (subst dec_nat.simps) simp
qed

lemma dec_nat_not_Nil [simp]: "dec_nat n \<noteq> []"
  by (subst dec_nat.simps) simp

text \<open>Reading the digits back.\<close>

definition dec_value :: "str \<Rightarrow> nat" where
  "dec_value s = foldl (\<lambda>v b. 10 * v + (unat b - 48)) 0 s"

lemma dec_value_nat: "dec_value (dec_nat n) = n"
proof (induction n rule: dec_nat.induct)
  case (1 n)
  show ?case
  proof (cases "n < 10")
    case True
    then show ?thesis by (subst dec_nat.simps) (simp add: dec_value_def unat_dec_digit)
  next
    case False
    then show ?thesis
      using 1 by (subst dec_nat.simps) (simp add: dec_value_def unat_dec_digit)
  qed
qed

lemma dec_nat_inject [simp]: "dec_nat m = dec_nat n \<longleftrightarrow> m = n"
  by (metis dec_value_nat)

lemma dec_nat_ascii: "list_all (\<lambda>b. b < 0x80) (dec_nat n)"
  using dec_nat_digits [of n] by (auto simp: list_all_iff word_le_nat_alt word_less_nat_alt)

lemma dec_int_ascii: "list_all (\<lambda>b. b < 0x80) (dec_int i)"
  using dec_nat_ascii by (simp add: dec_int_def)

lemma dec_int_inject [simp]: "dec_int i = dec_int j \<longleftrightarrow> i = j"
proof -
  have minus: "0x2D # xs \<noteq> dec_nat n" for xs n
  proof
    assume "0x2D # xs = dec_nat n"
    then have "list_all (\<lambda>b. 0x30 \<le> b \<and> b \<le> 0x39) ((0x2D :: byte) # xs)" using dec_nat_digits by metis
    then show False by simp
  qed
  show ?thesis using minus minus [symmetric] by (auto simp: dec_int_def)
qed

end
