(* ===== verification/Span_Types.thy ===== *)
theory Span_Types
  imports Utf8
begin

text \<open>
  The data that travels from a backend to the exporter (\<open>src/span.rs\<close>): \<open>SpanRecord\<close> and its
  attributes.

  Representation. A \<open>TraceId\<close> or \<open>SpanId\<close> (types of the opentelemetry crate) is its byte array, as
  its \<open>to_bytes\<close> gives it: 16 and 8 bytes. A \<open>SystemTime\<close> is the number of nanoseconds since the
  Unix epoch, negative before it. An \<open>f64\<close> is its bit pattern.
\<close>

type_synonym trace_id = bytes
type_synonym span_id = bytes
type_synonym f64 = "64 word"
type_synonym system_time = int

definition TRACE_ID_INVALID :: trace_id where
  "TRACE_ID_INVALID = replicate 16 0"

definition SPAN_ID_INVALID :: span_id where
  "SPAN_ID_INVALID = replicate 8 0"

record query_attributes =
  parent_is_remote :: bool
  operation :: str
  query_text :: "str option"
  query_id :: i64
  exec_total_time_ns :: i64
  plan_spans_omitted :: u64

record plan_node_attributes =
  node_type :: str
  node_relation :: "str option"
  parent_relationship :: "str option"
  subplan_name :: "str option"
  subplans_removed :: u64
  workers_launched :: "i64 option"
  never_executed :: bool
  instrumentation_incomplete :: bool
  startup_cost :: f64
  total_cost :: f64
  plan_rows :: f64
  width_bytes :: i32
  parallel_aware :: bool
  parallel_safe :: bool
  async_capable :: bool
  instr_startup_time_ns :: i64
  instr_total_time_ns :: i64
  instr_rows :: f64
  instr_secondary_rows :: f64
  instr_loops :: f64
  instr_rows_removed_by_scan_or_join_filter :: f64
  instr_rows_removed_by_other_filter :: f64

datatype span_attributes =
    Query query_attributes
  | PlanNode plan_node_attributes

record span_record =
  sp_trace_id :: trace_id
  sp_span_id :: span_id
  sp_parent_id :: span_id
  sp_name :: str
  sp_start_time :: system_time
  sp_end_time :: system_time
  sp_attributes :: span_attributes

text \<open>What children of a span need to know about it, and the link of a span.\<close>

record span_link =
  ln_trace_id :: trace_id
  ln_span_id :: span_id
  ln_end_time :: system_time

definition span_link_of :: "span_record \<Rightarrow> span_link" where
  "span_link_of s =
     \<lparr>ln_trace_id = sp_trace_id s, ln_span_id = sp_span_id s, ln_end_time = sp_end_time s\<rparr>"

definition span_relation :: "span_record \<Rightarrow> str option" where
  "span_relation s =
     (case sp_attributes s of PlanNode node \<Rightarrow> node_relation node | Query _ \<Rightarrow> None)"

end
