(* ===== verification/Walk.thy ===== *)
theory Walk
  imports Span_Types
begin

text \<open>
  The walk over a plan tree (\<open>walk_plan\<close> of \<open>src/span.rs\<close>): a loop over an explicit stack, and the
  depth-first recursion that it stands for.

  The two closures of the caller are functions on the states that they capture: \<open>'c\<close> for the
  enumerator of children, \<open>'v\<close> for the visitor. A visitor that does not return (it raises an error)
  answers \<open>None\<close>, and then the walk does.
\<close>

section \<open>The loop\<close>

datatype relationship = Outer | Inner | InitPlan | SubPlan | Member | Subquery | Child

definition relationship_str :: "relationship \<Rightarrow> str" where
  "relationship_str r =
     (case r of
        Outer \<Rightarrow> lit ''Outer'' | Inner \<Rightarrow> lit ''Inner'' | InitPlan \<Rightarrow> lit ''InitPlan''
      | SubPlan \<Rightarrow> lit ''SubPlan'' | Member \<Rightarrow> lit ''Member'' | Subquery \<Rightarrow> lit ''Subquery'' | Child \<Rightarrow> lit ''Child'')"

record child_edge =
  ed_relationship :: relationship
  ed_subplan_name :: "str option"

definition child_edge_new :: "relationship \<Rightarrow> child_edge" where
  "child_edge_new r = \<lparr>ed_relationship = r, ed_subplan_name = None\<rparr>"

record 'n plan_child =
  pch_node :: 'n
  pch_edge :: child_edge

record walk_summary =
  ws_emitted :: nat
  ws_omitted :: nat

definition walk_summary_default :: walk_summary where
  "walk_summary_default = \<lparr>ws_emitted = 0, ws_omitted = 0\<rparr>"

type_synonym ('v, 'n, 'l) visitor = "'v \<Rightarrow> 'n \<Rightarrow> child_edge option \<Rightarrow> 'l option \<Rightarrow> ('l option \<times> 'v) option"

text \<open>Visiting one node, and the summary afterwards.\<close>

definition visit_node ::
    "('v, 'n, 'l) visitor \<Rightarrow> nat \<Rightarrow> 'n \<Rightarrow> child_edge option \<Rightarrow> 'l option \<Rightarrow> walk_summary \<Rightarrow> 'v \<Rightarrow>
     ('l option \<times> walk_summary \<times> 'v) option" where
  "visit_node visit max_spans node edge parent summary v =
     (case (if ws_emitted summary < max_spans then visit v node edge parent else Some (None, v)) of
        None \<Rightarrow> None
      | Some (link, v') \<Rightarrow>
          Some (link,
            (case link of
               Some _ \<Rightarrow> summary\<lparr>ws_emitted := ws_emitted summary + 1\<rparr>
             | None \<Rightarrow>
                 if ws_emitted summary \<ge> max_spans then summary\<lparr>ws_omitted := ws_omitted summary + 1\<rparr> else summary),
            v'))"

text \<open>The stack's top is the head of the list; the children are pushed in reverse.\<close>

partial_function (option) walk_loop ::
    "('c \<Rightarrow> 'n \<Rightarrow> 'n plan_child list \<times> 'c) \<Rightarrow> ('v, 'n, 'l) visitor \<Rightarrow> nat \<Rightarrow>
     ('n \<times> child_edge option \<times> 'l option) list \<Rightarrow> walk_summary \<Rightarrow> 'c \<Rightarrow> 'v \<Rightarrow> (walk_summary \<times> 'c \<times> 'v) option" where
  "walk_loop children_of visit max_spans stack summary c v =
     (case stack of
        [] \<Rightarrow> Some (summary, c, v)
      | (node, edge, parent) # stack \<Rightarrow>
          (case visit_node visit max_spans node edge parent summary v of
             None \<Rightarrow> None
           | Some (link, summary, v) \<Rightarrow>
               (case children_of c node of
                  (children, c) \<Rightarrow>
                    walk_loop children_of visit max_spans
                      (fold (\<lambda>child stack.
                          (pch_node child, Some (pch_edge child), (case link of Some l \<Rightarrow> Some l | None \<Rightarrow> parent)) # stack)
                        (rev children) stack)
                      summary c v)))"

definition walk_plan ::
    "'n \<Rightarrow> nat \<Rightarrow> ('c \<Rightarrow> 'n \<Rightarrow> 'n plan_child list \<times> 'c) \<Rightarrow> ('v, 'n, 'l) visitor \<Rightarrow> 'c \<Rightarrow> 'v \<Rightarrow>
     (walk_summary \<times> 'c \<times> 'v) option" where
  "walk_plan root max_spans children_of visit c v =
     walk_loop children_of visit max_spans [(root, None, None)] walk_summary_default c v"

section \<open>Depth-first recursion\<close>

text \<open>The tree that the enumerator unfolds to, each node under the edge to its parent.\<close>

datatype 'n rose = Rose 'n "(child_edge option \<times> 'n rose) list"

type_synonym 'n forest = "(child_edge option \<times> 'n rose) list"

fun expand_all :: "('c \<Rightarrow> 'n \<Rightarrow> 'n rose \<times> 'c) \<Rightarrow> 'c \<Rightarrow> (child_edge option \<times> 'n) list \<Rightarrow> 'n forest \<times> 'c" where
  "expand_all expand c [] = ([], c)"
| "expand_all expand c ((e, n) # ns) =
     (case expand c n of
        (t, c) \<Rightarrow> (case expand_all expand c ns of (ts, c) \<Rightarrow> ((e, t) # ts, c)))"

lemma expand_all_cong [fundef_cong]:
  assumes "c = c'" and "ns = ns'" and "\<And>c e n. (e, n) \<in> set ns' \<Longrightarrow> f c n = g c n"
  shows "expand_all f c ns = expand_all g c' ns'"
proof -
  have "(\<And>c e n. (e, n) \<in> set ns' \<Longrightarrow> f c n = g c n) \<Longrightarrow> expand_all f c' ns' = expand_all g c' ns'"
  proof (induction ns' arbitrary: c')
    case (Cons en ns)
    obtain e n where en: "en = (e, n)" by (cases en)
    have "f c n = g c n" for c using Cons.prems [of e n c] by (simp add: en)
    moreover have "expand_all f c ns = expand_all g c ns" for c
    proof (rule Cons.IH)
      show "f c n = g c n" if "(e, n) \<in> set ns" for c e n using Cons.prems [of e n c] that by simp
    qed
    ultimately show ?case by (simp add: en)
  qed simp
  with assms show ?thesis by blast
qed

fun visit_forest ::
    "('v, 'n, 'l) visitor \<Rightarrow> nat \<Rightarrow> 'l option \<Rightarrow> 'n forest \<Rightarrow> walk_summary \<Rightarrow> 'v \<Rightarrow> (walk_summary \<times> 'v) option" where
  "visit_forest visit max_spans parent [] summary v = Some (summary, v)"
| "visit_forest visit max_spans parent ((edge, Rose node ts) # rest) summary v =
     (case visit_node visit max_spans node edge parent summary v of
        None \<Rightarrow> None
      | Some (link, summary, v) \<Rightarrow>
          (case visit_forest visit max_spans (case link of Some l \<Rightarrow> Some l | None \<Rightarrow> parent) ts summary v of
             None \<Rightarrow> None
           | Some (summary, v) \<Rightarrow> visit_forest visit max_spans parent rest summary v))"

text \<open>The nodes in the order of the walk.\<close>

fun preorder :: "'n forest \<Rightarrow> (child_edge option \<times> 'n) list" where
  "preorder [] = []"
| "preorder ((e, Rose n ts) # rest) = (e, n) # preorder ts @ preorder rest"

text \<open>
  The interface of an enumerator whose unfolding is a finite tree: \<open>expand\<close> is that tree, described by
  its recursion equation.
\<close>

definition child_pairs :: "'n plan_child list \<Rightarrow> (child_edge option \<times> 'n) list" where
  "child_pairs cs = map (\<lambda>k. (Some (pch_edge k), pch_node k)) cs"

locale plan_tree =
  fixes children_of :: "'c \<Rightarrow> 'n \<Rightarrow> 'n plan_child list \<times> 'c"
    and expand :: "'c \<Rightarrow> 'n \<Rightarrow> 'n rose \<times> 'c"
  assumes expand_step: "expand c n =
    (case children_of c n of
       (cs, c1) \<Rightarrow> (case expand_all expand c1 (child_pairs cs) of (ts, c2) \<Rightarrow> (Rose n ts, c2)))"
begin

definition items :: "'l option \<Rightarrow> (child_edge option \<times> 'n) list \<Rightarrow> ('n \<times> child_edge option \<times> 'l option) list" where
  "items parent ns = map (\<lambda>(e, n). (n, e, parent)) ns"

lemma push_children:
  "fold (\<lambda>child stack. (pch_node child, Some (pch_edge child), p) # stack) (rev cs) stack = items p (child_pairs cs) @ stack"
  by (induction cs arbitrary: stack) (simp_all add: items_def child_pairs_def)

lemma walk_loop_forest:
  assumes "expand_all expand c ns = (ts, c')"
  shows "walk_loop children_of visit max_spans (items parent ns @ stack) summary c v =
    (case visit_forest visit max_spans parent ts summary v of
       None \<Rightarrow> None
     | Some (summary', v') \<Rightarrow> walk_loop children_of visit max_spans stack summary' c' v')"
  using assms
proof (induction visit max_spans parent ts summary v arbitrary: ns c c' stack rule: visit_forest.induct)
  case (1 visit max_spans parent summary v)
  then have "ns = []" "c' = c" by (cases ns; auto split: prod.splits)+
  then show ?case by (simp add: items_def)
next
  case (2 visit max_spans parent edge node ts rest summary v)
  from 2(3) obtain e n ns' c1 where ns: "ns = (e, n) # ns'"
    and t: "expand c n = (Rose node ts, c1)" and e: "e = edge" and r: "expand_all expand c1 ns' = (rest, c')"
    by (cases ns) (auto split: prod.splits)
  obtain cs c0 where k: "children_of c n = (cs, c0)" by (cases "children_of c n")
  from t k have node: "node = n" and ex: "expand_all expand c0 (child_pairs cs) = (ts, c1)"
    by (subst (asm) expand_step; auto split: prod.splits)+
  have start: "items parent ns @ stack = (n, edge, parent) # items parent ns' @ stack"
    by (simp add: items_def ns e)
  show ?case
  proof (cases "visit_node visit max_spans n edge parent summary v")
    case None
    then show ?thesis unfolding start by (subst walk_loop.simps) (simp add: node)
  next
    case (Some lsv)
    obtain link summary1 v1 where lsv: "lsv = (link, summary1, v1)" by (cases lsv)
    let ?p = "case link of Some l \<Rightarrow> Some l | None \<Rightarrow> parent"
    have "walk_loop children_of visit max_spans (items parent ns @ stack) summary c v =
        walk_loop children_of visit max_spans (items ?p (child_pairs cs) @ items parent ns' @ stack) summary1 c0 v1"
      unfolding start by (subst walk_loop.simps) (simp add: Some lsv k push_children)
    also have "\<dots> = (case visit_forest visit max_spans ?p ts summary1 v1 of
       None \<Rightarrow> None
     | Some (summary', v') \<Rightarrow> walk_loop children_of visit max_spans (items parent ns' @ stack) summary' c1 v')"
      using 2(1) [OF _ _ _ ex] Some lsv node by simp
    also have "\<dots> = (case visit_forest visit max_spans ?p ts summary1 v1 of
       None \<Rightarrow> None
     | Some (summary', v') \<Rightarrow>
         (case visit_forest visit max_spans parent rest summary' v' of
            None \<Rightarrow> None
          | Some (summary', v') \<Rightarrow> walk_loop children_of visit max_spans stack summary' c' v'))"
    proof (cases "visit_forest visit max_spans ?p ts summary1 v1")
      case (Some sv)
      obtain s2 v2 where sv: "sv = (s2, v2)" by (cases sv)
      show ?thesis
        using 2(2) [OF _ _ _ _ _ r] Some sv \<open>visit_node _ _ _ _ _ _ _ = _\<close> lsv node by simp
    qed simp
    finally show ?thesis using Some lsv node by (simp split: option.splits prod.splits)
  qed
qed

text \<open>The walk is the depth-first recursion over the tree; it always comes back.\<close>

lemma walk_plan_forest:
  assumes "expand c root = (t, c')"
  shows "walk_plan root max_spans children_of visit c v =
    map_option (\<lambda>(summary, v). (summary, c', v)) (visit_forest visit max_spans None [(None, t)] walk_summary_default v)"
proof -
  have "expand_all expand c [(None, root)] = ([(None, t)], c')" using assms by simp
  from walk_loop_forest [OF this, of visit max_spans None "[]"]
  show ?thesis
    by (simp add: walk_plan_def items_def walk_loop.simps [of children_of visit max_spans "[]"] split: option.splits prod.splits)
qed

end

section \<open>What a walk does\<close>

lemma visit_forest_ConsE:
  assumes "visit_forest visit max_spans parent ((edge, Rose node ts) # rest) summary v = Some (summary', v')"
  obtains link s1 v1 s2 v2 where "visit_node visit max_spans node edge parent summary v = Some (link, s1, v1)"
    and "visit_forest visit max_spans (case link of Some l \<Rightarrow> Some l | None \<Rightarrow> parent) ts s1 v1 = Some (s2, v2)"
    and "visit_forest visit max_spans parent rest s2 v2 = Some (summary', v')"
  using assms by (auto split: option.splits)

text \<open>An invariant of the visitor's state that every visit to a node keeps, with parents that stay known.\<close>

lemma visit_forest_invariant:
  assumes "visit_forest visit max_spans parent ts summary v = Some (summary', v')"
    and "I v" and "K v parent"
    and "\<And>v n e p link v'. I v \<Longrightarrow> K v p \<Longrightarrow> (e, n) \<in> set (preorder ts) \<Longrightarrow> visit v n e p = Some (link, v') \<Longrightarrow>
      I v' \<and> (link \<noteq> None \<longrightarrow> K v' link) \<and> (\<forall>q. K v q \<longrightarrow> K v' q)"
  shows "I v' \<and> (\<forall>q. K v q \<longrightarrow> K v' q)"
  using assms
proof (induction visit max_spans parent ts summary v arbitrary: summary' v' rule: visit_forest.induct)
  case (2 visit max_spans parent edge node ts rest summary v)
  obtain link s1 v1 s2 v2 where n: "visit_node visit max_spans node edge parent summary v = Some (link, s1, v1)"
    and t: "visit_forest visit max_spans (case link of Some l \<Rightarrow> Some l | None \<Rightarrow> parent) ts s1 v1 = Some (s2, v2)"
    and r: "visit_forest visit max_spans parent rest s2 v2 = Some (summary', v')"
    using "2.prems"(1) by (rule visit_forest_ConsE)
  have v1: "I v1 \<and> (link \<noteq> None \<longrightarrow> K v1 link) \<and> (\<forall>q. K v q \<longrightarrow> K v1 q)"
  proof (cases "ws_emitted summary < max_spans")
    case True
    then have "visit v node edge parent = Some (link, v1)"
      using n by (simp add: visit_node_def split: option.splits prod.splits)
    moreover have "(edge, node) \<in> set (preorder ((edge, Rose node ts) # rest))" by simp
    ultimately show ?thesis using "2.prems"(4) [OF "2.prems"(2,3)] by blast
  next
    case False
    then have "link = None" "v1 = v" using n by (simp_all add: visit_node_def)
    with "2.prems"(2) show ?thesis by simp
  qed
  have sub: "(e, k) \<in> set (preorder ts) \<Longrightarrow> (e, k) \<in> set (preorder ((edge, Rose node ts) # rest))"
    "(e, k) \<in> set (preorder rest) \<Longrightarrow> (e, k) \<in> set (preorder ((edge, Rose node ts) # rest))" for e k by simp_all
  have "K v1 (case link of Some l \<Rightarrow> Some l | None \<Rightarrow> parent)" using v1 "2.prems"(3) by (cases link) auto
  with v1 have v2: "I v2 \<and> (\<forall>q. K v1 q \<longrightarrow> K v2 q)"
    by (intro "2.IH"(1) [OF n refl refl t _ _ "2.prems"(4)]) (auto intro: sub(1))
  moreover from this have "K v2 parent" using v1 "2.prems"(3) by blast
  ultimately have "I v' \<and> (\<forall>q. K v2 q \<longrightarrow> K v' q)"
    by (intro "2.IH"(2) [OF n refl refl t refl r _ _ "2.prems"(4)]) (auto intro: sub(2))
  with v1 v2 show ?case by blast
next
  case (1 visit max_spans parent summary v)
  from "1.prems"(1) have "v' = v" by simp
  with "1.prems"(2) show ?case by simp
qed

text \<open>
  The limit holds; and when every visit gives a span, the first nodes of the walk get theirs and the
  others are counted.
\<close>

lemma visit_forest_counts:
  assumes "visit_forest visit max_spans parent ts summary v = Some (summary', v')"
    and "ws_emitted summary \<le> max_spans"
    and "\<And>v n e p w. visit v n e p \<noteq> Some (None, w)"
  shows "ws_emitted summary' = min max_spans (ws_emitted summary + length (preorder ts)) \<and>
    ws_emitted summary' + ws_omitted summary' = ws_emitted summary + ws_omitted summary + length (preorder ts)"
  using assms
proof (induction visit max_spans parent ts summary v arbitrary: summary' v' rule: visit_forest.induct)
  case (2 visit max_spans parent edge node ts rest summary v)
  obtain link s1 v1 s2 v2 where n: "visit_node visit max_spans node edge parent summary v = Some (link, s1, v1)"
    and t: "visit_forest visit max_spans (case link of Some l \<Rightarrow> Some l | None \<Rightarrow> parent) ts s1 v1 = Some (s2, v2)"
    and r: "visit_forest visit max_spans parent rest s2 v2 = Some (summary', v')"
    using "2.prems"(1) by (rule visit_forest_ConsE)
  have s1: "ws_emitted s1 = min max_spans (ws_emitted summary + 1) \<and>
      ws_emitted s1 + ws_omitted s1 = ws_emitted summary + ws_omitted summary + 1"
    using n "2.prems"(2,3) by (auto simp: visit_node_def split: option.splits prod.splits if_splits)
  then have "ws_emitted s1 \<le> max_spans" by simp
  note s2 = "2.IH"(1) [OF n refl refl t this "2.prems"(3)]
  then have "ws_emitted s2 \<le> max_spans" by simp
  from "2.IH"(2) [OF n refl refl t refl r this "2.prems"(3)] s1 s2 show ?case by auto
qed (simp add: min_def)

lemma visit_forest_limit:
  assumes "visit_forest visit max_spans parent ts summary v = Some (summary', v')"
    and "ws_emitted summary \<le> max_spans" and "ws_omitted summary = 0 \<or> ws_emitted summary = max_spans"
  shows "ws_emitted summary' \<le> max_spans \<and> (ws_omitted summary' = 0 \<or> ws_emitted summary' = max_spans) \<and>
    ws_emitted summary \<le> ws_emitted summary'"
  using assms
proof (induction visit max_spans parent ts summary v arbitrary: summary' v' rule: visit_forest.induct)
  case (2 visit max_spans parent edge node ts rest summary v)
  obtain link s1 v1 s2 v2 where n: "visit_node visit max_spans node edge parent summary v = Some (link, s1, v1)"
    and t: "visit_forest visit max_spans (case link of Some l \<Rightarrow> Some l | None \<Rightarrow> parent) ts s1 v1 = Some (s2, v2)"
    and r: "visit_forest visit max_spans parent rest s2 v2 = Some (summary', v')"
    using "2.prems"(1) by (rule visit_forest_ConsE)
  have s1: "ws_emitted s1 \<le> max_spans \<and> (ws_omitted s1 = 0 \<or> ws_emitted s1 = max_spans) \<and>
      ws_emitted summary \<le> ws_emitted s1"
    using n "2.prems"(2,3) by (auto simp: visit_node_def split: option.splits prod.splits if_splits)
  note s2 = "2.IH"(1) [OF n refl refl t s1 [THEN conjunct1] s1 [THEN conjunct2, THEN conjunct1]]
  from "2.IH"(2) [OF n refl refl t refl r s2 [THEN conjunct1] s2 [THEN conjunct2, THEN conjunct1]] s1 s2
  show ?case by linarith
qed simp

text \<open>A count of the visitor's that grows with each span it gives is the summary's.\<close>

lemma visit_forest_emitted:
  assumes "visit_forest visit max_spans parent ts summary v = Some (summary', v')"
    and "\<And>v n e p link v'. visit v n e p = Some (link, v') \<Longrightarrow> f v' = f v + (if link = None then 0 else 1 :: nat)"
  shows "f v' + ws_emitted summary = f v + ws_emitted summary'"
  using assms
proof (induction visit max_spans parent ts summary v arbitrary: summary' v' rule: visit_forest.induct)
  case (2 visit max_spans parent edge node ts rest summary v)
  obtain link s1 v1 s2 v2 where n: "visit_node visit max_spans node edge parent summary v = Some (link, s1, v1)"
    and t: "visit_forest visit max_spans (case link of Some l \<Rightarrow> Some l | None \<Rightarrow> parent) ts s1 v1 = Some (s2, v2)"
    and r: "visit_forest visit max_spans parent rest s2 v2 = Some (summary', v')"
    using "2.prems"(1) by (rule visit_forest_ConsE)
  have "f v1 + ws_emitted summary = f v + ws_emitted s1"
  proof (cases "ws_emitted summary < max_spans")
    case True
    then obtain w where w: "visit v node edge parent = Some (link, v1)"
      using n by (simp add: visit_node_def split: option.splits prod.splits)
    from "2.prems"(2) [OF w] True n w show ?thesis by (cases link) (auto simp: visit_node_def)
  next
    case False
    then show ?thesis using n by (auto simp: visit_node_def)
  qed
  moreover have "f v2 + ws_emitted s1 = f v1 + ws_emitted s2" by (rule "2.IH"(1) [OF n refl refl t]) (rule "2.prems"(2))
  moreover have "f v' + ws_emitted s2 = f v2 + ws_emitted summary'"
    by (rule "2.IH"(2) [OF n refl refl t refl r]) (rule "2.prems"(2))
  ultimately show ?case by linarith
next
  case (1 visit max_spans parent summary v)
  from "1.prems"(1) show ?case by simp
qed

text \<open>
  What the visitor puts out (\<open>out\<close> of its state) corresponds to the nodes that \<open>has\<close> describes, in the order
  of the walk, up to where the limit is reached; the nodes behind that are the omitted ones.
\<close>

lemma visit_forest_seen:
  assumes "visit_forest visit max_spans parent ts summary v = Some (summary', v')"
    and "\<And>v n e p link v'. (e, n) \<in> set (preorder ts) \<Longrightarrow> visit v n e p = Some (link, v') \<Longrightarrow>
      (case link of None \<Rightarrow> out v' = out v \<and> \<not> has (e, n) | Some l \<Rightarrow> \<exists>x. out v' = out v @ [x] \<and> has (e, n) \<and> R (e, n) x)"
  shows "\<exists>seen rest new. preorder ts = seen @ rest \<and> out v' = out v @ new \<and> list_all2 R (filter has seen) new \<and>
    ws_emitted summary' = ws_emitted summary + length new \<and> ws_omitted summary' = ws_omitted summary + length rest \<and>
    (rest \<noteq> [] \<longrightarrow> max_spans \<le> ws_emitted summary') \<and> (max_spans \<le> ws_emitted summary \<longrightarrow> seen = [])"
  using assms
proof (induction visit max_spans parent ts summary v arbitrary: summary' v' rule: visit_forest.induct)
  case (1 visit max_spans parent summary v)
  then show ?case by simp
next
  case (2 visit max_spans parent edge node ts rest summary v)
  obtain link s1 v1 s2 v2 where n: "visit_node visit max_spans node edge parent summary v = Some (link, s1, v1)"
    and t: "visit_forest visit max_spans (case link of Some l \<Rightarrow> Some l | None \<Rightarrow> parent) ts s1 v1 = Some (s2, v2)"
    and r: "visit_forest visit max_spans parent rest s2 v2 = Some (summary', v')"
    using "2.prems"(1) by (rule visit_forest_ConsE)
  have "\<exists>seen left new. [(edge, node)] = seen @ left \<and> out v1 = out v @ new \<and> list_all2 R (filter has seen) new \<and>
      ws_emitted s1 = ws_emitted summary + length new \<and> ws_omitted s1 = ws_omitted summary + length left \<and>
      (left \<noteq> [] \<longrightarrow> max_spans \<le> ws_emitted s1) \<and> (max_spans \<le> ws_emitted summary \<longrightarrow> seen = [])"
  proof (cases "ws_emitted summary < max_spans")
    case True
    then have w: "visit v node edge parent = Some (link, v1)"
      using n by (simp add: visit_node_def split: option.splits prod.splits)
    have "(edge, node) \<in> set (preorder ((edge, Rose node ts) # rest))" by simp
    note out = "2.prems"(2) [OF this w]
    show ?thesis
    proof (cases link)
      case None
      with out True n w show ?thesis
        by (intro exI [of _ "[(edge, node)]"] exI [of _ "[]"] exI [of _ "[]"]) (auto simp: visit_node_def)
    next
      case (Some l)
      with out obtain x where "out v1 = out v @ [x]" "has (edge, node)" "R (edge, node) x" by auto
      with Some True n w show ?thesis
        by (intro exI [of _ "[(edge, node)]"] exI [of _ "[]"] exI [of _ "[x]"]) (auto simp: visit_node_def)
    qed
  next
    case False
    then show ?thesis using n by (intro exI [of _ "[]"] exI [of _ "[(edge, node)]"]) (auto simp: visit_node_def)
  qed
  then obtain a0 b0 c0 where one: "[(edge, node)] = a0 @ b0" "out v1 = out v @ c0" "list_all2 R (filter has a0) c0"
    "ws_emitted s1 = ws_emitted summary + length c0" "ws_omitted s1 = ws_omitted summary + length b0"
    "b0 \<noteq> [] \<longrightarrow> max_spans \<le> ws_emitted s1" "max_spans \<le> ws_emitted summary \<longrightarrow> a0 = []" by blast
  have step: "case link of None \<Rightarrow> out v' = out v \<and> \<not> has (e, n) | Some l \<Rightarrow> \<exists>x. out v' = out v @ [x] \<and> has (e, n) \<and> R (e, n) x"
    if "(e, n) \<in> set (preorder ts) \<or> (e, n) \<in> set (preorder rest)" "visit v n e p = Some (link, v')" for v n e p link v'
    using that by (intro "2.prems"(2)) auto
  obtain a1 b1 c1 where sub: "preorder ts = a1 @ b1" "out v2 = out v1 @ c1" "list_all2 R (filter has a1) c1"
    "ws_emitted s2 = ws_emitted s1 + length c1" "ws_omitted s2 = ws_omitted s1 + length b1"
    "b1 \<noteq> [] \<longrightarrow> max_spans \<le> ws_emitted s2" "max_spans \<le> ws_emitted s1 \<longrightarrow> a1 = []"
  proof -
    show thesis
      by (rule exE [OF "2.IH"(1) [OF n refl refl t]]) (erule step [OF disjI1], assumption, elim exE conjE, rule that)
  qed
  obtain a2 b2 c2 where more: "preorder rest = a2 @ b2" "out v' = out v2 @ c2" "list_all2 R (filter has a2) c2"
    "ws_emitted summary' = ws_emitted s2 + length c2" "ws_omitted summary' = ws_omitted s2 + length b2"
    "b2 \<noteq> [] \<longrightarrow> max_spans \<le> ws_emitted summary'" "max_spans \<le> ws_emitted s2 \<longrightarrow> a2 = []"
  proof -
    show thesis
      by (rule exE [OF "2.IH"(2) [OF n refl refl t refl r]]) (erule step [OF disjI2], assumption, elim exE conjE, rule that)
  qed
  have b0: "b0 \<noteq> [] \<longrightarrow> a1 = []" and b1: "b0 @ b1 \<noteq> [] \<longrightarrow> a2 = []" using one sub more by auto
  then have "preorder ((edge, Rose node ts) # rest) = (a0 @ a1 @ a2) @ b0 @ b1 @ b2"
    using one(1) sub(1) more(1) by (cases "b0 = []"; cases "b0 @ b1 = []") auto
  moreover have "list_all2 R (filter has (a0 @ a1 @ a2)) (c0 @ c1 @ c2)"
    using one(3) sub(3) more(3) by (simp add: list_all2_appendI)
  moreover have "max_spans \<le> ws_emitted summary \<longrightarrow> a0 @ a1 @ a2 = []" "b0 @ b1 @ b2 \<noteq> [] \<longrightarrow> max_spans \<le> ws_emitted summary'"
    using one sub more by auto
  ultimately show ?case
    using one(2,4,5) sub(2,4,5) more(2,4,5)
    by (intro exI [of _ "a0 @ a1 @ a2"] exI [of _ "b0 @ b1 @ b2"] exI [of _ "c0 @ c1 @ c2"]) simp
qed

text \<open>
  A visitor that answers with a span as long as it has supplies left (\<open>supply\<close> of its state), one for
  each span: the walk comes back.
\<close>

lemma visit_forest_total:
  assumes "max_spans - ws_emitted summary \<le> supply v" and "ws_emitted summary \<le> max_spans"
    and "\<And>v n e p. 0 < supply v \<Longrightarrow> (e, n) \<in> set (preorder ts) \<Longrightarrow>
      \<exists>l v'. visit v n e p = Some (Some l, v') \<and> supply v \<le> supply v' + 1"
  shows "\<exists>summary' v'. visit_forest visit max_spans parent ts summary v = Some (summary', v') \<and>
    ws_emitted summary' = min max_spans (ws_emitted summary + length (preorder ts)) \<and>
    ws_emitted summary' + ws_omitted summary' = ws_emitted summary + ws_omitted summary + length (preorder ts) \<and>
    max_spans - ws_emitted summary' \<le> supply v'"
  using assms
proof (induction visit max_spans parent ts summary v rule: visit_forest.induct)
  case (2 visit max_spans parent edge node ts rest summary v)
  have sub: "(e, k) \<in> set (preorder ts) \<Longrightarrow> (e, k) \<in> set (preorder ((edge, Rose node ts) # rest))"
    "(e, k) \<in> set (preorder rest) \<Longrightarrow> (e, k) \<in> set (preorder ((edge, Rose node ts) # rest))" for e k by simp_all
  obtain link s1 v1 where n: "visit_node visit max_spans node edge parent summary v = Some (link, s1, v1)"
    and s1: "ws_emitted s1 = min max_spans (ws_emitted summary + 1)"
      "ws_emitted s1 + ws_omitted s1 = ws_emitted summary + ws_omitted summary + 1"
    and v1: "max_spans - ws_emitted s1 \<le> supply v1"
  proof (cases "ws_emitted summary < max_spans")
    case True
    then have "0 < supply v" using "2.prems"(1) by simp
    moreover have "(edge, node) \<in> set (preorder ((edge, Rose node ts) # rest))" by simp
    ultimately obtain l w where "visit v node edge parent = Some (Some l, w)" "supply v \<le> supply w + 1"
      using "2.prems"(3) by meson
    with True "2.prems"(1) show ?thesis
      by (intro that [of "Some l" "summary\<lparr>ws_emitted := ws_emitted summary + 1\<rparr>" w]) (simp_all add: visit_node_def)
  next
    case False
    with "2.prems"(2) show ?thesis
      by (intro that [of None "summary\<lparr>ws_omitted := ws_omitted summary + 1\<rparr>" v]) (simp_all add: visit_node_def)
  qed
  let ?p = "case link of Some l \<Rightarrow> Some l | None \<Rightarrow> parent"
  have "ws_emitted s1 \<le> max_spans" using s1(1) by simp
  from "2.IH"(1) [OF n refl refl v1 this "2.prems"(3) [OF _ sub(1)]]
  obtain s2 v2 where t: "visit_forest visit max_spans ?p ts s1 v1 = Some (s2, v2)"
    and s2: "ws_emitted s2 = min max_spans (ws_emitted s1 + length (preorder ts))"
      "ws_emitted s2 + ws_omitted s2 = ws_emitted s1 + ws_omitted s1 + length (preorder ts)"
    and v2: "max_spans - ws_emitted s2 \<le> supply v2" by blast
  have "ws_emitted s2 \<le> max_spans" using s2(1) by simp
  from "2.IH"(2) [OF n refl refl t refl v2 this "2.prems"(3) [OF _ sub(2)]]
  obtain s3 v3 where r: "visit_forest visit max_spans parent rest s2 v2 = Some (s3, v3)"
    and s3: "ws_emitted s3 = min max_spans (ws_emitted s2 + length (preorder rest))"
      "ws_emitted s3 + ws_omitted s3 = ws_emitted s2 + ws_omitted s2 + length (preorder rest)"
      "max_spans - ws_emitted s3 \<le> supply v3" by blast
  have "visit_forest visit max_spans parent ((edge, Rose node ts) # rest) summary v = Some (s3, v3)"
    by (simp add: n t r)
  moreover have "ws_emitted s3 = min max_spans (ws_emitted summary + length (preorder ((edge, Rose node ts) # rest)))"
    using s1(1) s2(1) s3(1) unfolding preorder.simps length_Cons length_append by linarith
  moreover have "ws_emitted s3 + ws_omitted s3 =
      ws_emitted summary + ws_omitted summary + length (preorder ((edge, Rose node ts) # rest))"
    using s1(2) s2(2) s3(2) by simp
  ultimately show ?case using s3(3) by blast
next
  case (1 visit max_spans parent summary v)
  from "1.prems"(1,2) show ?case by (simp add: min_def)
qed

end
