(* ===== verification/F64.thy ===== *)
theory F64
  imports Span_Types
begin

text \<open>
  The operations of Rust's \<open>f64\<close> that the extension uses, on bit patterns (IEEE 754 binary64, round
  to nearest, ties to even): conversion from \<open>i64\<close>, multiplication, division, \<open>round\<close> (half away
  from zero) and the saturating cast \<open>as i64\<close>.

  A finite value is a sign and an exact fraction of natural numbers; an operation computes the exact
  result and rounds it once (\<open>f64_pack\<close>).
\<close>

section \<open>Patterns\<close>

definition F64_INF :: nat where
  "F64_INF = 0x7FF0000000000000"

definition f64_mag :: "f64 \<Rightarrow> nat" where
  "f64_mag w = unat w mod 2 ^ 63"

definition f64_neg :: "f64 \<Rightarrow> bool" where
  "f64_neg w \<longleftrightarrow> 2 ^ 63 \<le> unat w"

definition f64_is_nan :: "f64 \<Rightarrow> bool" where
  "f64_is_nan w \<longleftrightarrow> F64_INF < f64_mag w"

definition f64_is_inf :: "f64 \<Rightarrow> bool" where
  "f64_is_inf w \<longleftrightarrow> f64_mag w = F64_INF"

definition f64_is_zero :: "f64 \<Rightarrow> bool" where
  "f64_is_zero w \<longleftrightarrow> f64_mag w = 0"

definition f64_make :: "bool \<Rightarrow> nat \<Rightarrow> f64" where
  "f64_make neg mag = word_of_nat (if neg then 2 ^ 63 + mag else mag)"

definition f64_nan :: f64 where
  "f64_nan = 0x7FF8000000000000"

text \<open>The magnitude of a finite pattern as a fraction.\<close>

definition f64_frac :: "f64 \<Rightarrow> nat \<times> nat" where
  "f64_frac w =
     (let e = f64_mag w div 2 ^ 52; f = f64_mag w mod 2 ^ 52
      in if e = 0 then (f, 2 ^ 1074)
         else if 1075 \<le> e then ((2 ^ 52 + f) * 2 ^ (e - 1075), 1)
         else (2 ^ 52 + f, 2 ^ (1075 - e)))"

section \<open>Rounding\<close>

definition round_half_even :: "nat \<Rightarrow> nat \<Rightarrow> nat" where
  "round_half_even n d =
     (let q = n div d; r = n mod d
      in if 2 * r < d \<or> (2 * r = d \<and> even q) then q else q + 1)"

fun nat_bits :: "nat \<Rightarrow> nat" where
  "nat_bits n = (if n = 0 then 0 else 1 + nat_bits (n div 2))"

declare nat_bits.simps [simp del]

text \<open>\<open>n / d\<close> scaled by \<open>2 ^ s\<close>, as a fraction.\<close>

definition frac_scale :: "int \<Rightarrow> nat \<times> nat \<Rightarrow> nat \<times> nat" where
  "frac_scale s q = (case q of (n, d) \<Rightarrow> if 0 \<le> s then (n * 2 ^ nat s, d) else (n, d * 2 ^ nat (- s)))"

text \<open>
  The pattern nearest to \<open>n / d\<close>. \<open>e\<close> is the binary exponent, at least that of the subnormals; the
  52 bits after the point are rounded, and the carry of a mantissa that rounds up to a power of two
  goes into the exponent field.
\<close>

definition f64_pack :: "bool \<Rightarrow> nat \<times> nat \<Rightarrow> f64" where
  "f64_pack neg q =
     (case q of (n, d) \<Rightarrow>
        if n = 0 then f64_make neg 0
        else let e0 = int (nat_bits n) - int (nat_bits d);
                 below = (case frac_scale (- e0) (n, d) of (a, b) \<Rightarrow> a < b);
                 e = max (if below then e0 - 1 else e0) (- 1022);
                 m = (case frac_scale (52 - e) (n, d) of (a, b) \<Rightarrow> round_half_even a b)
             in f64_make neg (min F64_INF (nat (e + 1022) * 2 ^ 52 + m)))"

section \<open>Operations\<close>

definition f64_of_int :: "int \<Rightarrow> f64" where
  "f64_of_int i = f64_pack (i < 0) (nat (abs i), 1)"

definition f64_of_i64 :: "i64 \<Rightarrow> f64" where
  "f64_of_i64 i = f64_of_int (sint i)"

definition f64_mul :: "f64 \<Rightarrow> f64 \<Rightarrow> f64" where
  "f64_mul a b =
     (let neg = (f64_neg a \<noteq> f64_neg b)
      in if f64_is_nan a \<or> f64_is_nan b then f64_nan
         else if f64_is_inf a \<or> f64_is_inf b then
           (if f64_is_zero a \<or> f64_is_zero b then f64_nan else f64_make neg F64_INF)
         else case (f64_frac a, f64_frac b) of ((n, d), (n', d')) \<Rightarrow> f64_pack neg (n * n', d * d'))"

definition f64_div :: "f64 \<Rightarrow> f64 \<Rightarrow> f64" where
  "f64_div a b =
     (let neg = (f64_neg a \<noteq> f64_neg b)
      in if f64_is_nan a \<or> f64_is_nan b then f64_nan
         else if f64_is_inf a then (if f64_is_inf b then f64_nan else f64_make neg F64_INF)
         else if f64_is_inf b then f64_make neg 0
         else if f64_is_zero b then (if f64_is_zero a then f64_nan else f64_make neg F64_INF)
         else case (f64_frac a, f64_frac b) of ((n, d), (n', d')) \<Rightarrow> f64_pack neg (n * d', d * n'))"

text \<open>\<open>a <= 0.0\<close>, \<open>a == 0.0\<close>.\<close>

definition f64_le_zero :: "f64 \<Rightarrow> bool" where
  "f64_le_zero a \<longleftrightarrow> \<not> f64_is_nan a \<and> (f64_is_zero a \<or> f64_neg a)"

text \<open>\<open>round\<close> of the magnitude, as the natural number it is; half rounds up.\<close>

definition frac_round :: "nat \<times> nat \<Rightarrow> nat" where
  "frac_round q = (case q of (n, d) \<Rightarrow> (2 * n + d) div (2 * d))"

definition f64_round :: "f64 \<Rightarrow> f64" where
  "f64_round a =
     (if f64_is_nan a \<or> f64_is_inf a then a else f64_pack (f64_neg a) (frac_round (f64_frac a), 1))"

text \<open>\<open>as i64\<close>: truncated towards zero, saturated, NaN becomes 0.\<close>

definition i64_max :: int where
  "i64_max = 2 ^ 63 - 1"

definition i64_min :: int where
  "i64_min = - (2 ^ 63)"

definition saturate_i64 :: "int \<Rightarrow> i64" where
  "saturate_i64 i = word_of_int (max i64_min (min i64_max i))"

definition f64_to_i64 :: "f64 \<Rightarrow> i64" where
  "f64_to_i64 a =
     (if f64_is_nan a then 0
      else if f64_is_inf a then saturate_i64 (if f64_neg a then i64_min else i64_max)
      else case f64_frac a of
             (n, d) \<Rightarrow> saturate_i64 (if f64_neg a then - int (n div d) else int (n div d)))"

lemma sint_saturate: "sint (saturate_i64 i) = max i64_min (min i64_max i)"
proof -
  let ?j = "max i64_min (min i64_max i)"
  have "?j \<in> {- (2 ^ 63) ..< 2 ^ 63}" by (auto simp: i64_min_def i64_max_def min_def max_def)
  then have "signed_take_bit 63 ?j = ?j"
    by (intro signed_take_bit_int_eq_self) auto
  then show ?thesis by (simp add: saturate_i64_def sint_sbintrunc')
qed

lemma saturate_in_range: "i64_min \<le> i \<Longrightarrow> i \<le> i64_max \<Longrightarrow> sint (saturate_i64 i) = i"
  by (simp add: sint_saturate)

lemma sint_i64_range: "i64_min \<le> sint (w :: i64)" "sint (w :: i64) \<le> i64_max"
  using sint_ge [of w] sint_lt [of w] by (simp_all add: i64_min_def i64_max_def)

lemma round_half_even_error:
  "0 < d \<Longrightarrow> 2 * (round_half_even n d * d) \<le> 2 * n + d \<and> 2 * n \<le> 2 * (round_half_even n d * d) + d"
proof -
  assume d: "0 < d"
  define q r where "q = n div d" and "r = n mod d"
  have n: "n = q * d + r" and r: "r < d" using d by (simp_all add: q_def r_def)
  have m: "round_half_even n d = q \<and> 2 * r \<le> d \<or> round_half_even n d = q + 1 \<and> d \<le> 2 * r"
    by (auto simp: round_half_even_def Let_def q_def r_def)
  from m show ?thesis
  proof
    assume "round_half_even n d = q \<and> 2 * r \<le> d"
    then show ?thesis using n by (simp add: algebra_simps)
  next
    assume "round_half_even n d = q + 1 \<and> d \<le> 2 * r"
    then show ?thesis using n r by (simp add: algebra_simps)
  qed
qed

end
