(* ===== verification/Export.thy ===== *)
theory Export
  imports F64
begin

text \<open>
  The conversion of a span record to the exporter's \<open>SpanData\<close> (\<open>From<SpanRecord> for SpanData\<close> and
  its helpers in \<open>src/span.rs\<close>). The types of the opentelemetry crates are records with the fields
  the code sets; a key-value list keeps the order in which the code pushes.
\<close>

section \<open>Data\<close>

datatype otel_value = VStr str | VI64 i64 | VF64 f64 | VBool bool

type_synonym key_value = "str \<times> otel_value"

datatype otel_span_kind = SpanKindServer | SpanKindInternal

datatype otel_status = StatusUnset | StatusOk

record span_data =
  sd_trace_id :: trace_id
  sd_span_id :: span_id
  sd_trace_flags :: byte
  sd_is_remote :: bool
  sd_parent_span_id :: span_id
  sd_parent_span_is_remote :: bool
  sd_span_kind :: otel_span_kind
  sd_name :: str
  sd_start_time :: system_time
  sd_end_time :: system_time
  sd_attributes :: "key_value list"
  sd_dropped_attributes_count :: u32
  sd_status :: otel_status
  sd_scope :: "str \<times> str"

text \<open>\<open>TraceFlags::SAMPLED\<close>.\<close>

definition EXPORTED_TRACE_FLAGS :: byte where
  "EXPORTED_TRACE_FLAGS = 1"

text \<open>\<open>CARGO_PKG_VERSION\<close>, from \<open>Cargo.toml\<close>.\<close>

definition PKG_VERSION :: str where
  "PKG_VERSION = lit ''0.2.0''"

section \<open>Conversion\<close>

text \<open>\<open>ns as f64 / 1e9\<close> and \<open>ns as f64 / 1e3\<close>.\<close>

definition ns_to_seconds :: "i64 \<Rightarrow> f64" where
  "ns_to_seconds ns = f64_div (f64_of_i64 ns) 0x41CDCD6500000000"

definition ns_to_micros :: "i64 \<Rightarrow> f64" where
  "ns_to_micros ns = f64_div (f64_of_i64 ns) 0x408F400000000000"

text \<open>\<open>i64::try_from(n).unwrap_or(i64::MAX)\<close>.\<close>

definition u64_to_i64 :: "u64 \<Rightarrow> i64" where
  "u64_to_i64 n = (if unat n < 2 ^ 63 then n else 2 ^ 63 - 1)"

definition query_key_values :: "query_attributes \<Rightarrow> key_value list" where
  "query_key_values a =
     [(lit ''db.operation.name'', VStr (operation a)),
      (lit ''db.system.name'', VStr (lit ''postgresql'')),
      (lit ''postgresql.execution.total_time_seconds'', VF64 (ns_to_seconds (exec_total_time_ns a))),
      (lit ''span.duration.us'', VF64 (ns_to_micros (exec_total_time_ns a))),
      (lit ''span.type'', VStr (lit ''db'')),
      (lit ''span.subtype'', VStr (lit ''postgresql''))] @
     (case query_text a of Some t \<Rightarrow> [(lit ''db.query.text'', VStr t)] | None \<Rightarrow> []) @
     (if query_id a \<noteq> 0 then [(lit ''db.query.id'', VI64 (query_id a))] else []) @
     (if plan_spans_omitted a > 0
      then [(lit ''postgresql.plan.spans_truncated'', VBool True),
            (lit ''postgresql.plan.spans_omitted'', VI64 (u64_to_i64 (plan_spans_omitted a)))]
      else [])"

definition plan_key_values :: "plan_node_attributes \<Rightarrow> key_value list" where
  "plan_key_values a =
     [(lit ''db.system.name'', VStr (lit ''postgresql'')),
      (lit ''postgresql.plan.node_type'', VStr (node_type a))] @
     (case node_relation a of Some r \<Rightarrow> [(lit ''postgresql.plan.relation'', VStr r)] | None \<Rightarrow> []) @
     (case parent_relationship a of
        Some r \<Rightarrow> [(lit ''postgresql.plan.parent_relationship'', VStr r)] | None \<Rightarrow> []) @
     (case subplan_name a of
        Some n \<Rightarrow> [(lit ''postgresql.plan.subplan_name'', VStr n)] | None \<Rightarrow> []) @
     (if subplans_removed a > 0
      then [(lit ''postgresql.plan.subplans_removed'', VI64 (u64_to_i64 (subplans_removed a)))] else []) @
     (case workers_launched a of
        Some w \<Rightarrow> [(lit ''postgresql.plan.workers_launched'', VI64 w)] | None \<Rightarrow> []) @
     (if never_executed a then [(lit ''postgresql.plan.never_executed'', VBool True)] else []) @
     (if instrumentation_incomplete a
      then [(lit ''postgresql.plan.instrumentation_incomplete'', VBool True)] else []) @
     [(lit ''postgresql.plan.startup_cost'', VF64 (startup_cost a)),
      (lit ''postgresql.plan.total_cost'', VF64 (total_cost a)),
      (lit ''postgresql.plan.rows'', VF64 (plan_rows a)),
      (lit ''postgresql.plan.width_bytes'', VI64 (scast (width_bytes a))),
      (lit ''postgresql.plan.parallel_aware'', VBool (parallel_aware a)),
      (lit ''postgresql.plan.parallel_safe'', VBool (parallel_safe a)),
      (lit ''postgresql.plan.async_capable'', VBool (async_capable a)),
      (lit ''postgresql.instrumentation.startup_time_seconds'', VF64 (ns_to_seconds (instr_startup_time_ns a))),
      (lit ''postgresql.instrumentation.total_time_seconds'', VF64 (ns_to_seconds (instr_total_time_ns a))),
      (lit ''postgresql.instrumentation.rows'', VF64 (instr_rows a)),
      (lit ''postgresql.instrumentation.secondary_rows'', VF64 (instr_secondary_rows a)),
      (lit ''postgresql.instrumentation.loops'', VF64 (instr_loops a)),
      (lit ''postgresql.instrumentation.rows_removed_by_scan_or_join_filter'',
         VF64 (instr_rows_removed_by_scan_or_join_filter a)),
      (lit ''postgresql.instrumentation.rows_removed_by_other_filter'',
         VF64 (instr_rows_removed_by_other_filter a)),
      (lit ''span.duration.us'', VF64 (ns_to_micros (instr_total_time_ns a))),
      (lit ''span.type'', VStr (lit ''db'')),
      (lit ''span.subtype'', VStr (lit ''internal''))]"

definition span_data_of :: "span_record \<Rightarrow> span_data" where
  "span_data_of s =
     (let base = \<lparr>sd_trace_id = sp_trace_id s, sd_span_id = sp_span_id s,
            sd_trace_flags = EXPORTED_TRACE_FLAGS, sd_is_remote = False,
            sd_parent_span_id = sp_parent_id s, sd_parent_span_is_remote = False,
            sd_span_kind = SpanKindInternal, sd_name = sp_name s,
            sd_start_time = sp_start_time s, sd_end_time = sp_end_time s, sd_attributes = [],
            sd_dropped_attributes_count = 0, sd_status = StatusOk,
            sd_scope = (lit ''pg_otel'', PKG_VERSION)\<rparr>
      in case sp_attributes s of
           Query a \<Rightarrow>
             base\<lparr>sd_parent_span_is_remote := parent_is_remote a, sd_span_kind := SpanKindServer,
                  sd_attributes := query_key_values a\<rparr>
         | PlanNode a \<Rightarrow> base\<lparr>sd_attributes := plan_key_values a\<rparr>)"

section \<open>Properties\<close>

lemma u64_to_i64_sat: "sint (u64_to_i64 n) = min (int (unat n)) (2 ^ 63 - 1)"
proof (cases "unat n < 2 ^ 63")
  case True
  then have u: "uint n < 2 ^ 63" by (simp only: uint_nat of_nat_less_numeral_power_cancel_iff)
  from u have "signed_take_bit 63 (uint n) = uint n"
    by (intro signed_take_bit_int_eq_self) (simp_all add: order_trans [OF _ uint_ge_0])
  with True u show ?thesis by (simp add: u64_to_i64_def sint_uint min_def)
next
  case False
  then have "2 ^ 63 \<le> unat n" by (simp only: not_less)
  then have "2 ^ 63 \<le> int (unat n)" by (simp only: numeral_power_le_of_nat_cancel_iff)
  with False show ?thesis by (simp add: u64_to_i64_def min_def)
qed

text \<open>The attributes of a query span as a map.\<close>

lemma query_keys_distinct: "distinct (map fst (query_key_values a))"
  by (cases "query_text a"; cases "query_id a = 0"; cases "plan_spans_omitted a > 0")
     (simp_all add: query_key_values_def)

lemma query_lookup:
  "map_of (query_key_values a) (lit ''db.operation.name'') = Some (VStr (operation a))"
  "map_of (query_key_values a) (lit ''db.query.text'') = map_option VStr (query_text a)"
  "map_of (query_key_values a) (lit ''db.query.id'') =
     (if query_id a = 0 then None else Some (VI64 (query_id a)))"
  "map_of (query_key_values a) (lit ''postgresql.plan.spans_omitted'') =
     (if plan_spans_omitted a = 0 then None else Some (VI64 (u64_to_i64 (plan_spans_omitted a))))"
  "map_of (query_key_values a) (lit ''postgresql.plan.spans_truncated'') =
     (if plan_spans_omitted a = 0 then None else Some (VBool True))"
  by (cases "query_text a"; cases "query_id a = 0"; cases "plan_spans_omitted a = 0";
      simp add: query_key_values_def word_gt_0)+


definition demo_query_attributes :: query_attributes where
  "demo_query_attributes =
     \<lparr>parent_is_remote = True, operation = lit ''SELECT'', query_text = Some (lit ''SELECT $1''),
      query_id = 0, exec_total_time_ns = 100000000, plan_spans_omitted = - 1\<rparr>"

definition demo_exported :: span_data where
  "demo_exported = span_data_of
     \<lparr>sp_trace_id = replicate 16 1, sp_span_id = replicate 8 7, sp_parent_id = SPAN_ID_INVALID,
      sp_name = lit ''SELECT t'', sp_start_time = 5, sp_end_time = 100000005,
      sp_attributes = Query demo_query_attributes\<rparr>"


end
