(* ===== verification/Timing.thy ===== *)
theory Timing
  imports Export
begin

text \<open>
  Reading Postgres' instrumentation (\<open>src/compat/\<close>): the version-specific parts for PostgreSQL 18 and
  19 and the interface behind which they hide.

  A pointer that may be null is an \<open>option\<close>. \<open>InstrEndLoop\<close> is Postgres' code and a parameter; it
  answers \<open>None\<close> when it raises an ERROR. A function that may be ended by such an error has an option
  of its own around its result. The structs have the fields that the code reads.
\<close>

section \<open>The interface\<close>

record node_stats =
  st_startup_ns :: i64
  st_total_ns :: i64
  st_rows :: f64
  st_secondary_rows :: f64
  st_loops :: f64
  st_filtered_by_scan_or_join :: f64
  st_filtered_by_other :: f64

text \<open>\<open>NodeStats::default()\<close>.\<close>

definition node_stats_default :: node_stats where
  "node_stats_default =
     \<lparr>st_startup_ns = 0, st_total_ns = 0, st_rows = 0, st_secondary_rows = 0, st_loops = 0,
      st_filtered_by_scan_or_join = 0, st_filtered_by_other = 0\<rparr>"

datatype node_instrument = Measured node_stats | Incomplete

definition is_mid_timer :: "bool \<Rightarrow> i64 \<Rightarrow> bool" where
  "is_mid_timer running starttime_ticks \<longleftrightarrow> running \<and> starttime_ticks \<noteq> 0"

text \<open>Flags of \<open>InstrumentOption\<close>.\<close>

definition INSTRUMENT_TIMER :: i32 where "INSTRUMENT_TIMER = 1"
definition INSTRUMENT_ROWS :: i32 where "INSTRUMENT_ROWS = 4"
definition INSTRUMENT_ALL :: i32 where "INSTRUMENT_ALL = 0x7FFFFFFF"

definition instrument_options :: i32 where
  "instrument_options = or INSTRUMENT_ROWS INSTRUMENT_TIMER"

text \<open>What a sub-plan node says of itself.\<close>

record subplan =
  spl_plan_id :: i32
  spl_plan_name :: "bytes option"
  spl_is_cte :: bool
  spl_is_init_plan :: bool

text \<open>
  The version layer: instrumentation \<open>'i\<close> of a node and \<open>'q\<close> of a statement. Reading the statement's
  timer may change it.
\<close>

record ('i, 'q) compat =
  co_node_instrument :: "'i option \<Rightarrow> node_instrument option"
  co_query_total_ns :: "'q option \<Rightarrow> (i64 option \<times> 'q option) option"
  co_subplan_display_name :: "subplan \<Rightarrow> str"

text \<open>\<open>pg_str\<close>: lossy text of a C string, none for a null pointer.\<close>

definition pg_str :: "bytes option \<Rightarrow> str option" where
  "pg_str s = map_option utf8_lossy s"

section \<open>PostgreSQL 19\<close>

definition TICKS_TO_NS_SHIFT :: nat where
  "TICKS_TO_NS_SHIFT = 14"

text \<open>Arithmetic of \<open>i64\<close>: saturating, and the arithmetic right shift.\<close>

definition i64_saturating_mul :: "i64 \<Rightarrow> i64 \<Rightarrow> i64" where
  "i64_saturating_mul a b = saturate_i64 (sint a * sint b)"

definition i64_saturating_add :: "i64 \<Rightarrow> i64 \<Rightarrow> i64" where
  "i64_saturating_add a b = saturate_i64 (sint a + sint b)"

definition i64_shr :: "i64 \<Rightarrow> nat \<Rightarrow> i64" where
  "i64_shr a n = word_of_int (sint a div 2 ^ n)"

definition ticks_to_ns :: "i64 \<Rightarrow> u64 \<Rightarrow> u64 \<Rightarrow> i64" where
  "ticks_to_ns ticks ticks_per_ns_scaled max_ticks_no_overflow =
     (if ticks_per_ns_scaled = 0 then ticks
      else
        let scale = u64_to_i64 ticks_per_ns_scaled;
            (ticks, ns) =
              (if sint (u64_to_i64 max_ticks_no_overflow) < sint ticks
               then let count = i64_shr ticks TICKS_TO_NS_SHIFT
                    in (ticks - push_bit TICKS_TO_NS_SHIFT count, i64_saturating_mul count scale)
               else (ticks, 0))
        in i64_saturating_add ns (i64_shr (i64_saturating_mul ticks scale) TICKS_TO_NS_SHIFT))"

text \<open>The backend's timing configuration.\<close>

record timing_config =
  ticks_per_ns_scaled :: u64
  max_ticks_no_overflow :: u64

definition instr_ticks_to_ns :: "timing_config \<Rightarrow> i64 \<Rightarrow> i64" where
  "instr_ticks_to_ns cfg ticks = ticks_to_ns ticks (ticks_per_ns_scaled cfg) (max_ticks_no_overflow cfg)"

definition i64_max0 :: "i64 \<Rightarrow> i64" where
  "i64_max0 n = (if sint n < 0 then 0 else n)"

record node_instrumentation =
  ni_running :: bool
  ni_starttime :: i64
  ni_startup :: i64
  ni_total :: i64
  ni_ntuples :: f64
  ni_ntuples2 :: f64
  ni_nloops :: f64
  ni_nfiltered1 :: f64
  ni_nfiltered2 :: f64

text \<open>The fields of a \<open>QueryDesc\<close> that ask for instrumentation.\<close>

record request19 =
  rq_query_instr_options :: i32
  rq_instrument_options :: i32

definition pg19_before_start :: "request19 \<Rightarrow> request19" where
  "pg19_before_start q =
     \<lparr>rq_query_instr_options = or (rq_query_instr_options q) instrument_options,
      rq_instrument_options = or (rq_instrument_options q) instrument_options\<rparr>"

definition pg19_after_start :: "request19 \<Rightarrow> request19" where
  "pg19_after_start q = q"

text \<open>The statement's instrumentation is its total in ticks.\<close>

definition pg19_query_total_ns :: "timing_config \<Rightarrow> i64 option \<Rightarrow> (i64 option \<times> i64 option) option" where
  "pg19_query_total_ns cfg query_instr =
     Some (map_option (\<lambda>total. i64_max0 (instr_ticks_to_ns cfg total)) query_instr, query_instr)"

definition pg19_node_instrument ::
    "(node_instrumentation \<Rightarrow> node_instrumentation option) \<Rightarrow> timing_config \<Rightarrow>
     node_instrumentation option \<Rightarrow> node_instrument option" where
  "pg19_node_instrument InstrEndLoop cfg instrument =
     (case instrument of
        None \<Rightarrow> Some Incomplete
      | Some i \<Rightarrow>
          if is_mid_timer (ni_running i) (ni_starttime i) then Some Incomplete
          else map_option (\<lambda>i.
            Measured
              \<lparr>st_startup_ns = i64_max0 (instr_ticks_to_ns cfg (ni_startup i)),
               st_total_ns = i64_max0 (instr_ticks_to_ns cfg (ni_total i)),
               st_rows = ni_ntuples i, st_secondary_rows = ni_ntuples2 i, st_loops = ni_nloops i,
               st_filtered_by_scan_or_join = ni_nfiltered1 i, st_filtered_by_other = ni_nfiltered2 i\<rparr>)
            (InstrEndLoop i))"

text \<open>The slot in the array of levels, by backend type.\<close>

definition pg19_log_min_messages_slot :: "nat \<Rightarrow> nat \<Rightarrow> nat option" where
  "pg19_log_min_messages_slot B_LOGGER my_backend_type =
     (if my_backend_type \<le> B_LOGGER then Some my_backend_type else None)"

text \<open>A single variable before: its only slot.\<close>

definition pg18_log_min_messages_slot :: "nat option" where
  "pg18_log_min_messages_slot = Some 0"

definition cook_subplan_name :: "bool \<Rightarrow> bool \<Rightarrow> str \<Rightarrow> str" where
  "cook_subplan_name is_cte is_init_plan plan_name =
     (if is_cte then lit ''CTE'' else if is_init_plan then lit ''InitPlan'' else lit ''SubPlan'') @ lit '' '' @ plan_name"

definition pg19_subplan_display_name :: "subplan \<Rightarrow> str" where
  "pg19_subplan_display_name s =
     cook_subplan_name (spl_is_cte s) (spl_is_init_plan s)
       (case pg_str (spl_plan_name s) of None \<Rightarrow> [] | Some n \<Rightarrow> n)"

definition pg19_compat ::
    "(node_instrumentation \<Rightarrow> node_instrumentation option) \<Rightarrow> timing_config \<Rightarrow> (node_instrumentation, i64) compat" where
  "pg19_compat InstrEndLoop cfg =
     \<lparr>co_node_instrument = pg19_node_instrument InstrEndLoop cfg,
      co_query_total_ns = pg19_query_total_ns cfg,
      co_subplan_display_name = pg19_subplan_display_name\<rparr>"

section \<open>PostgreSQL 18\<close>

definition seconds_to_ns :: "f64 \<Rightarrow> i64" where
  "seconds_to_ns seconds =
     (if f64_is_nan seconds \<or> f64_le_zero seconds then 0
      else f64_to_i64 (f64_round (f64_mul seconds 0x41CDCD6500000000)))"

record instrumentation =
  im_need_timer :: bool
  im_running :: bool
  im_starttime :: i64
  im_startup :: f64
  im_total :: f64
  im_ntuples :: f64
  im_ntuples2 :: f64
  im_nloops :: f64
  im_nfiltered1 :: f64
  im_nfiltered2 :: f64

text \<open>A statement's request: whether the executor state exists, and the context that is current.\<close>

record request18 =
  rq18_instrument_options :: i32
  rq18_totaltime :: "instrumentation option"
  rq18_es_query_cxt :: "nat option"
  rq18_current_context :: nat

definition pg18_before_start :: "request18 \<Rightarrow> request18" where
  "pg18_before_start q = q\<lparr>rq18_instrument_options := or (rq18_instrument_options q) instrument_options\<rparr>"

text \<open>\<open>InstrAlloc(n, options, async)\<close> in the current context is a parameter.\<close>

definition pg18_after_start ::
    "(nat \<Rightarrow> nat \<Rightarrow> i32 \<Rightarrow> bool \<Rightarrow> instrumentation) \<Rightarrow> request18 \<Rightarrow> request18" where
  "pg18_after_start InstrAlloc q =
     (if rq18_totaltime q \<noteq> None \<or> rq18_es_query_cxt q = None then q
      else
        let previous_context = rq18_current_context q;
            q = q\<lparr>rq18_current_context := the (rq18_es_query_cxt q)\<rparr>;
            q = q\<lparr>rq18_totaltime := Some (InstrAlloc (rq18_current_context q) 1 INSTRUMENT_ALL False)\<rparr>
        in q\<lparr>rq18_current_context := previous_context\<rparr>)"

text \<open>\<open>finished\<close>: whether the totals are usable, and the instrumentation afterwards.\<close>

definition finished ::
    "(instrumentation \<Rightarrow> instrumentation option) \<Rightarrow> instrumentation \<Rightarrow> (bool \<times> instrumentation) option" where
  "finished InstrEndLoop i =
     (if is_mid_timer (im_running i) (im_starttime i) then Some (False, i)
      else map_option (\<lambda>i'. (True, i')) (InstrEndLoop i))"

definition pg18_query_total_ns ::
    "(instrumentation \<Rightarrow> instrumentation option) \<Rightarrow> instrumentation option \<Rightarrow>
     (i64 option \<times> instrumentation option) option" where
  "pg18_query_total_ns InstrEndLoop totaltime =
     (case totaltime of
        None \<Rightarrow> Some (None, None)
      | Some i \<Rightarrow>
          if \<not> im_need_timer i then Some (None, Some i)
          else map_option (\<lambda>(ok, i'). (if ok then Some (seconds_to_ns (im_total i')) else None, Some i'))
                 (finished InstrEndLoop i))"

definition pg18_node_instrument ::
    "(instrumentation \<Rightarrow> instrumentation option) \<Rightarrow> instrumentation option \<Rightarrow> node_instrument option" where
  "pg18_node_instrument InstrEndLoop instrument =
     (case instrument of
        None \<Rightarrow> Some Incomplete
      | Some i \<Rightarrow>
          map_option (\<lambda>(ok, i).
            if \<not> ok then Incomplete
            else Measured
              \<lparr>st_startup_ns = seconds_to_ns (im_startup i), st_total_ns = seconds_to_ns (im_total i),
               st_rows = im_ntuples i, st_secondary_rows = im_ntuples2 i, st_loops = im_nloops i,
               st_filtered_by_scan_or_join = im_nfiltered1 i, st_filtered_by_other = im_nfiltered2 i\<rparr>)
            (finished InstrEndLoop i))"

definition pg18_subplan_display_name :: "subplan \<Rightarrow> str" where
  "pg18_subplan_display_name s = (case pg_str (spl_plan_name s) of None \<Rightarrow> [] | Some n \<Rightarrow> n)"

definition pg18_compat ::
    "(instrumentation \<Rightarrow> instrumentation option) \<Rightarrow> (instrumentation, instrumentation) compat" where
  "pg18_compat InstrEndLoop =
     \<lparr>co_node_instrument = pg18_node_instrument InstrEndLoop,
      co_query_total_ns = pg18_query_total_ns InstrEndLoop,
      co_subplan_display_name = pg18_subplan_display_name\<rparr>"

section \<open>Conversions\<close>

lemma u64_to_i64_value: "sint (u64_to_i64 n) = min (int (unat n)) i64_max"
proof (cases "unat n < 2 ^ 63")
  case True
  have "int (unat n) < 2 ^ 63" using True by (simp only: of_nat_less_numeral_power_cancel_iff)
  then have "int (unat n) \<le> i64_max" unfolding i64_max_def by (rule zle_diff1_eq [THEN iffD2])
  then have "min (int (unat n)) i64_max = int (unat n)" by (rule min_absorb1)
  moreover have "sint n = int (unat n)" using True by (intro sint_small) simp
  ultimately show ?thesis using True by (simp only: u64_to_i64_def if_True)
next
  case False
  then have "(2 :: int) ^ 63 \<le> int (unat n)" by (simp only: not_less numeral_power_le_of_nat_cancel_iff)
  moreover have "i64_max \<le> 2 ^ 63" by (simp add: i64_max_def)
  ultimately have "min (int (unat n)) i64_max = i64_max" by (intro min_absorb2) (rule order_trans)
  moreover have "sint (2 ^ 63 - 1 :: i64) = i64_max" by (simp add: i64_max_def)
  ultimately show ?thesis using False by (simp only: u64_to_i64_def if_False)
qed

lemma i64_shr_value: "sint (i64_shr a n) = sint a div 2 ^ n"
proof -
  have "i64_min \<le> sint a div 2 ^ n \<and> sint a div 2 ^ n \<le> i64_max"
  proof (cases "0 \<le> sint a")
    case True
    then have "0 \<le> sint a div 2 ^ n" "sint a div 2 ^ n \<le> sint a"
      using zdiv_mono2 [of "sint a" 1 "2 ^ n"] by (simp_all add: pos_imp_zdiv_nonneg_iff)
    then show ?thesis using sint_i64_range [of a] by (simp add: i64_min_def)
  next
    case False
    then have "sint a \<le> sint a div 2 ^ n" "sint a div 2 ^ n < 0"
      using zdiv_mono2_neg [of "sint a" 1 "2 ^ n"] by (simp_all add: div_neg_pos_less0)
    then show ?thesis using sint_i64_range [of a] by (simp add: i64_max_def)
  qed
  then have "saturate_i64 (sint a div 2 ^ n) = i64_shr a n" by (simp add: saturate_i64_def i64_shr_def)
  with \<open>_ \<and> _\<close> show ?thesis using saturate_in_range by metis
qed

text \<open>
  Splitting the ticks at the shift keeps every product in range, as long as one tick lasts less than
  \<open>2 ^ 35\<close> nanoseconds.
\<close>

lemma ticks_to_ns_value:
  assumes ticks: "0 \<le> sint ticks" and scale: "0 < unat scaled" "unat scaled < 2 ^ 49"
    and limit: "unat max_ticks * unat scaled < 2 ^ 63"
  shows "sint (ticks_to_ns ticks scaled max_ticks) = min i64_max (sint ticks * int (unat scaled) div 2 ^ 14)"
proof -
  define s where "s = int (unat scaled)"
  define m where "m = int (unat max_ticks)"
  have s: "0 < s" "s < 2 ^ 49" 
    using scale unfolding s_def by (simp_all only: of_nat_0_less_iff of_nat_less_numeral_power_cancel_iff)
  have "int (unat max_ticks * unat scaled) < 2 ^ 63" using limit by (simp only: of_nat_less_numeral_power_cancel_iff)
  then have ms: "m * s < 2 ^ 63" by (simp only: m_def s_def of_nat_mult)
  have m0: "0 \<le> m" by (simp add: m_def)
  have "m * 1 \<le> m * s" using s(1) m0 by (intro mult_left_mono) simp_all
  then have m: "m \<le> i64_max" using ms by (simp add: i64_max_def)
  have sc: "sint (u64_to_i64 scaled) = s" and mt: "sint (u64_to_i64 max_ticks) = m"
    using s m unfolding u64_to_i64_value s_def [symmetric] m_def [symmetric] by (simp_all add: i64_max_def)
  have nz: "scaled \<noteq> 0" using scale(1) by auto
  let ?t = "sint ticks"
  show ?thesis
  proof (cases "m < ?t")
    case False
    have "?t * s \<le> m * s" using False s(1) by (intro mult_right_mono) simp_all
    then have "?t * s < 2 ^ 63" using ms by (rule order_le_less_trans)
    then have ts: "0 \<le> ?t * s" "?t * s \<le> i64_max" using ticks s(1) by (simp_all add: i64_max_def)
    then have "sint (i64_saturating_mul ticks (u64_to_i64 scaled)) = ?t * s"
      unfolding i64_saturating_mul_def sc by (intro saturate_in_range) (simp_all add: i64_min_def)
    moreover have "0 \<le> ?t * s div 2 ^ 14" "?t * s div 2 ^ 14 \<le> ?t * s"
      using ts(1) zdiv_mono2 [of "?t * s" 1 "2 ^ 14"] by (simp_all add: pos_imp_zdiv_nonneg_iff)
    ultimately show ?thesis
      using False nz ts(2) unfolding ticks_to_ns_def Let_def mt TICKS_TO_NS_SHIFT_def s_def [symmetric]
      by (simp add: i64_saturating_add_def i64_shr_value sint_saturate i64_min_def)
  next
    case True
    define c r where "c = ?t div 2 ^ 14" and "r = ?t mod 2 ^ 14"
    have cr: "?t = c * 2 ^ 14 + r" "0 \<le> r" "r < 2 ^ 14" by (simp_all add: c_def r_def)
    have c0: "0 \<le> c" using ticks by (simp add: c_def pos_imp_zdiv_nonneg_iff)
    have rest: "sint (ticks - push_bit 14 (i64_shr ticks 14)) = r"
    proof -
      have "ticks - push_bit 14 (i64_shr ticks 14) = word_of_int (sint ticks - c * 2 ^ 14)"
        by (simp add: push_bit_eq_mult i64_shr_def c_def)
      also have "sint ticks - c * 2 ^ 14 = r" by (simp add: cr(1))
      also have "word_of_int r = saturate_i64 r" using cr(2,3) by (simp add: saturate_i64_def i64_min_def i64_max_def)
      finally show ?thesis using cr(2,3) by (simp add: saturate_in_range i64_min_def i64_max_def)
    qed
    have "r * s \<le> (2 ^ 14 - 1) * (2 ^ 49 - 1)" using cr(2,3) s by (intro mult_mono) simp_all
    then have rs: "0 \<le> r * s" "r * s \<le> i64_max" using cr(2) s(1) by (simp_all add: i64_max_def)
    then have prod: "sint (i64_saturating_mul (ticks - push_bit 14 (i64_shr ticks 14)) (u64_to_i64 scaled)) = r * s"
      unfolding i64_saturating_mul_def sc rest by (intro saturate_in_range) (simp_all add: i64_min_def)
    have q: "0 \<le> r * s div 2 ^ 14" using rs(1) by (simp add: pos_imp_zdiv_nonneg_iff)
    have "?t * s = r * s + c * s * 2 ^ 14" by (simp add: cr(1) algebra_simps)
    then have total: "?t * s div 2 ^ 14 = c * s + r * s div 2 ^ 14" by simp
    have cs: "sint (i64_saturating_mul (i64_shr ticks 14) (u64_to_i64 scaled)) = min i64_max (c * s)"
      unfolding i64_saturating_mul_def sc i64_shr_value c_def [symmetric] sint_saturate
      using mult_nonneg_nonneg [OF c0, of s] s(1) by (intro max_absorb2) (simp add: i64_min_def i64_max_def min_def)
    have "sint (ticks_to_ns ticks scaled max_ticks) = max i64_min (min i64_max (min i64_max (c * s) + r * s div 2 ^ 14))"
      using True nz unfolding ticks_to_ns_def Let_def mt TICKS_TO_NS_SHIFT_def
      by (simp add: i64_saturating_add_def i64_shr_value sint_saturate cs prod)
    also have "\<dots> = min i64_max (c * s + r * s div 2 ^ 14)"
      using q mult_nonneg_nonneg [OF c0, of s] s(1) by (simp add: min_def max_def i64_min_def i64_max_def)
    finally show ?thesis unfolding total s_def [symmetric] .
  qed
qed

lemma i64_max0_nonneg: "0 \<le> sint (i64_max0 n)"
  by (simp add: i64_max0_def)

lemma f64_pack_positive: "\<not> f64_neg (f64_pack False q)"
proof -
  have "\<not> f64_neg (f64_make False (min F64_INF n))" for n
  proof -
    have "min F64_INF n mod 2 ^ 64 < 2 ^ 63" by (simp add: F64_INF_def min_def)
    then show ?thesis by (simp add: f64_neg_def f64_make_def unat_of_nat)
  qed
  from this this [of 0] show ?thesis by (auto simp: f64_pack_def Let_def split: prod.splits)
qed

lemma f64_to_i64_positive: "\<not> f64_neg a \<Longrightarrow> 0 \<le> sint (f64_to_i64 a)"
  by (auto simp: f64_to_i64_def sint_saturate i64_max_def i64_min_def split: prod.splits)

lemma seconds_to_ns_nonneg: "0 \<le> sint (seconds_to_ns x)"
proof (cases "f64_is_nan x \<or> f64_le_zero x")
  case False
  then have "\<not> f64_neg x" by (auto simp: f64_le_zero_def)
  moreover have "\<not> f64_neg (0x41CDCD6500000000 :: f64)" "\<not> f64_neg f64_nan" by (simp_all add: f64_neg_def f64_nan_def)
  moreover have "\<not> f64_neg (f64_make False F64_INF)" by (simp add: f64_neg_def f64_make_def F64_INF_def)
  ultimately have "\<not> f64_neg (f64_mul x 0x41CDCD6500000000)"
    using f64_pack_positive by (auto simp: f64_mul_def Let_def split: prod.splits)
  then have "\<not> f64_neg (f64_round (f64_mul x 0x41CDCD6500000000))"
    using f64_pack_positive by (auto simp: f64_round_def)
  with False show ?thesis by (simp add: seconds_to_ns_def f64_to_i64_positive)
qed (simp add: seconds_to_ns_def)

section \<open>What the rest of the program relies on\<close>

text \<open>
  What Postgres documents of \<open>InstrEndLoop\<close>: it raises an ERROR only for a cycle that is running with a
  started timer, and afterwards the node is not running, so that a second call changes nothing.
\<close>

definition settles18 :: "(instrumentation \<Rightarrow> instrumentation option) \<Rightarrow> bool" where
  "settles18 E \<longleftrightarrow>
     (\<forall>i. \<not> is_mid_timer (im_running i) (im_starttime i) \<longrightarrow>
        (\<exists>j. E i = Some j \<and> \<not> im_running j \<and> im_need_timer j = im_need_timer i \<and> E j = Some j))"

definition settles19 :: "(node_instrumentation \<Rightarrow> node_instrumentation option) \<Rightarrow> bool" where
  "settles19 E \<longleftrightarrow> (\<forall>i. \<not> is_mid_timer (ni_running i) (ni_starttime i) \<longrightarrow> E i \<noteq> None)"

locale version_layer =
  fixes c :: "('i, 'q) compat"
  assumes node_returns: "co_node_instrument c i \<noteq> None"
    and node_times: "co_node_instrument c i = Some (Measured st) \<Longrightarrow>
      0 \<le> sint (st_startup_ns st) \<and> 0 \<le> sint (st_total_ns st)"
    and query_returns: "co_query_total_ns c q \<noteq> None"
    and query_time: "co_query_total_ns c q = Some (Some n, q') \<Longrightarrow>
      0 \<le> sint n \<and> co_query_total_ns c q' = Some (Some n, q')"
begin

text \<open>A reading of a node, total.\<close>

lemma node_cases:
  obtains (measured) st where "co_node_instrument c i = Some (Measured st)"
    and "0 \<le> sint (st_startup_ns st)" and "0 \<le> sint (st_total_ns st)"
  | (incomplete) "co_node_instrument c i = Some Incomplete"
  using node_returns [of i] node_times [of i] by (cases "co_node_instrument c i") (auto elim: node_instrument.exhaust)

lemma query_cases:
  obtains (timed) n q' where "co_query_total_ns c q = Some (Some n, q')" and "0 \<le> sint n"
    and "co_query_total_ns c q' = Some (Some n, q')"
  | (untimed) q' where "co_query_total_ns c q = Some (None, q')"
  using query_returns [of q] query_time [of q] by (cases "co_query_total_ns c q") (auto, metis option.exhaust)

end

lemma pg19_layer:
  assumes settles: "settles19 E"
  shows "version_layer (pg19_compat E cfg)"
proof
  show "co_node_instrument (pg19_compat E cfg) i \<noteq> None" for i
    using settles by (auto simp: pg19_compat_def pg19_node_instrument_def settles19_def split: option.splits)
  show "co_node_instrument (pg19_compat E cfg) i = Some (Measured st) \<Longrightarrow>
      0 \<le> sint (st_startup_ns st) \<and> 0 \<le> sint (st_total_ns st)" for i st
    using i64_max0_nonneg by (auto simp: pg19_compat_def pg19_node_instrument_def split: option.splits if_splits)
  show "co_query_total_ns (pg19_compat E cfg) q \<noteq> None" for q
    by (simp add: pg19_compat_def pg19_query_total_ns_def)
  show "co_query_total_ns (pg19_compat E cfg) q = Some (Some n, q') \<Longrightarrow>
      0 \<le> sint n \<and> co_query_total_ns (pg19_compat E cfg) q' = Some (Some n, q')" for q n q'
    using i64_max0_nonneg by (auto simp: pg19_compat_def pg19_query_total_ns_def)
qed

lemma pg18_layer:
  assumes settles: "settles18 E"
  shows "version_layer (pg18_compat E)"
proof
  show "co_node_instrument (pg18_compat E) i \<noteq> None" for i
    using settles by (auto simp: pg18_compat_def pg18_node_instrument_def finished_def settles18_def split: option.splits)
  show "co_node_instrument (pg18_compat E) i = Some (Measured st) \<Longrightarrow>
      0 \<le> sint (st_startup_ns st) \<and> 0 \<le> sint (st_total_ns st)" for i st
    using seconds_to_ns_nonneg by (auto simp: pg18_compat_def pg18_node_instrument_def split: option.splits if_splits)
  show "co_query_total_ns (pg18_compat E) q \<noteq> None" for q
    using settles by (auto simp: pg18_compat_def pg18_query_total_ns_def finished_def settles18_def split: option.splits)
  show "co_query_total_ns (pg18_compat E) q = Some (Some n, q') \<Longrightarrow>
      0 \<le> sint n \<and> co_query_total_ns (pg18_compat E) q' = Some (Some n, q')" for q n q'
  proof -
    assume r: "co_query_total_ns (pg18_compat E) q = Some (Some n, q')"
    then obtain i j where i: "q = Some i" "im_need_timer i" "\<not> is_mid_timer (im_running i) (im_starttime i)" "E i = Some j"
      and n: "n = seconds_to_ns (im_total j)" "q' = Some j"
      by (auto simp: pg18_compat_def pg18_query_total_ns_def finished_def split: option.splits if_splits)
    obtain j' where "E i = Some j'" "\<not> im_running j'" "im_need_timer j' = im_need_timer i" "E j' = Some j'"
      using settles i(3) unfolding settles18_def by blast
    with i have "\<not> im_running j" "im_need_timer j" "E j = Some j" by simp_all
    then show ?thesis
      using seconds_to_ns_nonneg
      by (simp add: pg18_compat_def pg18_query_total_ns_def finished_def is_mid_timer_def n)
  qed
qed

locale settled_pg19 =
  fixes E :: "node_instrumentation \<Rightarrow> node_instrumentation option"
  assumes settles: "settles19 E"

locale settled_pg18 =
  fixes E :: "instrumentation \<Rightarrow> instrumentation option"
  assumes settles: "settles18 E"

sublocale settled_pg19 \<subseteq> version_layer "pg19_compat E cfg"
  by (rule pg19_layer [OF settles])

sublocale settled_pg18 \<subseteq> version_layer "pg18_compat E"
  by (rule pg18_layer [OF settles])

text \<open>An \<open>InstrEndLoop\<close> for each version that accumulates nothing.\<close>

definition end_loop19 :: "node_instrumentation \<Rightarrow> node_instrumentation option" where
  "end_loop19 i =
     (if is_mid_timer (ni_running i) (ni_starttime i) then None else Some (i\<lparr>ni_running := False\<rparr>))"

definition end_loop18 :: "instrumentation \<Rightarrow> instrumentation option" where
  "end_loop18 i =
     (if is_mid_timer (im_running i) (im_starttime i) then None else Some (i\<lparr>im_running := False\<rparr>))"

interpretation pg19: settled_pg19 end_loop19
  by unfold_locales (simp add: settles19_def end_loop19_def)

interpretation pg18: settled_pg18 end_loop18
  by unfold_locales (auto simp: settles18_def end_loop18_def is_mid_timer_def)

section \<open>Properties\<close>

text \<open>
  C36 (bounds). On PostgreSQL 19 ticks become nanoseconds exactly: the product with the scale rounded down,
  for any number of ticks, and \<open>i64::MAX\<close> when that does not fit; nothing wraps. The configuration
  must be one that Postgres computes: \<open>max_ticks_no_overflow\<close> ticks do not overflow, and the scale
  is below \<open>2 ^ 49\<close>.
\<close>

theorem ticks_to_ns_exact:
  assumes "0 \<le> sint ticks" and "0 < unat scaled" and "unat scaled < 2 ^ 49"
    and "unat max_ticks * unat scaled < 2 ^ 63"
  shows "sint (ticks_to_ns ticks scaled max_ticks) = min (2 ^ 63 - 1) (sint ticks * int (unat scaled) div 2 ^ 14)"
  using ticks_to_ns_value [OF assms] by (simp only: i64_max_def)

lemma ticks_to_ns_exact_witness:
  "sint (ticks_to_ns 3000000000 5461 1688952945770880) = min (2 ^ 63 - 1) (sint (3000000000 :: i64) * int (unat (5461 :: u64)) div 2 ^ 14)"
  by (rule ticks_to_ns_exact) simp_all

text \<open>
  C35 (error). Reading a node's instrumentation never raises an error on either version, whatever the node
  was doing: it is incomplete exactly when there is none or the node was interrupted with its timer
  started, and otherwise its times are not negative.
\<close>

theorem node_instrument_contained:
  assumes "settles18 E18" and "settles19 E19"
  shows "(pg18_node_instrument E18 i = Some Incomplete \<longleftrightarrow>
      (case i of None \<Rightarrow> True | Some x \<Rightarrow> im_running x \<and> im_starttime x \<noteq> 0)) \<and>
    (pg19_node_instrument E19 cfg j = Some Incomplete \<longleftrightarrow>
      (case j of None \<Rightarrow> True | Some x \<Rightarrow> ni_running x \<and> ni_starttime x \<noteq> 0)) \<and>
    (\<forall>r \<in> {pg18_node_instrument E18 i, pg19_node_instrument E19 cfg j}.
      case r of None \<Rightarrow> False | Some Incomplete \<Rightarrow> True
      | Some (Measured st) \<Rightarrow> 0 \<le> sint (st_startup_ns st) \<and> 0 \<le> sint (st_total_ns st))"
proof -
  have times: "case r of None \<Rightarrow> False | Some Incomplete \<Rightarrow> True
      | Some (Measured st) \<Rightarrow> 0 \<le> sint (st_startup_ns st) \<and> 0 \<le> sint (st_total_ns st)"
    if "version_layer c" "r = co_node_instrument c k" for c :: "('i, 'q) compat" and k r
    using version_layer.node_cases [OF that(1), of k] that(2) by (cases rule: version_layer.node_cases [OF that(1), of k]) simp_all
  show ?thesis
    using times [OF pg18_layer [OF assms(1)], of _ i] times [OF pg19_layer [OF assms(2)], of _ cfg j] assms
    by (auto simp: pg18_compat_def pg19_compat_def pg18_node_instrument_def pg19_node_instrument_def finished_def
        is_mid_timer_def settles18_def settles19_def split: option.splits)
qed

lemma node_instrument_contained_witness:
  "pg18_node_instrument end_loop18 None = Some Incomplete \<and>
    pg19_node_instrument end_loop19 \<lparr>ticks_per_ns_scaled = 0, max_ticks_no_overflow = 0\<rparr> None = Some Incomplete"
  using node_instrument_contained [OF pg18.settles pg19.settles, of None "\<lparr>ticks_per_ns_scaled = 0, max_ticks_no_overflow = 0\<rparr>" None]
  by (simp only: option.case simp_thms)

lemma instrument_bits: "bit instrument_options n \<longleftrightarrow> n = 0 \<or> n = 2"
proof -
  have "bit (4 :: i32) n \<longleftrightarrow> n = 2" using bit_exp_iff [of 2 n, where 'a = i32] by auto
  then show ?thesis
    unfolding instrument_options_def INSTRUMENT_ROWS_def INSTRUMENT_TIMER_def bit_or_iff by (auto simp: bit_1_iff)
qed

text \<open>
  Asking for instrumentation only adds: the flags of other extensions stay set on both
  versions, timing and row counts are set besides; on PostgreSQL 18 a statement timer that somebody
  allocated is kept, a new one measures everything and is allocated in the statement's own memory
  context, and the current context is what it was.
\<close>

theorem request_only_adds:
  "(\<forall>n. bit (rq_query_instr_options (pg19_before_start q)) n \<longleftrightarrow> bit (rq_query_instr_options q) n \<or> n = 0 \<or> n = 2) \<and>
   (\<forall>n. bit (rq_instrument_options (pg19_before_start q)) n \<longleftrightarrow> bit (rq_instrument_options q) n \<or> n = 0 \<or> n = 2) \<and>
   pg19_after_start q = q \<and>
   (\<forall>n. bit (rq18_instrument_options (pg18_before_start p)) n \<longleftrightarrow> bit (rq18_instrument_options p) n \<or> n = 0 \<or> n = 2) \<and>
   pg18_after_start InstrAlloc p =
     p\<lparr>rq18_totaltime :=
         (case (rq18_totaltime p, rq18_es_query_cxt p) of
            (Some i, _) \<Rightarrow> Some i
          | (None, None) \<Rightarrow> None
          | (None, Some cxt) \<Rightarrow> Some (InstrAlloc cxt 1 INSTRUMENT_ALL False))\<rparr>"
  by (cases p; cases "rq18_totaltime p"; cases "rq18_es_query_cxt p")
     (auto simp: pg19_before_start_def pg18_before_start_def pg19_after_start_def pg18_after_start_def
       bit_or_iff instrument_bits Let_def)

end
