(* ===== verification/Plan_Tree.thy ===== *)
theory Plan_Tree
  imports Walk Timing
begin

text \<open>
  The executor's tree of plan states and the children that a state shows (\<open>plan_state_children\<close> and
  its helpers in \<open>src/postgres.rs\<close>), in EXPLAIN's order.

  Plan states. The executor's tree is a \<open>plan_state\<close> over the instrumentation \<open>'i\<close> of the Postgres
  version. A pointer is an \<open>option\<close>, a \<open>List\<close> or an array the list of its cells. The code reads a
  concrete state type behind a node by casting it according to the tag of its plan; every node has
  the fields of all of them, and the code's match on the tag says which of them is read. The name of
  a sub-plan comes from the version layer.
\<close>

section \<open>Plan states\<close>

datatype plan_tag =
    T_Append | T_MergeAppend | T_BitmapAnd | T_BitmapOr | T_SubqueryScan | T_CustomScan | T_Gather | T_GatherMerge
  | T_SeqScan | T_SampleScan | T_IndexScan | T_IndexOnlyScan | T_BitmapIndexScan | T_BitmapHeapScan | T_TidScan
  | T_TidRangeScan | T_FunctionScan | T_ValuesScan | T_TableFuncScan | T_CteScan | T_NamedTuplestoreScan
  | T_WorkTableScan | T_ForeignScan | T_OtherPlan

text \<open>\<open>pl_members\<close>: the length of \<open>appendplans\<close> or \<open>mergeplans\<close>, none for a null list.\<close>

record plan =
  pl_type :: plan_tag
  pl_startup_cost :: f64
  pl_total_cost :: f64
  pl_plan_rows :: f64
  pl_plan_width :: i32
  pl_parallel_aware :: bool
  pl_parallel_safe :: bool
  pl_async_capable :: bool
  pl_members :: "i32 option"

text \<open>\<open>si_type_name\<close>: the debug name of the state's node tag.\<close>

record 'i state_info =
  si_type_name :: str
  si_plan :: "plan option"
  si_instrument :: "'i option"
  si_current_relation :: "u32 option"
  si_nplans :: i32
  si_nworkers_launched :: i32

datatype 'i plan_state =
  PlanState
    (ps_info: "'i state_info")
    (ps_init_plan: "(subplan option \<times> 'i plan_state option) option list")
    (ps_lefttree: "'i plan_state option")
    (ps_righttree: "'i plan_state option")
    (ps_members: "'i plan_state option list option")
    (ps_subplan: "'i plan_state option")
    (ps_custom_ps: "'i plan_state option list")
    (ps_sub_plan: "(subplan option \<times> 'i plan_state option) option list")

section \<open>Children\<close>

definition push_child ::
    "'i plan_state plan_child list \<Rightarrow> 'i plan_state option \<Rightarrow> relationship \<Rightarrow> 'i plan_state plan_child list" where
  "push_child children node relationship =
     (case node of
        None \<Rightarrow> children
      | Some n \<Rightarrow> children @ [\<lparr>pch_node = n, pch_edge = child_edge_new relationship\<rparr>])"

text \<open>The array has at least \<open>count\<close> cells; a negative count is none.\<close>

definition push_members ::
    "'i plan_state plan_child list \<Rightarrow> 'i plan_state option list option \<Rightarrow> i32 \<Rightarrow> 'i plan_state plan_child list" where
  "push_members children members count =
     (case members of
        None \<Rightarrow> children
      | Some ms \<Rightarrow> fold (\<lambda>m children. push_child children m Member) (take (nat (sint count)) ms) children)"

fun push_subplans ::
    "(subplan \<Rightarrow> str) \<Rightarrow> relationship \<Rightarrow> 'i plan_state plan_child list \<Rightarrow> i32 set \<Rightarrow>
     (subplan option \<times> 'i plan_state option) option list \<Rightarrow> 'i plan_state plan_child list \<times> i32 set" where
  "push_subplans display_name relationship children printed [] = (children, printed)"
| "push_subplans display_name relationship children printed (s # list) =
     (case s of
        Some (Some subplan, Some node) \<Rightarrow>
          if spl_plan_id subplan \<in> printed then push_subplans display_name relationship children printed list
          else push_subplans display_name relationship
                 (children @
                  [\<lparr>pch_node = node,
                    pch_edge = \<lparr>ed_relationship = relationship, ed_subplan_name = Some (display_name subplan)\<rparr>\<rparr>])
                 (insert (spl_plan_id subplan) printed) list
      | _ \<Rightarrow> push_subplans display_name relationship children printed list)"

definition concrete_children :: "'i plan_state plan_child list \<Rightarrow> 'i plan_state \<Rightarrow> 'i plan_state plan_child list" where
  "concrete_children children node =
     (case si_plan (ps_info node) of
        None \<Rightarrow> children
      | Some p \<Rightarrow>
          (case pl_type p of
             T_Append \<Rightarrow> push_members children (ps_members node) (si_nplans (ps_info node))
           | T_MergeAppend \<Rightarrow> push_members children (ps_members node) (si_nplans (ps_info node))
           | T_BitmapAnd \<Rightarrow> push_members children (ps_members node) (si_nplans (ps_info node))
           | T_BitmapOr \<Rightarrow> push_members children (ps_members node) (si_nplans (ps_info node))
           | T_SubqueryScan \<Rightarrow> push_child children (ps_subplan node) Subquery
           | T_CustomScan \<Rightarrow> fold (\<lambda>child children. push_child children child Child) (ps_custom_ps node) children
           | _ \<Rightarrow> children))"

definition plan_state_children ::
    "(subplan \<Rightarrow> str) \<Rightarrow> i32 set \<Rightarrow> 'i plan_state \<Rightarrow> 'i plan_state plan_child list \<times> i32 set" where
  "plan_state_children display_name printed node =
     (case push_subplans display_name InitPlan [] printed (ps_init_plan node) of
        (children, printed) \<Rightarrow>
          push_subplans display_name SubPlan
            (concrete_children
              (push_child (push_child children (ps_lefttree node) Outer) (ps_righttree node) Inner) node)
            printed (ps_sub_plan node))"

section \<open>The tree that EXPLAIN shows\<close>

text \<open>The states directly below a state.\<close>

definition subplan_states :: "(subplan option \<times> 'i plan_state option) option list \<Rightarrow> 'i plan_state set" where
  "subplan_states l = {n. \<exists>s. Some (s, Some n) \<in> set l}"

definition sub_states :: "'i plan_state \<Rightarrow> 'i plan_state set" where
  "sub_states node =
     subplan_states (ps_init_plan node) \<union> subplan_states (ps_sub_plan node) \<union>
     {n. ps_lefttree node = Some n \<or> ps_righttree node = Some n \<or> ps_subplan node = Some n \<or>
         Some n \<in> set (ps_custom_ps node) \<or> (\<exists>ms. ps_members node = Some ms \<and> Some n \<in> set ms)}"

lemma size_list_member: "x \<in> set xs \<Longrightarrow> f x \<le> size_list f xs"
  by (induction xs) auto

lemma sub_states_size: "n \<in> sub_states node \<Longrightarrow> size n < size node"
proof (cases node)
  case (PlanState info ini l r ms sp cu su)
  assume n: "n \<in> sub_states node"
  have sub: "k \<in> subplan_states xs \<Longrightarrow> size k < size_list (size_option (size_prod (\<lambda>x. 0) (size_option size))) xs"
    for k :: "'a plan_state" and xs
    using size_list_member [of "Some (_, Some k)" xs "size_option (size_prod (\<lambda>x. 0) (size_option size))"]
    by (fastforce simp: subplan_states_def)
  have opt: "Some k \<in> set xs \<Longrightarrow> size k < size_list (size_option size) xs" for k :: "'a plan_state" and xs
    using size_list_member [of "Some k" xs "size_option size"] by simp
  show ?thesis
    using n sub [of n ini] sub [of n su] opt [of n cu] opt [of n "the ms"]
    by (auto simp: PlanState sub_states_def)
qed

lemma push_child_nodes: "c \<in> set (push_child children node r) \<Longrightarrow> c \<in> set children \<or> node = Some (pch_node c)"
  by (auto simp: push_child_def split: option.splits)

lemma fold_push_nodes:
  "c \<in> set (fold (\<lambda>m children. push_child children m r) ms children) \<Longrightarrow> c \<in> set children \<or> Some (pch_node c) \<in> set ms"
proof (induction ms arbitrary: children)
  case (Cons m ms)
  from Cons.IH [of "push_child children m r"] Cons.prems push_child_nodes [of c children m r] show ?case by auto
qed simp

lemma push_subplans_skip:
  "\<nexists>sp node. s = Some (Some sp, Some node) \<Longrightarrow>
   push_subplans d r children printed (s # l) = push_subplans d r children printed l"
  by (auto split: option.splits)

lemma push_subplans_nodes:
  "push_subplans d r children printed l = (children', printed') \<Longrightarrow> c \<in> set children' \<Longrightarrow>
   c \<in> set children \<or> pch_node c \<in> subplan_states l"
proof (induction l arbitrary: children printed)
  case (Cons s l)
  have mono: "pch_node c \<in> subplan_states l \<Longrightarrow> pch_node c \<in> subplan_states (s # l)" by (auto simp: subplan_states_def)
  consider (shown) sp node where "s = Some (Some sp, Some node)" | (hidden) "\<nexists>sp node. s = Some (Some sp, Some node)" by blast
  then show ?case
  proof cases
    case shown
    then have "node \<in> subplan_states (s # l)" by (auto simp: subplan_states_def)
    with shown Cons.prems mono Cons.IH show ?thesis by (fastforce split: if_splits)
  next
    case hidden
    from Cons.IH [OF Cons.prems(1) [unfolded push_subplans_skip [OF hidden]] Cons.prems(2)] mono show ?thesis by blast
  qed
qed simp

lemma concrete_children_nodes: "c \<in> set (concrete_children children node) \<Longrightarrow> c \<in> set children \<or> pch_node c \<in> sub_states node"
  by (auto simp: concrete_children_def push_members_def sub_states_def dest!: push_child_nodes fold_push_nodes
      dest: in_set_takeD split: option.splits plan_tag.splits)

lemma plan_state_children_nodes:
  assumes "plan_state_children d printed node = (cs, printed')" and "c \<in> set cs"
  shows "pch_node c \<in> sub_states node"
proof -
  obtain c1 p1 where 1: "push_subplans d InitPlan [] printed (ps_init_plan node) = (c1, p1)"
    by (cases "push_subplans d InitPlan [] printed (ps_init_plan node)")
  let ?c2 = "push_child (push_child c1 (ps_lefttree node) Outer) (ps_righttree node) Inner"
  have 2: "push_subplans d SubPlan (concrete_children ?c2 node) p1 (ps_sub_plan node) = (cs, printed')"
    using assms(1) 1 by (simp add: plan_state_children_def)
  show ?thesis
    using push_subplans_nodes [OF 2 assms(2)] concrete_children_nodes [of c ?c2 node]
      push_child_nodes [of c "push_child c1 (ps_lefttree node) Outer"] push_child_nodes [of c c1] push_subplans_nodes [OF 1, of c]
    by (auto simp: sub_states_def)
qed

function explain_tree :: "(subplan \<Rightarrow> str) \<Rightarrow> i32 set \<Rightarrow> 'i plan_state \<Rightarrow> 'i plan_state rose \<times> i32 set" where
  "explain_tree d printed node =
     (case plan_state_children d printed node of
        (cs, p1) \<Rightarrow>
          (case expand_all (\<lambda>p n. explain_tree d p n) p1 (child_pairs cs) of (ts, p2) \<Rightarrow> (Rose node ts, p2)))"
  by pat_completeness auto
termination
proof (relation "measure (\<lambda>(d, printed, node). size node)")
  fix d printed and node n :: "'i plan_state" and x cs p1 p e
  assume "(cs, p1) = plan_state_children d printed node" "(e, n) \<in> set (child_pairs cs)"
  then show "((d, p, n), d, printed, node) \<in> measure (\<lambda>(d, printed, node). size node)"
    using plan_state_children_nodes [of d printed node cs p1] sub_states_size by (fastforce simp: child_pairs_def)
qed simp

declare explain_tree.simps [simp del]

interpretation executor: plan_tree "plan_state_children d" "explain_tree d" for d
  by unfold_locales (subst explain_tree.simps, simp)

lemma walk_explain_tree:
  "walk_plan root max_spans (plan_state_children d) visit printed v =
   map_option (\<lambda>(summary, v). (summary, snd (explain_tree d printed root), v))
     (visit_forest visit max_spans None [(None, fst (explain_tree d printed root))] walk_summary_default v)"
  by (rule executor.walk_plan_forest) simp

section \<open>Sub-plans appear once\<close>

definition named :: "child_edge option \<Rightarrow> bool" where
  "named e \<longleftrightarrow> (case e of Some e \<Rightarrow> ed_subplan_name e \<noteq> None | None \<Rightarrow> False)"

definition named_count :: "(child_edge option \<times> 'a) list \<Rightarrow> nat" where
  "named_count xs = length (filter (\<lambda>x. named (fst x)) xs)"

lemma named_count_simps [simp]:
  "named_count [] = 0"
  "named_count (x # xs) = (if named (fst x) then 1 else 0) + named_count xs"
  "named_count (xs @ ys) = named_count xs + named_count ys"
  by (simp_all add: named_count_def)

lemma child_pairs_simps [simp]:
  "child_pairs [] = []" "child_pairs (c # cs) = (Some (pch_edge c), pch_node c) # child_pairs cs"
  "child_pairs (cs @ cs') = child_pairs cs @ child_pairs cs'"
  by (simp_all add: child_pairs_def)

lemma push_child_named: "named_count (child_pairs (push_child children node r)) = named_count (child_pairs children)"
  by (simp add: push_child_def named_def child_edge_new_def split: option.splits)

lemma fold_push_named:
  "named_count (child_pairs (fold (\<lambda>m children. push_child children m r) ms children)) = named_count (child_pairs children)"
  by (induction ms arbitrary: children) (simp_all add: push_child_named)

lemma concrete_children_named: "named_count (child_pairs (concrete_children children node)) = named_count (child_pairs children)"
  by (simp add: concrete_children_def push_members_def push_child_named fold_push_named split: option.splits plan_tag.splits)

text \<open>Identifiers gained and named edges gained are the same number.\<close>

definition grows :: "i32 set \<Rightarrow> i32 set \<Rightarrow> nat \<Rightarrow> bool" where
  "grows printed printed' k \<longleftrightarrow> printed \<subseteq> printed' \<and> (finite printed \<longrightarrow> finite printed' \<and> card printed' = card printed + k)"

lemma grows_refl [simp]: "grows p p 0"
  by (simp add: grows_def)

lemma grows_trans: "grows p q k \<Longrightarrow> grows q r l \<Longrightarrow> grows p r (k + l)"
  by (auto simp: grows_def)

lemma push_subplans_grows:
  "push_subplans d r children printed l = (children', printed') \<Longrightarrow>
   \<exists>k. grows printed printed' k \<and> named_count (child_pairs children') = named_count (child_pairs children) + k"
proof (induction l arbitrary: children printed)
  case (Cons s l)
  consider (shown) sp node where "s = Some (Some sp, Some node)" "spl_plan_id sp \<notin> printed"
    | (again) sp node where "s = Some (Some sp, Some node)" "spl_plan_id sp \<in> printed"
    | (hidden) "\<nexists>sp node. s = Some (Some sp, Some node)" by blast
  then show ?case
  proof cases
    case shown
    have g: "grows printed (insert (spl_plan_id sp) printed) 1" using shown(2) by (auto simp: grows_def)
    let ?c = "\<lparr>pch_node = node, pch_edge = \<lparr>ed_relationship = r, ed_subplan_name = Some (d sp)\<rparr>\<rparr>"
    have "push_subplans d r (children @ [?c]) (insert (spl_plan_id sp) printed) l = (children', printed')"
      using Cons.prems shown by simp
    from Cons.IH [OF this] obtain k where "grows (insert (spl_plan_id sp) printed) printed' k"
      "named_count (child_pairs children') = named_count (child_pairs (children @ [?c])) + k" by blast
    then show ?thesis using grows_trans [OF g] by (intro exI [of _ "1 + k"]) (simp add: named_def)
  next
    case again
    then show ?thesis using Cons by simp
  next
    case hidden
    from Cons.IH [OF Cons.prems [unfolded push_subplans_skip [OF hidden]]] show ?thesis .
  qed
qed (auto intro: exI [of _ 0])

lemma plan_state_children_grows:
  assumes "plan_state_children d printed node = (cs, printed')"
  shows "grows printed printed' (named_count (child_pairs cs))"
proof -
  obtain c1 p1 where 1: "push_subplans d InitPlan [] printed (ps_init_plan node) = (c1, p1)"
    by (cases "push_subplans d InitPlan [] printed (ps_init_plan node)")
  let ?c2 = "concrete_children (push_child (push_child c1 (ps_lefttree node) Outer) (ps_righttree node) Inner) node"
  have 2: "push_subplans d SubPlan ?c2 p1 (ps_sub_plan node) = (cs, printed')"
    using assms 1 by (simp add: plan_state_children_def)
  from push_subplans_grows [OF 1] push_subplans_grows [OF 2] show ?thesis
    by (auto simp: concrete_children_named push_child_named intro: grows_trans)
qed

lemma explain_tree_grows:
  "explain_tree d printed node = (t, printed') \<Longrightarrow> grows printed printed' (named_count (preorder [(None, t)]))"
proof (induction d printed node arbitrary: t printed' rule: explain_tree.induct)
  case (1 d printed node)
  obtain cs p1 where cs: "plan_state_children d printed node = (cs, p1)" by (cases "plan_state_children d printed node")
  have all: "\<exists>k. grows p p2 k \<and> named_count (preorder ts) = named_count ns + k"
    if "set ns \<subseteq> set (child_pairs cs)" "expand_all (explain_tree d) p ns = (ts, p2)" for ns p ts p2
    using that
  proof (induction ns arbitrary: p ts)
    case (Cons en ns)
    obtain e n where en: "en = (e, n)" by (cases en)
    obtain t1 q1 where t1: "explain_tree d p n = (t1, q1)" by (cases "explain_tree d p n")
    obtain ts' where ts': "expand_all (explain_tree d) q1 ns = (ts', p2)" "ts = (e, t1) # ts'"
      using Cons.prems(2) en t1 by (auto split: prod.splits)
    have "(e, n) \<in> set (child_pairs cs)" using Cons.prems(1) en by simp
    from "1.IH" [OF cs [symmetric] this t1] have g: "grows p q1 (named_count (preorder [(None, t1)]))" .
    have c: "named_count (preorder ts) = (if named e then 1 else 0) + named_count (preorder [(None, t1)]) + named_count (preorder ts')"
      by (cases t1) (simp add: ts'(2) named_def)
    obtain k where k: "grows q1 p2 k" "named_count (preorder ts') = named_count ns + k"
      using Cons.IH [OF _ ts'(1)] Cons.prems(1) by auto
    show ?case
      using grows_trans [OF g k(1)] c k(2) en by (intro exI [of _ "named_count (preorder [(None, t1)]) + k"]) simp
  qed (auto intro: exI [of _ 0])
  obtain ts where t: "expand_all (explain_tree d) p1 (child_pairs cs) = (ts, printed')" "t = Rose node ts"
    using "1.prems" cs by (subst (asm) explain_tree.simps) (auto split: prod.splits)
  from all [OF subset_refl t(1)] obtain k where
    "grows p1 printed' k" "named_count (preorder ts) = named_count (child_pairs cs) + k" by blast
  with grows_trans [OF plan_state_children_grows [OF cs]] show ?case by (simp add: t(2) named_def)
qed

section \<open>A tree to evaluate\<close>

definition demo_info :: "'i \<Rightarrow> plan_tag \<Rightarrow> 'i state_info" where
  "demo_info i tag =
     \<lparr>si_type_name = lit ''T_State'',
      si_plan = Some \<lparr>pl_type = tag, pl_startup_cost = 0, pl_total_cost = 0, pl_plan_rows = 0, pl_plan_width = 8,
                      pl_parallel_aware = False, pl_parallel_safe = True, pl_async_capable = False, pl_members = Some 2\<rparr>,
      si_instrument = Some i, si_current_relation = None, si_nplans = 1, si_nworkers_launched = 0\<rparr>"

definition demo_leaf :: "'i \<Rightarrow> 'i plan_state" where
  "demo_leaf i = PlanState (demo_info i T_SeqScan) [] None None None None [] []"

definition demo_subplan :: subplan where
  "demo_subplan = \<lparr>spl_plan_id = 1, spl_plan_name = Some (lit ''1''), spl_is_cte = False, spl_is_init_plan = True\<rparr>"

text \<open>An append with one live member and two references to the same sub-plan.\<close>

definition demo_tree :: "'i \<Rightarrow> 'i plan_state" where
  "demo_tree i =
     PlanState (demo_info i T_Append) [Some (Some demo_subplan, Some (demo_leaf i))] (Some (demo_leaf i)) None
       (Some [Some (demo_leaf i)]) None [] [Some (Some demo_subplan, Some (demo_leaf i))]"

section \<open>Properties\<close>

text \<open>
  C21 (equivalence). The loop over the explicit stack does what the depth-first recursion over the tree
  that EXPLAIN shows does, with any visitor and any limit: parents before children, children in
  order, a node without a span handing its parent on. In particular it ends for every plan.
\<close>

theorem walk_is_depth_first:
  "walk_plan root max_spans (plan_state_children d) visit printed v =
   map_option (\<lambda>(summary, v). (summary, snd (explain_tree d printed root), v))
     (visit_forest visit max_spans None [(None, fst (explain_tree d printed root))] walk_summary_default v)"
  by (rule walk_explain_tree)

text \<open>
  A walk whose visits all give a span gives one to each of the first \<open>max_spans\<close> nodes
  and counts every other node as omitted.
\<close>

theorem walk_counts:
  assumes "walk_plan root max_spans (plan_state_children d) visit printed v = Some (summary, printed', v')"
    and "\<And>v n e p w. visit v n e p \<noteq> Some (None, w)"
    and "nodes = length (preorder [(None, fst (explain_tree d printed root))])"
  shows "ws_emitted summary = min max_spans nodes \<and> ws_omitted summary = nodes - max_spans"
proof -
  obtain t c where t: "explain_tree d printed root = (t, c)" by (cases "explain_tree d printed root")
  have v: "visit_forest visit max_spans None [(None, t)] walk_summary_default v = Some (summary, v')"
    using assms(1) unfolding executor.walk_plan_forest [OF t] by auto
  have "ws_emitted walk_summary_default \<le> max_spans" by (simp add: walk_summary_default_def)
  from visit_forest_counts [OF v this assms(2)] assms(3) t show ?thesis by (auto simp: walk_summary_default_def)
qed

lemma walk_counts_witness:
  "ws_emitted \<lparr>ws_emitted = 2, ws_omitted = 2\<rparr> = min 2 4 \<and> ws_omitted \<lparr>ws_emitted = 2, ws_omitted = 2\<rparr> = 4 - 2"
proof (rule walk_counts [where visit = "\<lambda>v n e p. Some (Some v, v + 1)" and root = "demo_tree ()" and max_spans = 2])
  let ?visit = "\<lambda>v n e p. Some (Some (v :: nat), v + 1)"
  have t: "explain_tree (\<lambda>s. []) {} (demo_tree ()) = (fst (explain_tree (\<lambda>s. []) {} (demo_tree ())), {1})"
    by code_simp
  have "visit_forest ?visit 2 None [(None, fst (explain_tree (\<lambda>s. []) {} (demo_tree ())))] walk_summary_default 0 =
      Some (\<lparr>ws_emitted = 2, ws_omitted = 2\<rparr>, 2)" by code_simp
  then show "walk_plan (demo_tree ()) 2 (plan_state_children (\<lambda>s. [])) ?visit {} 0 =
      Some (\<lparr>ws_emitted = 2, ws_omitted = 2\<rparr>, {1}, 2)"
    by (simp add: executor.walk_plan_forest [OF t])
  show "4 = length (preorder [(None, fst (explain_tree (\<lambda>s. []) {} (demo_tree ())))])" by code_simp
qed simp



end
