(* ===== verification/Traceparent.thy ===== *)
theory Traceparent
  imports Span_Types
begin

text \<open>
  Finding the parent trace of a statement: the shape of a \<open>traceparent\<close> value (\<open>src/span.rs\<close>) and the
  values carried by comments of the query text (\<open>src/postgres.rs\<close>).

  The opentelemetry crate is a parameter (\<open>otel\<close>): the propagator that reads a header through an
  extractor's \<open>get\<close>, and \<open>is_valid\<close> of a context. A random generator is the list of the values that it
  will draw; \<open>None\<close> of a generator loop means that these do not suffice. A text that the code walks
  through by character is the list of its characters, each one its bytes (\<open>chars\<close>).
\<close>

section \<open>Characters\<close>

function chars :: "str \<Rightarrow> bytes list" where
  "chars s = (if s = [] then [] else take (snd (utf8_step s)) s # chars (drop (snd (utf8_step s)) s))"
  by pat_completeness auto
termination
proof (relation "measure length")
  fix s :: str
  assume "s \<noteq> []"
  then show "(drop (snd (utf8_step s)) s, s) \<in> measure length"
    using utf8_step_pos [of s "fst (utf8_step s)" "snd (utf8_step s)"] by (cases s) auto
qed simp

declare chars.simps [simp del]

lemma chars_Nil [simp]: "chars [] = []"
  by (simp add: chars.simps)

lemma concat_chars [simp]: "concat (chars s) = s"
proof (induction s rule: chars.induct)
  case (1 s)
  then show ?case by (subst chars.simps) simp
qed

lemma chars_ascii_Cons: "b < 0x80 \<Longrightarrow> chars (b # s) = [b] # chars s"
  by (subst chars.simps) simp

lemma chars_ascii: "list_all (\<lambda>b. b < 0x80) s \<Longrightarrow> chars s = map (\<lambda>b. [b]) s"
  by (induction s) (simp_all add: chars_ascii_Cons)

text \<open>\<open>char::is_whitespace\<close>: the characters with the property White_Space of Unicode.\<close>

definition is_whitespace :: "bytes \<Rightarrow> bool" where
  "is_whitespace c \<longleftrightarrow>
     (case c of
        [a] \<Rightarrow> (0x09 \<le> a \<and> a \<le> 0x0D) \<or> a = 0x20
      | [a, b] \<Rightarrow> a = 0xC2 \<and> (b = 0x85 \<or> b = 0xA0)
      | [a, b, d] \<Rightarrow>
          (a = 0xE1 \<and> b = 0x9A \<and> d = 0x80) \<or>
          (a = 0xE2 \<and> b = 0x80 \<and> ((0x80 \<le> d \<and> d \<le> 0x8A) \<or> d = 0xA8 \<or> d = 0xA9 \<or> d = 0xAF)) \<or>
          (a = 0xE2 \<and> b = 0x81 \<and> d = 0x9F) \<or>
          (a = 0xE3 \<and> b = 0x80 \<and> d = 0x80)
      | _ \<Rightarrow> False)"

definition trim :: "str \<Rightarrow> str" where
  "trim s = concat (rev (dropWhile is_whitespace (rev (dropWhile is_whitespace (chars s)))))"

section \<open>The shape of a traceparent\<close>

text \<open>\<open>split('-')\<close>; \<open>s\<close> is the part read so far.\<close>

fun split_dash :: "str \<Rightarrow> str \<Rightarrow> str list" where
  "split_dash s [] = [s]"
| "split_dash s (b # bs) = (if b = 0x2D then s # split_dash [] bs else split_dash (s @ [b]) bs)"

definition is_hex_byte :: "byte \<Rightarrow> bool" where
  "is_hex_byte b \<longleftrightarrow> (0x30 \<le> b \<and> b \<le> 0x39) \<or> (0x61 \<le> b \<and> b \<le> 0x66)"

definition is_hex :: "str \<Rightarrow> nat \<Rightarrow> bool" where
  "is_hex field len \<longleftrightarrow> length field = len \<and> list_all is_hex_byte field"

definition has_traceparent_shape :: "str \<Rightarrow> bool" where
  "has_traceparent_shape s \<longleftrightarrow>
     (case split_dash [] s of
        version # trace_id # span_id # flags # rest \<Rightarrow>
          is_hex version 2 \<and> version \<noteq> lit ''ff'' \<and>
          (version \<noteq> lit ''00'' \<or> length (split_dash [] s) = 4) \<and>
          is_hex trace_id 32 \<and> is_hex span_id 16 \<and> is_hex flags 2
      | _ \<Rightarrow> False)"

record span_context =
  cx_trace_id :: trace_id
  cx_span_id :: span_id
  cx_is_sampled :: bool

record otel =
  ot_extract :: "(str \<Rightarrow> str option) \<Rightarrow> span_context"
  ot_is_valid :: "span_context \<Rightarrow> bool"

definition extractor_get :: "str \<Rightarrow> str \<Rightarrow> str option" where
  "extractor_get parent key = (if eq_ignore_ascii_case key (lit ''traceparent'') then Some parent else None)"

definition parse_traceparent :: "otel \<Rightarrow> str \<Rightarrow> span_context option" where
  "parse_traceparent ot s =
     (if \<not> has_traceparent_shape (trim s) then None
      else let context = ot_extract ot (extractor_get s)
           in if ot_is_valid ot context then Some context else None)"

section \<open>Comments\<close>

text \<open>
  \<open>block_comments\<close>: the loop from position \<open>i\<close> over the stack of open comments. A slice that is not on
  character boundaries panics: \<open>None\<close>.
\<close>

function block_comments_loop :: "str \<Rightarrow> str list \<Rightarrow> nat list \<Rightarrow> nat \<Rightarrow> str list option" where
  "block_comments_loop t comments opened i =
     (if \<not> i + 1 < length t then Some comments
      else if t ! i = 0x2F \<and> t ! (i + 1) = 0x2A then block_comments_loop t comments ((i + 2) # opened) (i + 2)
      else if t ! i = 0x2A \<and> t ! (i + 1) = 0x2F then
        (case opened of
           [] \<Rightarrow> block_comments_loop t comments [] (i + 2)
         | start # opened' \<Rightarrow>
             (case str_get t start i of
                None \<Rightarrow> None
              | Some c \<Rightarrow> block_comments_loop t (comments @ [c]) opened' (i + 2)))
      else block_comments_loop t comments opened (i + 1))"
  by pat_completeness auto
termination
  by (relation "measure (\<lambda>(t, comments, opened, i). length t - i)") auto

declare block_comments_loop.simps [simp del]

definition block_comments :: "str \<Rightarrow> str list option" where
  "block_comments t = block_comments_loop t [] [] 0"

section \<open>Values in a comment\<close>

definition hex_digit :: "byte \<Rightarrow> nat option" where
  "hex_digit b =
     (if 0x30 \<le> b \<and> b \<le> 0x39 then Some (unat b - 48)
      else if 0x61 \<le> b \<and> b \<le> 0x66 then Some (unat b - 87)
      else if 0x41 \<le> b \<and> b \<le> 0x46 then Some (unat b - 55)
      else None)"

definition percent_escape :: "bytes \<Rightarrow> byte option" where
  "percent_escape bs =
     (case bs of
        p # h # l # _ \<Rightarrow>
          if p = 0x25
          then (case hex_digit h of
                  None \<Rightarrow> None
                | Some high \<Rightarrow> map_option (\<lambda>low. word_of_nat (high * 16 + low)) (hex_digit l))
          else None
      | _ \<Rightarrow> None)"

fun percent_decode_bytes :: "bytes \<Rightarrow> bytes" where
  "percent_decode_bytes [] = []"
| "percent_decode_bytes (b # bs) =
     (case percent_escape (b # bs) of
        Some d \<Rightarrow> d # percent_decode_bytes (drop 2 bs)
      | None \<Rightarrow> b # percent_decode_bytes bs)"

definition percent_decode :: "str \<Rightarrow> str" where
  "percent_decode t = utf8_lossy (percent_decode_bytes t)"

definition is_traceparent_key :: "str \<Rightarrow> bool" where
  "is_traceparent_key key \<longleftrightarrow>
     eq_ignore_ascii_case key (lit ''traceparent'') \<or> eq_ignore_ascii_case key (lit ''pg_otel.traceparent'')"

definition SQUOTE :: bytes where "SQUOTE = [0x27]"
definition DQUOTE :: bytes where "DQUOTE = [0x22]"
definition COMMA :: bytes where "COMMA = [0x2C]"
definition EQUALS :: bytes where "EQUALS = [0x3D]"

text \<open>\<open>split_value\<close>: the value and the text behind it.\<close>

definition split_value :: "bytes list \<Rightarrow> bytes list \<times> bytes list" where
  "split_value t =
     (case t of
        q # body \<Rightarrow>
          if q = SQUOTE \<or> q = DQUOTE
          then (if q \<in> set body
                then (takeWhile (\<lambda>c. c \<noteq> q) body, tl (dropWhile (\<lambda>c. c \<noteq> q) body)) else ([], []))
          else (takeWhile (\<lambda>c. \<not> (is_whitespace c \<or> c = COMMA)) t, dropWhile (\<lambda>c. \<not> (is_whitespace c \<or> c = COMMA)) t)
      | [] \<Rightarrow> ([], []))"

definition ends_key :: "bytes \<Rightarrow> bool" where
  "ends_key c \<longleftrightarrow> is_whitespace c \<or> c = EQUALS \<or> c = COMMA \<or> c = SQUOTE \<or> c = DQUOTE"

lemma split_value_shrinks: "length (snd (split_value t)) \<le> length t"
proof (cases t)
  case (Cons q body)
  have "length (dropWhile p body) \<le> Suc (length body)" for p
    using length_dropWhile_le le_SucI by blast
  moreover from this have "length (dropWhile p body) - Suc 0 \<le> Suc (length body)" for p
    using le_trans [OF diff_le_self] by blast
  ultimately show ?thesis
    unfolding split_value_def Cons list.case by (simp split: if_splits)
qed (simp add: split_value_def)

lemma tl_drop_less: "dropWhile p r \<noteq> [] \<Longrightarrow> length (tl (dropWhile p r)) < length (r :: bytes list)"
  using length_dropWhile_le [of p r] by (cases "dropWhile p r") auto

lemma drop_key_less:
  assumes "takeWhile q (dropWhile p r) \<noteq> []"
  shows "length (dropWhile q (dropWhile p r)) < length (r :: bytes list)"
proof -
  have "length (takeWhile q (dropWhile p r)) + length (dropWhile q (dropWhile p r)) = length (dropWhile p r)"
    by (metis length_append takeWhile_dropWhile_id)
  with assms length_dropWhile_le [of p r] show ?thesis by (cases "takeWhile q (dropWhile p r)") auto
qed

lemma drop_value_less:
  assumes "takeWhile q (dropWhile p r) \<noteq> []" and "dropWhile w (dropWhile q (dropWhile p r)) = e # y"
    and "(v, z) = split_value (dropWhile u y)"
  shows "length z < length (r :: bytes list)"
proof -
  have "length z \<le> length (dropWhile u y)" using split_value_shrinks [of "dropWhile u y"] assms(3) by (metis snd_conv)
  also have "\<dots> \<le> length y" by (rule length_dropWhile_le)
  also have "\<dots> < length (e # y)" by simp
  also have "\<dots> \<le> length (dropWhile q (dropWhile p r))" unfolding assms(2) [symmetric] by (rule length_dropWhile_le)
  also have "\<dots> < length r" using assms(1) by (rule drop_key_less)
  finally show ?thesis .
qed

function traceparent_values_loop :: "bytes list \<Rightarrow> str list" where
  "traceparent_values_loop rest0 =
     (let rest = dropWhile (\<lambda>c. is_whitespace c \<or> c = COMMA) rest0 in
      if rest = [] then []
      else
        let key = takeWhile (\<lambda>c. \<not> ends_key c) rest; after_key = dropWhile (\<lambda>c. \<not> ends_key c) rest in
        if key = [] then traceparent_values_loop (tl rest)
        else
          (case dropWhile is_whitespace after_key of
             e # after_equals \<Rightarrow>
               if e = EQUALS
               then (case split_value (dropWhile is_whitespace after_equals) of
                       (value, remaining) \<Rightarrow>
                         (if is_traceparent_key (percent_decode (concat key)) \<and> concat value \<noteq> []
                          then [percent_decode (concat value)] else []) @ traceparent_values_loop remaining)
               else traceparent_values_loop after_key
           | [] \<Rightarrow> traceparent_values_loop after_key))"
  by pat_completeness auto
termination
  apply (relation "measure length")
  apply (simp_all only: in_measure wf_measure)
     apply (rule tl_drop_less; assumption)
    apply (rule drop_key_less; assumption)
   apply (rule drop_value_less; assumption)
  apply (rule drop_key_less; assumption)
  done

declare traceparent_values_loop.simps [simp del]

definition traceparent_values :: "str \<Rightarrow> str list" where
  "traceparent_values comment = traceparent_values_loop (chars comment)"

text \<open>
  \<open>traceparent_from_comments\<close>, with its pre-check for the key anywhere in the text. Outer \<open>None\<close>: the
  slicing of the comments panics.
\<close>

fun has_window :: "str \<Rightarrow> bool" where
  "has_window [] = False"
| "has_window (b # bs) =
     ((11 \<le> length (b # bs) \<and> eq_ignore_ascii_case (take 11 (b # bs)) (lit ''traceparent'')) \<or> has_window bs)"

fun find_map :: "('a \<Rightarrow> 'b option) \<Rightarrow> 'a list \<Rightarrow> 'b option" where
  "find_map f [] = None"
| "find_map f (x # xs) = (case f x of Some y \<Rightarrow> Some y | None \<Rightarrow> find_map f xs)"

definition traceparent_from_comments :: "otel \<Rightarrow> str \<Rightarrow> span_context option option" where
  "traceparent_from_comments ot t =
     (if \<not> has_window t then Some None
      else map_option (\<lambda>cs. find_map (parse_traceparent ot) (concat (map traceparent_values cs))) (block_comments t))"

section \<open>Random identifiers\<close>

text \<open>The values the generator will draw.\<close>

record rng =
  draws128 :: "128 word list"
  draws64 :: "u64 list"

definition be_bytes :: "'a::len word \<Rightarrow> bytes" where
  "be_bytes w = rev (to_le_bytes w)"

text \<open>The loop of both generators: values are drawn until one is not the invalid (all-zero) id.\<close>

fun random_id_loop :: "bytes \<Rightarrow> 'a::len word list \<Rightarrow> (bytes \<times> 'a word list) option" where
  "random_id_loop invalid [] = None"
| "random_id_loop invalid (w # ws) =
     (let i = be_bytes w in if i \<noteq> invalid then Some (i, ws) else random_id_loop invalid ws)"

definition random_trace_id :: "rng \<Rightarrow> (trace_id \<times> rng) option" where
  "random_trace_id r = map_option (\<lambda>(i, ws). (i, r\<lparr>draws128 := ws\<rparr>)) (random_id_loop TRACE_ID_INVALID (draws128 r))"

definition random_span_id :: "rng \<Rightarrow> (span_id \<times> rng) option" where
  "random_span_id r = map_option (\<lambda>(i, ws). (i, r\<lparr>draws64 := ws\<rparr>)) (random_id_loop SPAN_ID_INVALID (draws64 r))"

section \<open>The parent of a statement\<close>

record parent_context =
  pc_trace_id :: trace_id
  pc_span_id :: span_id
  pc_is_remote :: bool

definition new_root :: "rng \<Rightarrow> (parent_context \<times> rng) option" where
  "new_root r =
     map_option (\<lambda>(i, r'). (\<lparr>pc_trace_id = i, pc_span_id = SPAN_ID_INVALID, pc_is_remote = False\<rparr>, r')) (random_trace_id r)"

definition from_remote :: "span_context \<Rightarrow> parent_context" where
  "from_remote remote = \<lparr>pc_trace_id = cx_trace_id remote, pc_span_id = cx_span_id remote, pc_is_remote = True\<rparr>"

datatype trace_decision = Skip | Trace parent_context

text \<open>
  \<open>decide_parent\<close>. The first \<open>None\<close> is the panic of slicing a comment, the second that the generator's
  values do not suffice.
\<close>

definition decide_parent ::
    "otel \<Rightarrow> str option \<Rightarrow> str option \<Rightarrow> rng \<Rightarrow> (trace_decision \<times> rng) option option" where
  "decide_parent ot guc_traceparent query_text_opt r =
     (case (case Option.bind guc_traceparent (parse_traceparent ot) of
              Some c \<Rightarrow> Some (Some c)
            | None \<Rightarrow> (case query_text_opt of None \<Rightarrow> Some None | Some t \<Rightarrow> traceparent_from_comments ot t)) of
        None \<Rightarrow> None
      | Some None \<Rightarrow> Some (map_option (\<lambda>(p, r'). (Trace p, r')) (new_root r))
      | Some (Some remote) \<Rightarrow>
          Some (Some (if cx_is_sampled remote then Trace (from_remote remote) else Skip, r)))"

section \<open>Comments are the matched markers\<close>

text \<open>The comment markers of a text from position \<open>i\<close> on: where a comment's text starts or ends.\<close>

datatype marker = OpenMark nat | CloseMark nat

function markers :: "str \<Rightarrow> nat \<Rightarrow> marker list" where
  "markers t i =
     (if \<not> i + 1 < length t then []
      else if t ! i = 0x2F \<and> t ! (i + 1) = 0x2A then OpenMark (i + 2) # markers t (i + 2)
      else if t ! i = 0x2A \<and> t ! (i + 1) = 0x2F then CloseMark i # markers t (i + 2)
      else markers t (i + 1))"
  by pat_completeness auto
termination
  by (relation "measure (\<lambda>(t, i). length t - i)") auto

declare markers.simps [simp del]

text \<open>Closing a comment closes the innermost open one; one with nothing to close is ignored.\<close>

fun matching :: "nat list \<Rightarrow> marker list \<Rightarrow> (nat \<times> nat) list" where
  "matching st [] = []"
| "matching st (OpenMark p # ms) = matching (p # st) ms"
| "matching [] (CloseMark q # ms) = matching [] ms"
| "matching (p # st) (CloseMark q # ms) = (p, q) # matching st ms"

inductive balanced :: "marker list \<Rightarrow> bool" where
  balanced_Nil: "balanced []"
| balanced_nest: "balanced xs \<Longrightarrow> balanced ys \<Longrightarrow> balanced (OpenMark p # xs @ CloseMark q # ys)"

lemma matching_balanced:
  "balanced ys \<Longrightarrow> \<exists>out. \<forall>st rest. matching st (ys @ rest) = out @ matching st rest"
proof (induction rule: balanced.induct)
  case (balanced_nest xs ys p q)
  then obtain o1 o2 where o: "matching st (xs @ rest) = o1 @ matching st rest" "matching st (ys @ rest) = o2 @ matching st rest"
    for st rest by metis
  have "matching st ((OpenMark p # xs @ CloseMark q # ys) @ rest) = (o1 @ (p, q) # o2) @ matching st rest" for st rest
    using o(1) [of "p # st" "CloseMark q # ys @ rest"] o(2) by simp
  then show ?case by blast
qed auto

lemma matching_append: "\<exists>out st'. \<forall>rest. matching st (xs @ rest) = out @ matching st' rest"
proof (induction st xs rule: matching.induct)
  case (4 p st q ms)
  then obtain out st' where "matching st (ms @ rest) = out @ matching st' rest" for rest by metis
  then have "matching (p # st) ((CloseMark q # ms) @ rest) = ((p, q) # out) @ matching st' rest" for rest by simp
  then show ?case by blast
qed auto

text \<open>Closing the \<open>i\<close>th open comment: whatever is opened in between is closed in between.\<close>

fun closes :: "nat \<Rightarrow> marker list \<Rightarrow> nat \<Rightarrow> bool" where
  "closes 0 ms q \<longleftrightarrow> (\<exists>ys zs. ms = ys @ CloseMark q # zs \<and> balanced ys)"
| "closes (Suc i) ms q \<longleftrightarrow> (\<exists>ys r zs. ms = ys @ CloseMark r # zs \<and> balanced ys \<and> closes i zs q)"

definition matched :: "marker list \<Rightarrow> nat \<Rightarrow> nat \<Rightarrow> bool" where
  "matched ms p q \<longleftrightarrow> (\<exists>xs ys zs. ms = xs @ OpenMark p # ys @ CloseMark q # zs \<and> balanced ys)"

lemma matched_Cons: "matched ms p q \<Longrightarrow> matched (m # ms) p q"
  unfolding matched_def by (metis append_Cons)

lemma closes_close: "closes i ms q \<Longrightarrow> closes (Suc i) (CloseMark r # ms) q"
  using balanced_Nil by (auto intro: exI [of _ "[]"])

lemma closes_open: "closes (Suc i) ms q \<Longrightarrow> closes i (OpenMark p # ms) q"
proof -
  assume "closes (Suc i) ms q"
  then obtain ys r zs where ms: "ms = ys @ CloseMark r # zs" "balanced ys" "closes i zs q" by auto
  show ?thesis
  proof (cases i)
    case 0
    with ms(3) obtain ys' zs' where z: "zs = ys' @ CloseMark q # zs'" "balanced ys'" by auto
    have "balanced (OpenMark p # ys @ CloseMark r # ys')" using ms(2) z(2) by (rule balanced_nest)
    then show ?thesis
      unfolding 0 closes.simps ms(1) z(1) by (intro exI conjI) (simp_all add: append_assoc)
  next
    case (Suc j)
    with ms(3) obtain ys' r' zs' where z: "zs = ys' @ CloseMark r' # zs'" "balanced ys'" "closes j zs' q" by auto
    have "balanced (OpenMark p # ys @ CloseMark r # ys')" using ms(2) z(2) by (rule balanced_nest)
    moreover have "OpenMark p # ms = (OpenMark p # ys @ CloseMark r # ys') @ CloseMark r' # zs'" by (simp add: ms(1) z(1))
    ultimately show ?thesis unfolding Suc closes.simps using z(3) by blast
  qed
qed

lemma matching_sound:
  "(p, q) \<in> set (matching st ms) \<Longrightarrow> matched ms p q \<or> (\<exists>i < length st. st ! i = p \<and> closes i ms q)"
proof (induction st ms rule: matching.induct)
  case (2 st p' ms)
  then consider "matched ms p q" | i where "i < length (p' # st)" "(p' # st) ! i = p" "closes i ms q" by auto
  then show ?case
  proof cases
    case (2 i)
    show ?thesis
    proof (cases i)
      case 0
      with 2(2,3) obtain ys zs where "p' = p" "ms = ys @ CloseMark q # zs" "balanced ys" by auto
      then have "matched (OpenMark p' # ms) p q" unfolding matched_def
        by (intro exI [of _ "[]"] exI [of _ ys] exI [of _ zs]) simp
      then show ?thesis ..
    next
      case (Suc j)
      with 2 have "j < length st" "st ! j = p" "closes j (OpenMark p' # ms) q" using closes_open by auto
      then show ?thesis by blast
    qed
  qed (simp add: matched_Cons)
next
  case (3 q' ms)
  then show ?case using matched_Cons by auto
next
  case (4 s st q' ms)
  then consider "p = s" "q = q'" | "matched ms p q" | i where "i < length st" "st ! i = p" "closes i ms q" by auto
  then show ?case
  proof cases
    case 1
    then have "closes 0 (CloseMark q' # ms) q" using balanced_Nil by (auto intro: exI [of _ "[]"])
    then show ?thesis using 1 by (intro disjI2 exI [of _ 0]) simp
  next
    case (3 i)
    then show ?thesis using closes_close [of i ms q q'] by (intro disjI2 exI [of _ "Suc i"]) simp
  qed (simp add: matched_Cons)
qed simp

lemma matching_iff: "(p, q) \<in> set (matching [] ms) \<longleftrightarrow> matched ms p q"
proof
  assume "matched ms p q"
  then obtain xs ys zs where ms: "ms = xs @ OpenMark p # ys @ CloseMark q # zs" "balanced ys" by (auto simp: matched_def)
  obtain out st where "matching [] (xs @ rest) = out @ matching st rest" for rest using matching_append by metis
  moreover obtain out' where "matching s (ys @ rest) = out' @ matching s rest" for s rest
    using matching_balanced [OF ms(2)] by metis
  ultimately show "(p, q) \<in> set (matching [] ms)" by (simp add: ms(1))
qed (use matching_sound [of p q "[]"] in simp)

text \<open>Every slice between markers is on character boundaries, so the loop does not panic.\<close>

lemma boundary_after_ascii:
  assumes "utf8_valid t" and "i < length t" and "t ! i < 0x80"
  shows "is_char_boundary t i" and "is_char_boundary t (i + 1)"
proof -
  show b: "is_char_boundary t i" using assms cont_high by (auto simp: is_char_boundary_def)
  have "drop i t = t ! i # drop (i + 1) t" using assms(2) by (simp add: Cons_nth_drop_Suc)
  moreover have "utf8_valid (drop i t)" using valid_split [OF assms(1) b] by simp
  ultimately have "utf8_valid (drop (i + 1) t)" using valid_scalar_append [OF ascii_scalar [OF assms(3)]] by simp
  from valid_boundary [OF this, of "take (i + 1) t"] assms(2) show "is_char_boundary t (i + 1)" by simp
qed

definition part :: "str \<Rightarrow> nat \<times> nat \<Rightarrow> str" where
  "part t r = take (snd r - fst r) (drop (fst r) t)"

lemma block_comments_loop_matching:
  assumes "utf8_valid t" and "\<forall>p \<in> set opened. p \<le> i \<and> is_char_boundary t p"
  shows "block_comments_loop t cs opened i = Some (cs @ map (part t) (matching opened (markers t i)))"
  using assms
proof (induction t cs opened i rule: block_comments_loop.induct)
  case (1 t cs opened i)
  note step = block_comments_loop.simps [of t cs opened i] markers.simps [of t i]
  consider (over) "\<not> i + 1 < length t"
    | (op) "i + 1 < length t" "t ! i = 0x2F" "t ! (i + 1) = 0x2A"
    | (closing) "i + 1 < length t" "\<not> (t ! i = 0x2F \<and> t ! (i + 1) = 0x2A)" "t ! i = 0x2A" "t ! (i + 1) = 0x2F"
    | (other) "i + 1 < length t" "\<not> (t ! i = 0x2F \<and> t ! (i + 1) = 0x2A)" "\<not> (t ! i = 0x2A \<and> t ! (i + 1) = 0x2F)"
    by blast
  then show ?case
  proof cases
    case over
    then show ?thesis unfolding step by simp
  next
    case op
    have "is_char_boundary t (i + 2)" using boundary_after_ascii(2) [OF "1.prems"(1) op(1)] op(3) by simp
    then have "block_comments_loop t cs ((i + 2) # opened) (i + 2) =
        Some (cs @ map (part t) (matching ((i + 2) # opened) (markers t (i + 2))))"
      using "1.IH"(1) op "1.prems" by fastforce
    then show ?thesis unfolding step using op by simp
  next
    case closing
    show ?thesis
    proof (cases opened)
      case Nil
      then have "block_comments_loop t cs [] (i + 2) = Some (cs @ map (part t) (matching [] (markers t (i + 2))))"
        using "1.IH"(2) closing "1.prems" by simp
      then show ?thesis unfolding step using closing Nil by simp
    next
      case (Cons p opened')
      have "is_char_boundary t i" using boundary_after_ascii(1) [OF "1.prems"(1), of i] closing by simp
      then have g: "str_get t p i = Some (part t (p, i))" using "1.prems"(2) Cons by (simp add: str_get_def part_def)
      have "block_comments_loop t (cs @ [part t (p, i)]) opened' (i + 2) =
          Some ((cs @ [part t (p, i)]) @ map (part t) (matching opened' (markers t (i + 2))))"
        using "1.IH"(3) [OF _ _ _ Cons g] closing "1.prems" Cons by fastforce
      then show ?thesis unfolding step using closing Cons g by simp
    qed
  next
    case other
    then have "block_comments_loop t cs opened (i + 1) = Some (cs @ map (part t) (matching opened (markers t (i + 1))))"
      using "1.IH"(4) "1.prems" by fastforce
    then show ?thesis unfolding step using other by auto
  qed
qed

lemma block_comments_matching:
  "utf8_valid t \<Longrightarrow> block_comments t = Some (map (part t) (matching [] (markers t 0)))"
  by (simp add: block_comments_def block_comments_loop_matching)

section \<open>The shape as a grammar\<close>

lemma split_dash_nodash: "0x2D \<notin> set a \<Longrightarrow> split_dash s (a @ rest) = split_dash (s @ a) rest"
  by (induction a arbitrary: s) auto

lemma split_dash_field: "0x2D \<notin> set a \<Longrightarrow> split_dash [] (a @ 0x2D # rest) = a # split_dash [] rest"
  by (simp add: split_dash_nodash)

lemma split_dash_not_Nil [simp]: "split_dash s t \<noteq> []"
  by (induction t arbitrary: s) auto

lemma split_dash_Cons:
  "split_dash s t = a # x # xs \<Longrightarrow> \<exists>t1 t2. t = t1 @ 0x2D # t2 \<and> a = s @ t1 \<and> 0x2D \<notin> set t1 \<and> split_dash [] t2 = x # xs"
proof (induction t arbitrary: s)
  case (Cons b t)
  show ?case
  proof (cases "b = 0x2D")
    case True
    with Cons.prems show ?thesis by (intro exI [of _ "[]"] exI [of _ t]) simp
  next
    case False
    with Cons.prems obtain t1 t2 where "t = t1 @ 0x2D # t2" "a = (s @ [b]) @ t1" "0x2D \<notin> set t1" "split_dash [] t2 = x # xs"
      using Cons.IH [of "s @ [b]"] by auto
    with False show ?thesis by (intro exI [of _ "b # t1"] exI [of _ t2]) auto
  qed
qed simp

lemma split_dash_single: "split_dash s t = [a] \<Longrightarrow> a = s @ t \<and> 0x2D \<notin> set t"
proof (induction t arbitrary: s)
  case (Cons b t)
  show ?case
  proof (cases "b = 0x2D")
    case False
    with Cons show ?thesis by fastforce
  qed (use Cons.prems in simp)
qed simp

lemma split_dash_hd: "\<exists>t1 t2. hd (split_dash s t) = s @ t1 \<and> t = t1 @ t2 \<and> (t2 = [] \<and> tl (split_dash s t) = [] \<or> hd t2 = 0x2D \<and> t2 \<noteq> [] \<and> tl (split_dash s t) \<noteq> [])"
proof (induction t arbitrary: s)
  case (Cons b t)
  show ?case
  proof (cases "b = 0x2D")
    case True
    then show ?thesis by (intro exI [of _ "[]"] exI [of _ "b # t"]) simp
  next
    case False
    obtain t1 t2 where "hd (split_dash (s @ [b]) t) = (s @ [b]) @ t1 \<and> t = t1 @ t2 \<and>
      (t2 = [] \<and> tl (split_dash (s @ [b]) t) = [] \<or> hd t2 = 0x2D \<and> t2 \<noteq> [] \<and> tl (split_dash (s @ [b]) t) \<noteq> [])"
      using Cons.IH [of "s @ [b]"] by blast
    with False show ?thesis by (intro exI [of _ "b # t1"] exI [of _ t2]) auto
  qed
qed simp

lemma hex_no_dash: "is_hex a n \<Longrightarrow> 0x2D \<notin> set a"
  by (auto simp: is_hex_def is_hex_byte_def list_all_iff)

text \<open>A value of that shape, its fields and what may follow them.\<close>

definition shaped :: "str \<Rightarrow> str \<Rightarrow> str \<Rightarrow> str \<Rightarrow> str \<Rightarrow> bool" where
  "shaped version trace span flags rest \<longleftrightarrow>
     is_hex version 2 \<and> version \<noteq> lit ''ff'' \<and> is_hex trace 32 \<and> is_hex span 16 \<and> is_hex flags 2 \<and>
     (rest = [] \<or> (hd rest = 0x2D \<and> version \<noteq> lit ''00''))"

lemma shape_iff:
  "has_traceparent_shape s \<longleftrightarrow>
   (\<exists>v t p f rest. s = v @ lit ''-'' @ t @ lit ''-'' @ p @ lit ''-'' @ f @ rest \<and> shaped v t p f rest)"
proof
  assume "has_traceparent_shape s"
  then obtain v t p f rs where sp: "split_dash [] s = v # t # p # f # rs"
    and h: "is_hex v 2" "v \<noteq> lit ''ff''" "v \<noteq> lit ''00'' \<or> rs = []" "is_hex t 32" "is_hex p 16" "is_hex f 2"
    by (auto simp: has_traceparent_shape_def split: list.splits)
  obtain s1 where s1: "s = v @ 0x2D # s1" "split_dash [] s1 = t # p # f # rs" using split_dash_Cons [OF sp] by auto
  obtain s2 where s2: "s1 = t @ 0x2D # s2" "split_dash [] s2 = p # f # rs" using split_dash_Cons [OF s1(2)] by auto
  obtain s3 where s3: "s2 = p @ 0x2D # s3" "split_dash [] s3 = f # rs" using split_dash_Cons [OF s2(2)] by auto
  obtain rest where s4: "s3 = f @ rest" "rest = [] \<and> rs = [] \<or> hd rest = 0x2D \<and> rs \<noteq> []"
    using split_dash_hd [of "[]" s3] s3(2) by auto
  have "shaped v t p f rest" using h s4(2) by (auto simp: shaped_def)
  moreover have "s = v @ lit ''-'' @ t @ lit ''-'' @ p @ lit ''-'' @ f @ rest"
    by (simp add: s1(1) s2(1) s3(1) s4(1) lit_def)
  ultimately show "\<exists>v t p f rest. s = v @ lit ''-'' @ t @ lit ''-'' @ p @ lit ''-'' @ f @ rest \<and> shaped v t p f rest"
    by blast
next
  assume "\<exists>v t p f rest. s = v @ lit ''-'' @ t @ lit ''-'' @ p @ lit ''-'' @ f @ rest \<and> shaped v t p f rest"
  then obtain v t p f rest where s: "s = v @ 0x2D # t @ 0x2D # p @ 0x2D # f @ rest" and h: "shaped v t p f rest"
    by (auto simp: lit_def)
  have sp: "split_dash [] s = v # t # p # split_dash [] (f @ rest)"
    using h hex_no_dash [of v 2] hex_no_dash [of t 32] hex_no_dash [of p 16]
    by (simp add: s shaped_def split_dash_field)
  obtain rs where "split_dash [] (f @ rest) = f # rs" "rest = [] \<longrightarrow> rs = []"
  proof (cases rest)
    case Nil
    then show ?thesis using h hex_no_dash [of f 2] that [of "[]"] split_dash_nodash [of f "[]" "[]"] by (simp add: shaped_def)
  next
    case (Cons b r)
    then show ?thesis using h hex_no_dash [of f 2] that by (simp add: shaped_def split_dash_field)
  qed
  with sp h show "has_traceparent_shape s" by (auto simp: has_traceparent_shape_def shaped_def)
qed

section \<open>Percent-encoding\<close>

text \<open>An encoding of bytes: each byte other than \<open>%\<close> as it is, any byte as an escape in either case.\<close>

inductive encodes :: "bytes \<Rightarrow> bytes \<Rightarrow> bool" where
  encodes_Nil: "encodes [] []"
| encodes_plain: "b \<noteq> 0x25 \<Longrightarrow> encodes e s \<Longrightarrow> encodes (b # e) (b # s)"
| encodes_escape: "hex_digit h = Some hi \<Longrightarrow> hex_digit l = Some lo \<Longrightarrow> encodes e s \<Longrightarrow>
    encodes (0x25 # h # l # e) (word_of_nat (hi * 16 + lo) # s)"

lemma decode_plain: "b \<noteq> 0x25 \<Longrightarrow> percent_decode_bytes (b # e) = b # percent_decode_bytes e"
  by (auto simp: percent_escape_def split: list.splits)

lemma decode_encodes: "encodes e s \<Longrightarrow> percent_decode_bytes e = s"
  by (induction rule: encodes.induct) (auto simp: decode_plain percent_escape_def simp del: percent_decode_bytes.simps(2)
      simp: percent_decode_bytes.simps(2) [of "0x25"])

lemma encodes_self: "0x25 \<notin> set s \<Longrightarrow> encodes s s"
  by (induction s) (auto intro: encodes.intros)

lemma percent_decode_ascii: "0x25 \<notin> set s \<Longrightarrow> list_all (\<lambda>b. b < 0x80) s \<Longrightarrow> percent_decode s = s"
  unfolding percent_decode_def by (simp add: decode_encodes [OF encodes_self] lossy_valid ascii_valid)

section \<open>A header in a comment\<close>

definition hexd :: "nat \<Rightarrow> byte" where
  "hexd n = (if n < 10 then word_of_nat (48 + n) else word_of_nat (87 + n))"

definition hex_of :: "bytes \<Rightarrow> str" where
  "hex_of bs = concat (map (\<lambda>b. [hexd (unat b div 16), hexd (unat b mod 16)]) bs)"

definition traceparent_header :: "trace_id \<Rightarrow> span_id \<Rightarrow> bool \<Rightarrow> str" where
  "traceparent_header tid sid sampled =
     lit ''00'' @ lit ''-'' @ hex_of tid @ lit ''-'' @ hex_of sid @ lit ''-'' @ (if sampled then lit ''01'' else lit ''00'')"

text \<open>
  What the opentelemetry crate documents: a context is valid when both ids are not zero, and the
  propagator reads a W3C header of version \<open>00\<close>.
\<close>

definition w3c_otel :: "otel \<Rightarrow> bool" where
  "w3c_otel ot \<longleftrightarrow>
     (\<forall>c. ot_is_valid ot c \<longleftrightarrow> cx_trace_id c \<noteq> TRACE_ID_INVALID \<and> cx_span_id c \<noteq> SPAN_ID_INVALID) \<and>
     (\<forall>get tid sid sampled.
        length tid = 16 \<longrightarrow> length sid = 8 \<longrightarrow> tid \<noteq> TRACE_ID_INVALID \<longrightarrow> sid \<noteq> SPAN_ID_INVALID \<longrightarrow>
        get (lit ''traceparent'') = Some (traceparent_header tid sid sampled) \<longrightarrow>
        ot_extract ot get = \<lparr>cx_trace_id = tid, cx_span_id = sid, cx_is_sampled = sampled\<rparr>)"

lemma hexd_hex: "n < 16 \<Longrightarrow> is_hex_byte (hexd n)"
proof -
  assume "n < 16"
  then have "unat (word_of_nat (48 + n) :: byte) = 48 + n" "unat (word_of_nat (87 + n) :: byte) = 87 + n"
    by (simp_all only: unat_byte_mod) simp_all
  with \<open>n < 16\<close> show ?thesis by (simp add: hexd_def is_hex_byte_def word_le_nat_alt)
qed

lemma hex_of_hex: "is_hex (hex_of bs) (2 * length bs)"
proof -
  have "unat b div 16 < 16" for b :: byte using unsigned_less [of b, where 'a = nat] by (simp add: less_mult_imp_div_less)
  then show ?thesis by (induction bs) (auto simp: is_hex_def hex_of_def hexd_hex)
qed

lemma header_shape: "length tid = 16 \<Longrightarrow> length sid = 8 \<Longrightarrow> has_traceparent_shape (traceparent_header tid sid sampled)"
proof -
  assume l: "length tid = 16" "length sid = 8"
  have z: "is_hex (lit ''00'') 2" "is_hex (lit ''01'') 2" by code_simp+
  have "shaped (lit ''00'') (hex_of tid) (hex_of sid) (if sampled then lit ''01'' else lit ''00'') []"
    using hex_of_hex [of tid] hex_of_hex [of sid] l z by (simp add: shaped_def)
  then show ?thesis unfolding shape_iff traceparent_header_def append_Nil2 by (metis append_Nil2)
qed

definition header_byte :: "byte \<Rightarrow> bool" where
  "header_byte b \<longleftrightarrow> is_hex_byte b \<or> b = 0x2D"

lemma header_bytes: "list_all header_byte (traceparent_header tid sid sampled)"
  using hex_of_hex [of tid] hex_of_hex [of sid]
  by (auto simp: traceparent_header_def header_byte_def is_hex_def list_all_iff lit_def is_hex_byte_def)

lemma header_byteD:
  "header_byte b \<Longrightarrow> b < 0x80 \<and> b \<noteq> 0x25 \<and> b \<noteq> 0x27 \<and> b \<noteq> 0x2A \<and> \<not> is_whitespace [b]"
  by (auto simp: header_byte_def is_hex_byte_def is_whitespace_def word_le_nat_alt word_less_nat_alt)

lemma trim_header: "trim (traceparent_header tid sid sampled) = traceparent_header tid sid sampled"
proof -
  let ?h = "traceparent_header tid sid sampled"
  have a: "list_all (\<lambda>b. b < 0x80) ?h" using header_bytes header_byteD by (auto simp: list_all_iff)
  have n: "\<forall>c \<in> set (chars ?h). \<not> is_whitespace c"
    using header_bytes header_byteD by (auto simp: chars_ascii [OF a] list_all_iff)
  have keep: "dropWhile is_whitespace cs = cs" if "\<forall>c \<in> set cs. \<not> is_whitespace c" for cs
    using that by (cases cs) auto
  show ?thesis using n by (simp add: trim_def keep)
qed

lemma parse_header:
  assumes "w3c_otel ot" and "length tid = 16" and "length sid = 8"
    and "tid \<noteq> TRACE_ID_INVALID" and "sid \<noteq> SPAN_ID_INVALID"
  shows "parse_traceparent ot (traceparent_header tid sid sampled) =
    Some \<lparr>cx_trace_id = tid, cx_span_id = sid, cx_is_sampled = sampled\<rparr>"
proof -
  have "extractor_get (traceparent_header tid sid sampled) (lit ''traceparent'') = Some (traceparent_header tid sid sampled)"
    by (simp add: extractor_get_def eq_ignore_ascii_case_def)
  then have "ot_extract ot (extractor_get (traceparent_header tid sid sampled)) =
      \<lparr>cx_trace_id = tid, cx_span_id = sid, cx_is_sampled = sampled\<rparr>"
    using assms unfolding w3c_otel_def by blast
  moreover have "ot_is_valid ot \<lparr>cx_trace_id = tid, cx_span_id = sid, cx_is_sampled = sampled\<rparr>"
    using assms unfolding w3c_otel_def by auto
  ultimately show ?thesis
    using header_shape [OF assms(2,3)] by (simp add: parse_traceparent_def trim_header)
qed

lemma until_first:
  assumes "\<forall>x \<in> set xs. P x" and "\<not> P y"
  shows "takeWhile P (xs @ y # ys) = xs" and "dropWhile P (xs @ y # ys) = y # ys"
  using assms by (induction xs) auto

text \<open>The text of a comment as sqlcommenter writes it.\<close>

definition commenter :: "str \<Rightarrow> str" where
  "commenter h = lit ''traceparent='' @ [0x27] @ h @ [0x27]"

lemma commenter_values:
  assumes "list_all header_byte h" and "h \<noteq> []"
  shows "traceparent_values (commenter h) = [h]"
proof -
  have a: "list_all (\<lambda>b. b < 0x80) h" and q: "0x27 \<notin> set h" "0x25 \<notin> set h"
    using assms header_byteD by (auto simp: list_all_iff)
  let ?k = "lit ''traceparent''"
  have "list_all (\<lambda>b. b < 0x80) (commenter h)" using a by (simp add: commenter_def lit_def)
  then have cs: "chars (commenter h) = map (\<lambda>b. [b]) ?k @ EQUALS # SQUOTE # map (\<lambda>b. [b]) h @ [SQUOTE]"
    by (simp add: chars_ascii) (simp add: commenter_def lit_def EQUALS_def SQUOTE_def)
  have k: "\<forall>c \<in> set (map (\<lambda>b. [b]) ?k). \<not> ends_key c" "\<not> \<not> ends_key EQUALS" "\<not> is_whitespace EQUALS" "\<not> is_whitespace SQUOTE"
    by (simp_all add: lit_def ends_key_def is_whitespace_def EQUALS_def COMMA_def SQUOTE_def DQUOTE_def)
  have d0: "dropWhile (\<lambda>c. is_whitespace c \<or> c = COMMA) (map (\<lambda>b. [b]) ?k @ xs) = map (\<lambda>b. [b]) ?k @ xs" for xs
    by (simp add: lit_def is_whitespace_def COMMA_def)
  have d1: "takeWhile (\<lambda>c. \<not> ends_key c) (map (\<lambda>b. [b]) ?k @ EQUALS # xs) = map (\<lambda>b. [b]) ?k"
    "dropWhile (\<lambda>c. \<not> ends_key c) (map (\<lambda>b. [b]) ?k @ EQUALS # xs) = EQUALS # xs" for xs
    by (rule until_first [OF k(1,2)])+
  have nq: "\<forall>c \<in> set (map (\<lambda>b. [b]) h). c \<noteq> SQUOTE" using q by (auto simp: SQUOTE_def)
  have v: "split_value (SQUOTE # map (\<lambda>b. [b]) h @ [SQUOTE]) = (map (\<lambda>b. [b]) h, [])"
    using until_first [OF nq, of SQUOTE "[]"] by (simp add: split_value_def)
  have cc: "concat (map (\<lambda>b. [b]) xs) = xs" for xs :: bytes by (induction xs) simp_all
  have key: "is_traceparent_key (percent_decode ?k)"
    by (subst percent_decode_ascii) (simp_all add: lit_def is_traceparent_key_def eq_ignore_ascii_case_def)
  have e: "traceparent_values_loop [] = []" by (subst traceparent_values_loop.simps) simp
  show ?thesis
    unfolding traceparent_values_def cs
    using key assms(2) percent_decode_ascii [OF q(2) a]
    by (subst traceparent_values_loop.simps)
       (simp add: d0 d1 k(3,4) v cc e Let_def; simp add: lit_def)
qed

section \<open>Identifiers\<close>

lemma be_bytes_zero: "8 dvd LENGTH('a) \<Longrightarrow> be_bytes (w :: 'a::len word) = replicate (LENGTH('a) div 8) 0 \<longleftrightarrow> w = 0"
proof
  assume d: "8 dvd LENGTH('a)" and "be_bytes w = replicate (LENGTH('a) div 8) 0"
  have z: "le_of_nat k 0 = replicate k 0" for k by (induction k) simp_all
  then have "to_le_bytes w = to_le_bytes (0 :: 'a word)"
    using \<open>be_bytes w = _\<close> by (simp add: be_bytes_def to_le_bytes_def rev_swap)
  then show "w = 0" using from_to_le_bytes [OF d] by metis
next
  have z: "le_of_nat k 0 = replicate k 0" for k by (induction k) simp_all
  show "w = 0 \<Longrightarrow> be_bytes w = replicate (LENGTH('a) div 8) 0" by (simp add: be_bytes_def to_le_bytes_def z)
qed

lemma be_bytes_length: "length (be_bytes (w :: 'a::len word)) = LENGTH('a) div 8"
  by (simp add: be_bytes_def to_le_bytes_def)

lemma be_bytes_ids:
  "be_bytes (w :: 128 word) = TRACE_ID_INVALID \<longleftrightarrow> w = 0" "be_bytes (v :: u64) = SPAN_ID_INVALID \<longleftrightarrow> v = 0"
  using be_bytes_zero [of w] be_bytes_zero [of v] by (simp_all add: TRACE_ID_INVALID_def SPAN_ID_INVALID_def)

lemma random_id_loop_split:
  assumes "\<And>w :: 'a::len word. be_bytes w = invalid \<longleftrightarrow> w = 0"
  shows "random_id_loop invalid (ws :: 'a word list) = Some (i, vs) \<longleftrightarrow>
    (\<exists>n w. ws = replicate n 0 @ w # vs \<and> w \<noteq> 0 \<and> i = be_bytes w)"
proof (induction ws)
  case (Cons w ws)
  show ?case
  proof (cases "w = 0")
    case True
    then have "random_id_loop invalid (w # ws) = random_id_loop invalid ws" by (simp add: assms)
    also have "(\<dots> = Some (i, vs)) = (\<exists>n v. w # ws = replicate (Suc n) 0 @ v # vs \<and> v \<noteq> 0 \<and> i = be_bytes v)"
      using Cons.IH True by simp
    also have "\<dots> = (\<exists>n v. w # ws = replicate n 0 @ v # vs \<and> v \<noteq> 0 \<and> i = be_bytes v)"
      using True by (metis append_Nil list.inject not0_implies_Suc replicate_0)
    finally show ?thesis .
  next
    case False
    then have "w # ws = replicate n 0 @ v # vs \<longleftrightarrow> n = 0 \<and> w = v \<and> ws = vs" for n v by (cases n) auto
    with False show ?thesis by (auto simp: assms)
  qed
qed simp

lemmas random_ids_split =
  random_id_loop_split [OF be_bytes_ids(1)] random_id_loop_split [OF be_bytes_ids(2)]

lemma random_span_id_valid: "random_span_id r = Some (i, r') \<Longrightarrow> i \<noteq> SPAN_ID_INVALID \<and> length i = 8"
  by (auto simp: random_span_id_def random_ids_split be_bytes_ids be_bytes_length)

lemma random_trace_id_valid: "random_trace_id r = Some (i, r') \<Longrightarrow> i \<noteq> TRACE_ID_INVALID \<and> length i = 16"
  by (auto simp: random_trace_id_def random_ids_split be_bytes_ids be_bytes_length)

section \<open>A comment in a statement\<close>

lemma markers_skip:
  assumes "\<And>k. i \<le> k \<Longrightarrow> k < j \<Longrightarrow>
      \<not> (t ! k = 0x2F \<and> t ! (k + 1) = 0x2A) \<and> \<not> (t ! k = 0x2A \<and> t ! (k + 1) = 0x2F)"
    and "i \<le> j" and "j < length t"
  shows "markers t i = markers t j"
  using assms
proof (induction "j - i" arbitrary: i)
  case (Suc n)
  then have "i + 1 < length t" "i < j" by simp_all
  moreover have "markers t (i + 1) = markers t j" using Suc by (intro Suc.hyps) auto
  ultimately show ?case using Suc.prems(1) [of i] by (subst markers.simps) auto
qed simp

lemma has_window_append: "has_window y \<Longrightarrow> has_window (x @ y)"
  by (induction x) auto

lemma has_window_key: "has_window (lit ''traceparent'' @ y)"
proof -
  have "take 11 (lit ''traceparent'' @ y) = lit ''traceparent''" by (simp add: lit_def)
  then have "has_window (t # ts)" if "t # ts = lit ''traceparent'' @ y" for t ts
    unfolding has_window.simps that by (simp add: lit_def eq_ignore_ascii_case_def)
  then show ?thesis by (cases "lit ''traceparent'' @ y") (simp_all add: lit_def)
qed

lemma commenter_first:
  assumes star: "0x2A \<notin> set pre" and h: "list_all header_byte h" "h \<noteq> []"
    and v: "utf8_valid pre" "utf8_valid post"
  shows "\<exists>cs. block_comments (pre @ lit ''/*'' @ commenter h @ lit ''*/'' @ post) = Some (commenter h # cs)"
proof -
  define t where "t = pre @ lit ''/*'' @ commenter h @ lit ''*/'' @ post"
  let ?p = "length pre" and ?q = "length pre + 2 + length (commenter h)"
  have c: "list_all (\<lambda>b. b < 0x80 \<and> b \<noteq> 0x2A) (commenter h)"
    using h(1) header_byteD by (auto simp: commenter_def list_all_iff lit_def)
  then have "utf8_valid (commenter h)" by (intro ascii_valid) (simp add: list_all_iff)
  moreover have "utf8_valid (lit ''/*'')" "utf8_valid (lit ''*/'')" by (rule ascii_valid, simp add: lit_def)+
  ultimately have valid: "utf8_valid t" using v by (simp add: t_def valid_append)
  have len: "?q + 2 \<le> length t" by (simp add: t_def lit_def)
  have nth_pre: "k < ?p \<Longrightarrow> t ! k = pre ! k" for k by (simp add: t_def nth_append)
  have at_p: "t ! ?p = 0x2F" "t ! (?p + 1) = 0x2A" by (simp_all add: t_def nth_append lit_def)
  have nth_c: "?p + 2 \<le> k \<Longrightarrow> k < ?q \<Longrightarrow> t ! k = commenter h ! (k - (?p + 2))" for k
  proof -
    assume k: "?p + 2 \<le> k" "k < ?q"
    have "t = (pre @ lit ''/*'') @ commenter h @ lit ''*/'' @ post" and l: "length (pre @ lit ''/*'') = ?p + 2"
      by (simp_all add: t_def lit_def)
    then have "t ! k = (commenter h @ lit ''*/'' @ post) ! (k - (?p + 2))"
      using k(1) by (metis le_add_diff_inverse nth_append_length_plus)
    also have "k - (?p + 2) < length (commenter h)" using k by simp
    then have "(commenter h @ lit ''*/'' @ post) ! (k - (?p + 2)) = commenter h ! (k - (?p + 2))"
      by (simp add: nth_append)
    finally show ?thesis .
  qed
  have at_q: "t ! ?q = 0x2A" "t ! (?q + 1) = 0x2F" by (simp_all add: t_def nth_append lit_def)
  have not_star: "k < ?q \<Longrightarrow> k \<noteq> ?p + 1 \<Longrightarrow> t ! k \<noteq> 0x2A" for k
  proof -
    assume k: "k < ?q" "k \<noteq> ?p + 1"
    consider "k < ?p" | "k = ?p" | "?p + 2 \<le> k" using k(2) by linarith
    then show ?thesis
    proof cases
      case 1
      then show ?thesis using star nth_pre by (metis nth_mem)
    next
      case 3
      then have "commenter h ! (k - (?p + 2)) \<in> set (commenter h)" using k(1) by (intro nth_mem) simp
      then show ?thesis using c nth_c [OF 3 k(1)] by (auto simp: list_all_iff)
    qed (use at_p in simp)
  qed
  have last_c: "t ! (?q - 1) = 0x27"
    using nth_c [of "?q - 1"] by (simp add: commenter_def nth_append)
  have "markers t 0 = markers t ?p"
    using not_star len by (intro markers_skip) force+
  also have "\<dots> = OpenMark (?p + 2) # markers t (?p + 2)"
    using at_p len by (subst markers.simps) simp
  also have "markers t (?p + 2) = markers t ?q"
  proof (rule markers_skip)
    fix k
    assume k: "?p + 2 \<le> k" "k < ?q"
    show "\<not> (t ! k = 0x2F \<and> t ! (k + 1) = 0x2A) \<and> \<not> (t ! k = 0x2A \<and> t ! (k + 1) = 0x2F)"
    proof (cases "k = ?q - 1")
      case True
      then show ?thesis using last_c by simp
    next
      case False
      then show ?thesis using not_star [of "k + 1"] not_star [of k] k by simp
    qed
  qed (use len in simp_all)
  also have "markers t ?q = CloseMark ?q # markers t (?q + 2)"
    using at_q len by (subst markers.simps) simp
  finally have b: "block_comments t = Some (part t (?p + 2, ?q) # map (part t) (matching [] (markers t (?q + 2))))"
    using block_comments_matching [OF valid] by simp
  have "part t (?p + 2, ?q) = commenter h" by (simp add: part_def t_def lit_def)
  then show ?thesis using b unfolding t_def [symmetric] by (intro exI) (simp only:)
qed

section \<open>A propagator to evaluate\<close>

fun unhex :: "str \<Rightarrow> bytes" where
  "unhex (a # b # r) = word_of_nat (the (hex_digit a) * 16 + the (hex_digit b)) # unhex r"
| "unhex _ = []"

definition demo_otel :: otel where
  "demo_otel =
     \<lparr>ot_extract = (\<lambda>get. case get (lit ''traceparent'') of
          None \<Rightarrow> \<lparr>cx_trace_id = TRACE_ID_INVALID, cx_span_id = SPAN_ID_INVALID, cx_is_sampled = False\<rparr>
        | Some h \<Rightarrow> \<lparr>cx_trace_id = unhex (take 32 (drop 3 h)), cx_span_id = unhex (take 16 (drop 36 h)),
                     cx_is_sampled = (drop 53 h = lit ''01'')\<rparr>),
      ot_is_valid = (\<lambda>c. cx_trace_id c \<noteq> TRACE_ID_INVALID \<and> cx_span_id c \<noteq> SPAN_ID_INVALID)\<rparr>"

lemma hex_digit_hexd: "n < 16 \<Longrightarrow> hex_digit (hexd n) = Some n"
proof -
  assume "n < 16"
  then have "unat (word_of_nat (48 + n) :: byte) = 48 + n" "unat (word_of_nat (87 + n) :: byte) = 87 + n"
    by (simp_all only: unat_byte_mod) simp_all
  with \<open>n < 16\<close> show ?thesis by (simp add: hexd_def hex_digit_def word_le_nat_alt)
qed

lemma unhex_hex_of: "unhex (hex_of bs) = bs"
proof (induction bs)
  case (Cons b bs)
  have "unat b div 16 < 16" using unsigned_less [of b, where 'a = nat] by (simp add: less_mult_imp_div_less)
  then have "unhex (hex_of (b # bs)) = word_of_nat (unat b div 16 * 16 + unat b mod 16) # bs"
    using Cons by (simp add: hex_of_def hex_digit_hexd)
  also have "unat b div 16 * 16 + unat b mod 16 = unat b" by (rule div_mult_mod_eq)
  finally show ?case by simp
qed (simp add: hex_of_def)

lemma demo_otel_w3c: "w3c_otel demo_otel"
proof -
  have "unhex (take 32 (drop 3 (traceparent_header tid sid sampled))) = tid \<and>
      unhex (take 16 (drop 36 (traceparent_header tid sid sampled))) = sid \<and>
      (drop 53 (traceparent_header tid sid sampled) = lit ''01'') = sampled"
    if "length tid = 16" "length sid = 8" for tid sid sampled
  proof -
    have "length (hex_of tid) = 32" "length (hex_of sid) = 16" using hex_of_hex [of tid] hex_of_hex [of sid] that
      by (simp_all add: is_hex_def)
    moreover have "length (lit ''00'') = 2" "length (lit ''-'') = 1" "lit ''01'' \<noteq> lit ''00''" by (simp_all add: lit_def)
    ultimately show ?thesis by (simp add: traceparent_header_def unhex_hex_of)
  qed
  note read = this
  show ?thesis
    unfolding w3c_otel_def
  proof (intro conjI allI impI)
    fix c
    show "ot_is_valid demo_otel c \<longleftrightarrow> cx_trace_id c \<noteq> TRACE_ID_INVALID \<and> cx_span_id c \<noteq> SPAN_ID_INVALID"
      by (simp add: demo_otel_def)
  next
    fix get and tid sid :: bytes and sampled
    assume l: "length tid = 16" "length sid = 8" and g: "get (lit ''traceparent'') = Some (traceparent_header tid sid sampled)"
    show "ot_extract demo_otel get = \<lparr>cx_trace_id = tid, cx_span_id = sid, cx_is_sampled = sampled\<rparr>"
      using read [OF l, of sampled] by (simp only: demo_otel_def otel.select_convs g option.case)
  qed
qed

section \<open>Properties\<close>

text \<open>
  C33 (functional). The comments found in a query text are exactly the texts between an opening marker and
  the marker that closes it, those of nested comments included: everything opened in between is
  closed in between. On valid UTF-8 no slice panics.
\<close>

theorem comments_are_matched:
  assumes "utf8_valid t"
  shows "\<exists>cs. block_comments t = Some cs \<and>
    (\<forall>c. c \<in> set cs \<longleftrightarrow>
      (\<exists>p q. (\<exists>xs ys zs. markers t 0 = xs @ OpenMark p # ys @ CloseMark q # zs \<and> balanced ys) \<and>
        c = take (q - p) (drop p t)))"
proof -
  have "c \<in> set (map (part t) (matching [] (markers t 0))) \<longleftrightarrow>
      (\<exists>p q. matched (markers t 0) p q \<and> c = take (q - p) (drop p t))" for c
    unfolding matching_iff [symmetric] by (auto simp: part_def image_iff Bex_def)
  then show ?thesis
    unfolding block_comments_matching [OF assms] matched_def
    by (intro exI [of _ "map (part t) (matching [] (markers t 0))"]) simp
qed

lemma comments_are_matched_witness:
  "\<exists>cs. block_comments (lit ''a/*b/*c*/d*/'') = Some cs \<and>
    (\<forall>c. c \<in> set cs \<longleftrightarrow>
      (\<exists>p q. (\<exists>xs ys zs. markers (lit ''a/*b/*c*/d*/'') 0 = xs @ OpenMark p # ys @ CloseMark q # zs \<and> balanced ys) \<and>
        c = take (q - p) (drop p (lit ''a/*b/*c*/d*/''))))"
  by (rule comments_are_matched) (rule ascii_valid, simp add: lit_def)

text \<open>
  C34 (equivalence). The shape check accepts the W3C grammar: lower-case hex fields of two, 32, 16 and two
  digits joined by dashes, a version other than \<open>ff\<close>, and further fields only for versions other
  than \<open>00\<close>.
\<close>

theorem traceparent_shape_grammar:
  "has_traceparent_shape s \<longleftrightarrow>
   (\<exists>version trace span flags rest.
      s = version @ lit ''-'' @ trace @ lit ''-'' @ span @ lit ''-'' @ flags @ rest \<and>
      is_hex version 2 \<and> version \<noteq> lit ''ff'' \<and> is_hex trace 32 \<and> is_hex span 16 \<and> is_hex flags 2 \<and>
      (rest = [] \<or> (hd rest = 0x2D \<and> version \<noteq> lit ''00'')))"
  unfolding shape_iff shaped_def ..

text \<open>
  Percent-decoding undoes every percent-encoding of a text: bytes other than \<open>%\<close> kept or
  escaped, hex digits in either case.
\<close>

theorem percent_round_trip:
  assumes "encodes e s" and "utf8_valid s"
  shows "percent_decode e = s"
  using assms by (simp add: percent_decode_def decode_encodes lossy_valid)

lemma percent_round_trip_witness: "percent_decode (lit ''a%2Fb%2f'') = lit ''a/b/''"
proof -
  have "hex_digit 0x32 = Some 2" "hex_digit 0x46 = Some 15" "hex_digit 0x66 = Some 15" by code_simp+
  then have "encodes (0x25 # 0x32 # 0x46 # e) (word_of_nat (2 * 16 + 15) # s)"
    "encodes (0x25 # 0x32 # 0x66 # e) (word_of_nat (2 * 16 + 15) # s)" if "encodes e s" for e s
    using that by (simp_all only: encodes_escape)
  then have "encodes (lit ''a%2Fb%2f'') (lit ''a/b/'')"
    by (simp add: lit_def encodes_plain encodes_Nil)
  then show ?thesis by (rule percent_round_trip) (rule ascii_valid, simp add: lit_def)
qed

text \<open>
  C32 (functional). A statement with a sqlcommenter comment joins the trace named in it, or is not traced
  when that trace is not sampled; a valid value of the setting decides before any comment does. No
  random number is drawn in either case.
\<close>

theorem sqlcommenter_joins_trace:
  assumes "w3c_otel ot" and "length tid = 16" and "length sid = 8"
    and "tid \<noteq> TRACE_ID_INVALID" and "sid \<noteq> SPAN_ID_INVALID"
    and "0x2A \<notin> set pre" and "utf8_valid pre" and "utf8_valid post"
    and "Option.bind guc (parse_traceparent ot) = None"
    and "decision = (if sampled then Trace \<lparr>pc_trace_id = tid, pc_span_id = sid, pc_is_remote = True\<rparr> else Skip)"
  shows "decide_parent ot guc
      (Some (pre @ lit ''/*'' @ commenter (traceparent_header tid sid sampled) @ lit ''*/'' @ post)) r =
        Some (Some (decision, r)) \<and>
    decide_parent ot (Some (traceparent_header tid sid sampled)) q r = Some (Some (decision, r))"
proof -
  let ?h = "traceparent_header tid sid sampled"
  let ?t = "pre @ lit ''/*'' @ commenter ?h @ lit ''*/'' @ post"
  have p: "parse_traceparent ot ?h = Some \<lparr>cx_trace_id = tid, cx_span_id = sid, cx_is_sampled = sampled\<rparr>"
    using assms(1-5) by (rule parse_header)
  have h: "list_all header_byte ?h" "?h \<noteq> []" by (rule header_bytes) (simp add: traceparent_header_def lit_def)
  obtain cs where "block_comments ?t = Some (commenter ?h # cs)"
    using commenter_first [OF assms(6) h assms(7,8)] by blast
  moreover have "has_window ?t"
    using has_window_append [OF has_window_key, of "pre @ lit ''/*''" "lit ''='' @ [0x27] @ ?h @ [0x27] @ lit ''*/'' @ post"]
    by (simp add: commenter_def lit_def)
  ultimately have "traceparent_from_comments ot ?t = Some (Some \<lparr>cx_trace_id = tid, cx_span_id = sid, cx_is_sampled = sampled\<rparr>)"
    using p commenter_values [OF h] by (simp add: traceparent_from_comments_def)
  then show ?thesis using assms(9,10) p by (simp add: decide_parent_def from_remote_def)
qed

lemma sqlcommenter_joins_trace_witness:
  "decide_parent demo_otel (Some (lit ''junk''))
      (Some (lit ''SELECT 1 '' @ lit ''/*'' @ commenter (traceparent_header (replicate 16 1) (replicate 8 2) True) @
             lit ''*/'' @ lit '';'')) \<lparr>draws128 = [], draws64 = []\<rparr> =
        Some (Some (Trace \<lparr>pc_trace_id = replicate 16 1, pc_span_id = replicate 8 2, pc_is_remote = True\<rparr>,
                    \<lparr>draws128 = [], draws64 = []\<rparr>)) \<and>
    decide_parent demo_otel (Some (traceparent_header (replicate 16 1) (replicate 8 2) True)) None \<lparr>draws128 = [], draws64 = []\<rparr> =
        Some (Some (Trace \<lparr>pc_trace_id = replicate 16 1, pc_span_id = replicate 8 2, pc_is_remote = True\<rparr>,
                    \<lparr>draws128 = [], draws64 = []\<rparr>))"
proof (rule sqlcommenter_joins_trace [OF demo_otel_w3c])
  show "(replicate 16 1 :: bytes) \<noteq> TRACE_ID_INVALID" "(replicate 8 2 :: bytes) \<noteq> SPAN_ID_INVALID"
    by (simp_all add: TRACE_ID_INVALID_def SPAN_ID_INVALID_def)
  show "utf8_valid (lit ''SELECT 1 '')" "utf8_valid (lit '';'')" by (rule ascii_valid, simp add: lit_def)+
  have "has_traceparent_shape (trim (lit ''junk'')) = False" by code_simp
  then show "Option.bind (Some (lit ''junk'')) (parse_traceparent demo_otel) = None" by (simp add: parse_traceparent_def)
qed (simp_all add: lit_def)

text \<open>
  Drawing an identifier returns as soon as the generator gives a value other than zero,
  and only then; the identifier is never the invalid one.
\<close>

theorem random_ids_returned:
  "(case random_trace_id r of
      None \<Rightarrow> set (draws128 r) \<subseteq> {0}
    | Some (i, r') \<Rightarrow> i \<noteq> TRACE_ID_INVALID \<and> length i = 16 \<and> \<not> set (draws128 r) \<subseteq> {0} \<and> draws64 r' = draws64 r) \<and>
   (case random_span_id r of
      None \<Rightarrow> set (draws64 r) \<subseteq> {0}
    | Some (i, r') \<Rightarrow> i \<noteq> SPAN_ID_INVALID \<and> length i = 8 \<and> \<not> set (draws64 r) \<subseteq> {0} \<and> draws128 r' = draws128 r)"
proof -
  have none: "random_id_loop invalid ws = None \<longleftrightarrow> set ws \<subseteq> {0}"
    if "\<And>w :: 'a::len word. be_bytes w = invalid \<longleftrightarrow> w = 0" for invalid and ws :: "'a::len word list"
    using that by (induction ws) (auto simp: Let_def)
  note n = none [OF be_bytes_ids(1)] none [OF be_bytes_ids(2)]
  show ?thesis
    using n(1) [of "draws128 r"] n(2) [of "draws64 r"] random_trace_id_valid [of r] random_span_id_valid [of r]
    by (auto simp: random_trace_id_def random_span_id_def split: option.splits prod.splits)
qed

end
