(* ===== verification/Sanitize.thy ===== *)
theory Sanitize
  imports Utf8
begin

text \<open>
  Sanitization of SQL text before it is exported (\<open>src/sanitize.rs\<close>): cutting out the current
  statement, normalizing it by masking every literal, and truncating it.

  Postgres' scanner, \<open>CleanQuerytext\<close> and the server encoding are parameters (\<open>pg_text\<close>): the
  scanner is the list of calls of \<open>core_yylex\<close> it answers before it ends or raises an error. A
  \<open>c_int\<close> is an \<open>int\<close>, its saturating addition written out. A string is its UTF-8 bytes, so the
  classes of characters that \<open>would_fuse\<close> uses are decided on the byte next to the seam: every
  character outside ASCII counts as part of a word. An index out of range panics: the outer
  \<open>None\<close> of \<open>render\<close>.
\<close>

section \<open>Tokens\<close>

definition FCONST :: int where "FCONST = 260"
definition SCONST :: int where "SCONST = 261"
definition USCONST :: int where "USCONST = 262"
definition BCONST :: int where "BCONST = 263"
definition XCONST_code :: int where "XCONST_code = 264"
definition ICONST :: int where "ICONST = 266"
definition PARAM :: int where "PARAM = 267"
definition END_OF_INPUT :: int where "END_OF_INPUT = 0"

definition MAX_NORMALIZE_INPUT_BYTES :: nat where
  "MAX_NORMALIZE_INPUT_BYTES = 64 * 1024"

datatype token_kind = Constant | Param int | Other

definition from_code :: "int \<Rightarrow> int \<Rightarrow> token_kind" where
  "from_code code ival =
     (if code \<in> {FCONST, SCONST, USCONST, BCONST, XCONST_code, ICONST} then Constant
      else if code = PARAM then Param ival
      else Other)"

record token =
  tk_kind :: token_kind
  tk_start :: nat
  tk_end :: nat

record compaction =
  cp_start :: nat
  cp_end :: nat
  additional_columns :: nat

section \<open>The current statement\<close>

text \<open>\<open>total\<close> bytes of text; \<open>i32::try_from\<close> fails above \<open>i32::MAX\<close>.\<close>

definition validated_range :: "nat \<Rightarrow> int \<Rightarrow> int \<Rightarrow> (int \<times> int) option" where
  "validated_range tot stmt_location stmt_len =
     (if int tot > 2 ^ 31 - 1 then None
      else if stmt_location < 0 then Some (- 1, 0)
      else if stmt_location > int tot then None
      else let rest = int tot - stmt_location
           in Some (stmt_location, if stmt_len > rest then 0 else stmt_len))"

text \<open>
  One call of the scanner: the token code, \<open>yylval.ival\<close>, the token's location and its length up to
  the NUL that flex puts behind it.
\<close>

record scan_item =
  sc_code :: int
  sc_ival :: int
  sc_loc :: int
  sc_len :: nat

text \<open>
  \<open>pt_scan\<close>: the scanner's answers for a text, and whether it raises an error after them.
\<close>

record pg_text =
  pt_clean :: "bytes \<Rightarrow> int \<times> int \<Rightarrow> int \<times> int"
  pt_utf8 :: bool
  pt_scan :: "bytes \<Rightarrow> scan_item list \<times> bool"

text \<open>\<open>i as usize\<close> and \<open>bytes.get(a..b)\<close>.\<close>

definition as_usize :: "int \<Rightarrow> nat" where
  "as_usize i = nat (i mod 2 ^ 64)"

definition wrap_i32 :: "int \<Rightarrow> int" where
  "wrap_i32 i = (i + 2 ^ 31) mod 2 ^ 32 - 2 ^ 31"

definition bytes_get :: "bytes \<Rightarrow> nat \<Rightarrow> nat \<Rightarrow> bytes option" where
  "bytes_get s a b = (if a \<le> b \<and> b \<le> length s then Some (take (b - a) (drop a s)) else None)"

definition current_statement :: "pg_text \<Rightarrow> bytes option \<Rightarrow> int \<Rightarrow> int \<Rightarrow> str option" where
  "current_statement pg source_text stmt_location stmt_len =
     (case source_text of
        None \<Rightarrow> None
      | Some bytes \<Rightarrow>
          (case validated_range (length bytes) stmt_location stmt_len of
             None \<Rightarrow> None
           | Some rng \<Rightarrow>
               (case pt_clean pg bytes rng of (location, len) \<Rightarrow>
                  (case bytes_get bytes (as_usize location) (as_usize (wrap_i32 (location + len))) of
                     None \<Rightarrow> None
                   | Some b \<Rightarrow> if utf8_lossy b = [] then None else Some (utf8_lossy b)))))"

section \<open>Message suppression\<close>

text \<open>The two level variables of the backend; the second may not exist.\<close>

record levels =
  client_min_messages :: int
  log_min_messages :: "int option"

text \<open>\<open>ERROR\<close> of \<open>elog.h\<close>.\<close>

definition SUPPRESSION_LEVEL :: int where
  "SUPPRESSION_LEVEL = 21"

record message_suppression =
  saved_client :: int
  saved_log :: int

definition suppression_new :: "levels \<Rightarrow> message_suppression \<times> levels" where
  "suppression_new l =
     (let saved = \<lparr>saved_client = client_min_messages l,
                   saved_log = (case log_min_messages l of None \<Rightarrow> SUPPRESSION_LEVEL | Some v \<Rightarrow> v)\<rparr>
      in (saved,
          \<lparr>client_min_messages = max (saved_client saved) SUPPRESSION_LEVEL,
           log_min_messages = map_option (\<lambda>_. max (saved_log saved) SUPPRESSION_LEVEL) (log_min_messages l)\<rparr>))"

definition suppression_drop :: "message_suppression \<Rightarrow> levels \<Rightarrow> levels" where
  "suppression_drop saved l =
     \<lparr>client_min_messages = saved_client saved,
      log_min_messages = map_option (\<lambda>_. saved_log saved) (log_min_messages l)\<rparr>"

section \<open>Scanning\<close>

text \<open>The loop of \<open>scan_tokens\<close>; a location that does not fit a \<open>usize\<close> ends it without tokens.\<close>

fun scan_loop :: "token list \<Rightarrow> scan_item list \<Rightarrow> token list option" where
  "scan_loop tokens [] = Some tokens"
| "scan_loop tokens (i # is) =
     (if sc_code i = END_OF_INPUT then Some tokens
      else if sc_loc i < 0 then None
      else let start = nat (sc_loc i)
           in scan_loop
                (tokens @ [\<lparr>tk_kind = from_code (sc_code i) (sc_ival i), tk_start = start,
                            tk_end = start + sc_len i\<rparr>]) is)"

definition scan_tokens :: "pg_text \<Rightarrow> bytes \<Rightarrow> (unit + token list option)" where
  "scan_tokens pg sql =
     (case pt_scan pg sql of (items, error) \<Rightarrow>
        if error \<and> (\<forall>i \<in> set items. sc_code i \<noteq> END_OF_INPUT \<and> 0 \<le> sc_loc i) then Inl ()
        else Inr (scan_loop [] items))"

text \<open>\<open>lex\<close>: an error of the scanner is caught; the levels are restored in every case.\<close>

definition lex :: "pg_text \<Rightarrow> bytes \<Rightarrow> levels \<Rightarrow> token list option \<times> levels" where
  "lex pg sql l =
     (case suppression_new l of (saved, quiet) \<Rightarrow>
        ((case scan_tokens pg sql of Inl _ \<Rightarrow> None | Inr r \<Rightarrow> r), suppression_drop saved quiet))"

section \<open>Select lists\<close>

definition tok_text :: "str \<Rightarrow> token \<Rightarrow> str option" where
  "tok_text sql t = str_get sql (tk_start t) (tk_end t)"

fun texts :: "str \<Rightarrow> token list \<Rightarrow> str list option" where
  "texts sql [] = Some []"
| "texts sql (t # ts) =
     (case tok_text sql t of
        None \<Rightarrow> None
      | Some x \<Rightarrow> map_option (Cons x) (texts sql ts))"

fun depths_from :: "int \<Rightarrow> str list \<Rightarrow> int list" where
  "depths_from depth [] = []"
| "depths_from depth (x # xs) =
     depth # depths_from
       (if x = lit ''('' then depth + 1 else if x = lit '')'' then depth - 1 else depth) xs"

definition select_list_terminator :: "str \<Rightarrow> bool" where
  "select_list_terminator t \<longleftrightarrow>
     list_ex (\<lambda>k. eq_ignore_ascii_case t (lit k))
       [''EXCEPT'', ''FETCH'', ''FOR'', ''FROM'', ''GROUP'', ''HAVING'', ''INTO'', ''INTERSECT'',
        ''LIMIT'', ''OFFSET'', ''ORDER'', ''UNION'', ''WHERE'', ''WINDOW'']"

text \<open>
  The scan behind one \<open>SELECT\<close>: tokens \<open>i\<close>, \<open>i + 1\<close>, \<dots> with their depths, up to the end of its list.
  The result is the end, the first comma and the number of commas.
\<close>

fun scan_list ::
    "int \<Rightarrow> nat \<Rightarrow> nat option \<Rightarrow> nat \<Rightarrow> (str \<times> int) list \<Rightarrow> nat \<times> nat option \<times> nat" where
  "scan_list d i comma cols [] = (i, comma, cols)"
| "scan_list d i comma cols ((x, dx) # rest) =
     (if dx \<noteq> d then scan_list d (i + 1) comma cols rest
      else if x = lit '')'' \<or> x = lit '';'' \<or> select_list_terminator x then (i, comma, cols)
      else if x = lit '',''
        then scan_list d (i + 1) (Some (case comma of None \<Rightarrow> i | Some c \<Rightarrow> c)) (cols + 1) rest
      else scan_list d (i + 1) comma cols rest)"

text \<open>The outer loop over the tokens, \<open>i\<close> the index of the first one.\<close>

fun find_lists :: "nat \<Rightarrow> (str \<times> int) list \<Rightarrow> compaction list" where
  "find_lists i [] = []"
| "find_lists i ((x, d) # rest) =
     (if eq_ignore_ascii_case x (lit ''SELECT'') then
        (case scan_list d (i + 1) None 0 rest of
           (e, Some c, cols) \<Rightarrow> \<lparr>cp_start = c, cp_end = e, additional_columns = cols\<rparr> # find_lists (i + 1) rest
         | (e, None, cols) \<Rightarrow> find_lists (i + 1) rest)
      else find_lists (i + 1) rest)"

text \<open>Ranges that begin before the end of the last one kept are dropped; \<open>e\<close> is that end.\<close>

fun non_overlapping :: "nat \<Rightarrow> compaction list \<Rightarrow> compaction list" where
  "non_overlapping e [] = []"
| "non_overlapping e (c # cs) =
     (if e \<le> cp_start c then c # non_overlapping (cp_end c) cs else non_overlapping e cs)"

definition compactions_of :: "str list \<Rightarrow> compaction list" where
  "compactions_of xs = non_overlapping 0 (sort_key cp_start (find_lists 0 (zip xs (depths_from 0 xs))))"

definition select_list_compactions :: "str \<Rightarrow> token list \<Rightarrow> compaction list option" where
  "select_list_compactions sql tokens = map_option compactions_of (texts sql tokens)"

section \<open>Rendering\<close>

definition is_word :: "byte \<Rightarrow> bool" where
  "is_word b \<longleftrightarrow>
     (0x30 \<le> b \<and> b \<le> 0x39) \<or> (0x41 \<le> b \<and> b \<le> 0x5A) \<or> (0x61 \<le> b \<and> b \<le> 0x7A) \<or>
     b = 0x5F \<or> b = 0x24 \<or> 0x80 \<le> b"

definition would_fuse :: "str \<Rightarrow> str \<Rightarrow> bool" where
  "would_fuse out nxt \<longleftrightarrow> out \<noteq> [] \<and> nxt \<noteq> [] \<and> is_word (last out) \<and> is_word (hd nxt)"

text \<open>\<open>saturating_add(1)\<close> of a \<open>c_int\<close>.\<close>

definition sat_inc :: "int \<Rightarrow> int" where
  "sat_inc n = min (n + 1) (2 ^ 31 - 1)"

definition param_numbers :: "token list \<Rightarrow> int list" where
  "param_numbers ts = concat (map (\<lambda>t. case tk_kind t of Param n \<Rightarrow> [n] | _ \<Rightarrow> []) ts)"

definition first_placeholder :: "token list \<Rightarrow> int" where
  "first_placeholder ts =
     (case param_numbers ts of [] \<Rightarrow> 1 | n # ns \<Rightarrow> sat_inc (fold max ns n))"

definition placeholder :: "int \<Rightarrow> str" where
  "placeholder n = lit ''$'' @ dec_int n"

text \<open>The tokens of a compacted range: their constants use up numbers, their order is checked.\<close>

fun skip_tokens :: "str \<Rightarrow> int \<Rightarrow> nat option \<Rightarrow> token list \<Rightarrow> (int \<times> nat option) option" where
  "skip_tokens sql nxt last_end [] = Some (nxt, last_end)"
| "skip_tokens sql nxt last_end (t # ts) =
     (let nxt' = (if tk_kind t = Constant then sat_inc nxt else nxt)
      in case tok_text sql t of
           None \<Rightarrow> None
         | Some _ \<Rightarrow>
             (case last_end of
                Some e \<Rightarrow> if tk_start t < e then None else skip_tokens sql nxt' (Some (tk_end t)) ts
              | None \<Rightarrow> skip_tokens sql nxt' (Some (tk_end t)) ts))"

definition more_columns :: "nat \<Rightarrow> str" where
  "more_columns n = lit '', ...('' @ dec_nat n @ lit '' more columns)''"

definition separated :: "str \<Rightarrow> bool \<Rightarrow> str \<Rightarrow> str" where
  "separated out gap text = (if (gap \<or> would_fuse out text) \<and> out \<noteq> [] then out @ lit '' '' else out) @ text"

text \<open>
  The loop of \<open>render\<close> over the compactions left and the position in the tokens. Outer \<open>None\<close>: a
  slice range out of order or out of bounds panics. Inner \<open>None\<close>: inconsistent tokens.
\<close>

function render_loop ::
    "str \<Rightarrow> token list \<Rightarrow> compaction list \<Rightarrow> int \<Rightarrow> str \<Rightarrow> nat option \<Rightarrow> nat \<Rightarrow> str option option" where
  "render_loop sql tokens cs nxt out prev i =
     (if length tokens \<le> i then Some (Some out)
      else if cs \<noteq> [] \<and> cp_start (hd cs) = i then
        (if cp_end (hd cs) < cp_start (hd cs) \<or> length tokens < cp_end (hd cs) then None
         else case skip_tokens sql nxt prev
                     (take (cp_end (hd cs) - cp_start (hd cs)) (drop (cp_start (hd cs)) tokens)) of
                None \<Rightarrow> Some None
              | Some (nxt', prev') \<Rightarrow>
                  render_loop sql tokens (tl cs) nxt' (out @ more_columns (additional_columns (hd cs)))
                    prev' (cp_end (hd cs)))
      else
        let t = tokens ! i in
        (case (case tk_kind t of Constant \<Rightarrow> Some (placeholder nxt) | _ \<Rightarrow> tok_text sql t) of
           None \<Rightarrow> Some None
         | Some text \<Rightarrow>
             let nxt' = (if tk_kind t = Constant then sat_inc nxt else nxt) in
             (case prev of
                Some e \<Rightarrow>
                  if tk_start t < e then Some None
                  else render_loop sql tokens cs nxt' (separated out (tk_start t > e) text) (Some (tk_end t)) (i + 1)
              | None \<Rightarrow>
                  render_loop sql tokens cs nxt' (separated out False text) (Some (tk_end t)) (i + 1))))"
  by pat_completeness auto
termination
  by (relation "measures [\<lambda>(sql, ts, cs, n, out, p, i). length cs, \<lambda>(sql, ts, cs, n, out, p, i). length ts - i]")
     auto

declare render_loop.simps [simp del]

definition render :: "str \<Rightarrow> token list \<Rightarrow> str option option" where
  "render sql tokens =
     (case select_list_compactions sql tokens of
        None \<Rightarrow> Some None
      | Some cs \<Rightarrow> render_loop sql tokens cs (first_placeholder tokens) [] None 0)"

section \<open>Normalizing, truncating, sanitizing\<close>

definition normalize :: "pg_text \<Rightarrow> str \<Rightarrow> levels \<Rightarrow> (str option \<times> levels) option" where
  "normalize pg sql l =
     (if length sql > MAX_NORMALIZE_INPUT_BYTES \<or> \<not> pt_utf8 pg then Some (None, l)
      else if 0 \<in> set sql then Some (None, l)
      else case lex pg sql l of
             (None, l') \<Rightarrow> Some (None, l')
           | (Some tokens, l') \<Rightarrow> map_option (\<lambda>r. (r, l')) (render sql tokens))"

fun boundary_before :: "str \<Rightarrow> nat \<Rightarrow> nat" where
  "boundary_before s 0 = 0"
| "boundary_before s (Suc n) = (if is_char_boundary s (Suc n) then Suc n else boundary_before s n)"

definition truncate_utf8 :: "str \<Rightarrow> nat \<Rightarrow> str" where
  "truncate_utf8 s max_bytes =
     (if length s \<le> max_bytes then s else take (boundary_before s max_bytes) s)"

definition sanitize ::
    "pg_text \<Rightarrow> bytes option \<Rightarrow> int \<Rightarrow> int \<Rightarrow> bool \<Rightarrow> nat \<Rightarrow> levels \<Rightarrow> (str option \<times> levels) option" where
  "sanitize pg source_text stmt_location stmt_len normalize_text max_len l =
     (case current_statement pg source_text stmt_location stmt_len of
        None \<Rightarrow> Some (None, l)
      | Some statement \<Rightarrow>
          map_option
            (\<lambda>(text, l'). (map_option (\<lambda>t. truncate_utf8 t max_len) text, l'))
            (if normalize_text then normalize pg statement l else Some (Some statement, l)))"

section \<open>Truncation\<close>

lemma boundary_before_le: "boundary_before s n \<le> n"
  by (induction n) auto

lemma boundary_before_boundary: "is_char_boundary s (boundary_before s n)"
  by (induction n) (auto simp: is_char_boundary_def)

lemma boundary_before_greatest: "is_char_boundary s m \<Longrightarrow> m \<le> n \<Longrightarrow> m \<le> boundary_before s n"
proof (induction n)
  case (Suc n)
  show ?case
  proof (cases "m = Suc n")
    case False
    with Suc show ?thesis by auto
  qed (use Suc in simp)
qed simp

lemma truncate_valid: "utf8_valid s \<Longrightarrow> utf8_valid (truncate_utf8 s n)"
  using valid_split [OF _ boundary_before_boundary] by (auto simp: truncate_utf8_def)

lemma truncate_length: "length (truncate_utf8 s n) \<le> n"
  using boundary_before_le [of s n] by (auto simp: truncate_utf8_def min_def)

lemma truncate_prefix: "\<exists>rest. s = truncate_utf8 s n @ rest"
  by (auto simp: truncate_utf8_def intro: exI [of _ "drop (boundary_before s n) s"])

lemma truncate_longest:
  assumes "s = t @ rest" and "length t \<le> n" and "utf8_valid rest"
  shows "length t \<le> length (truncate_utf8 s n)"
proof (cases "length s \<le> n")
  case True
  then show ?thesis using assms by (simp add: truncate_utf8_def)
next
  case False
  have "is_char_boundary s (length t)" using valid_boundary [OF assms(3)] assms(1) by simp
  then have "length t \<le> boundary_before s n" using assms(2) by (rule boundary_before_greatest)
  moreover have "boundary_before s n \<le> length s" using boundary_before_le [of s n] False by simp
  ultimately show ?thesis using False by (simp add: truncate_utf8_def)
qed

section \<open>Compactions\<close>

lemma scan_list_bounds:
  assumes "scan_list d i comma cols xs = (e, comma', cols')"
    and "\<And>c. comma = Some c \<Longrightarrow> c < i"
  shows "i \<le> e \<and> e \<le> i + length xs \<and> (\<forall>c. comma' = Some c \<longrightarrow> c < e \<and> (comma = Some c \<or> i \<le> c))"
  using assms
proof (induction d i comma cols xs rule: scan_list.induct)
  case (1 d i comma cols)
  then show ?case by auto
next
  case (2 d i comma cols x dx rest)
  consider "dx \<noteq> d" | "dx = d" "x = lit '')'' \<or> x = lit '';'' \<or> select_list_terminator x"
    | "dx = d" "\<not> (x = lit '')'' \<or> x = lit '';'' \<or> select_list_terminator x)" "x = lit '',''"
    | "dx = d" "\<not> (x = lit '')'' \<or> x = lit '';'' \<or> select_list_terminator x)" "x \<noteq> lit '',''"
    by blast
  then show ?case
  proof cases
    case 1
    then have "scan_list d (i + 1) comma cols rest = (e, comma', cols')" using 2(4) by simp
    from 2(1) [OF 1 this] 2(5) show ?thesis by fastforce
  next
    case c: 2
    then show ?thesis using 2(4,5) by auto
  next
    case c: 3
    let ?c = "case comma of None \<Rightarrow> i | Some c \<Rightarrow> c"
    have "scan_list d (i + 1) (Some ?c) (cols + 1) rest = (e, comma', cols')"
      using 2(4) c by simp
    moreover have "?c < i + 1" using 2(5) by (auto split: option.splits)
    ultimately have "i + 1 \<le> e \<and> e \<le> i + 1 + length rest \<and>
        (\<forall>a. comma' = Some a \<longrightarrow> a < e \<and> (Some ?c = Some a \<or> i + 1 \<le> a))"
      using 2(2) [OF _ c(2,3)] c(1) by fastforce
    then show ?thesis by (auto split: option.splits)
  next
    case c: 4
    then have "scan_list d (i + 1) comma cols rest = (e, comma', cols')" using 2(4) by simp
    from 2(3) [OF _ c(2,3) this] c(1) 2(5) show ?thesis by fastforce
  qed
qed

lemma find_lists_bounds:
  "c \<in> set (find_lists i xs) \<Longrightarrow> i < cp_start c \<and> cp_start c < cp_end c \<and> cp_end c \<le> i + length xs"
proof (induction xs arbitrary: i)
  case (Cons xd rest)
  obtain x d where xd: "xd = (x, d)" by (cases xd)
  obtain e comma cols where s: "scan_list d (i + 1) None 0 rest = (e, comma, cols)"
    by (cases "scan_list d (i + 1) None 0 rest")
  note b = scan_list_bounds [OF s]
  show ?case
  proof (cases "c \<in> set (find_lists (i + 1) rest)")
    case True
    from Cons.IH [OF this] show ?thesis by simp
  next
    case False
    then obtain a where "comma = Some a" "c = \<lparr>cp_start = a, cp_end = e, additional_columns = cols\<rparr>"
      using Cons.prems s xd by (auto split: if_splits option.splits)
    then show ?thesis using b by auto
  qed
qed simp

text \<open>Ranges in order, none empty, none overlapping, all within the first \<open>n\<close> tokens from \<open>i\<close> on.\<close>

fun ranges_ok :: "nat \<Rightarrow> nat \<Rightarrow> compaction list \<Rightarrow> bool" where
  "ranges_ok i n [] = True"
| "ranges_ok i n (c # cs) =
     (i \<le> cp_start c \<and> cp_start c < cp_end c \<and> cp_end c \<le> n \<and> ranges_ok (cp_end c) n cs)"

lemma non_overlapping_ok:
  assumes "\<forall>c \<in> set cs. cp_start c < cp_end c \<and> cp_end c \<le> n"
  shows "ranges_ok e n (non_overlapping e cs)"
  using assms by (induction e cs rule: non_overlapping.induct) auto

lemma compactions_ok: "ranges_ok 0 (length xs) (compactions_of xs)"
proof -
  have len: "length (depths_from d xs) = length xs" for d
    by (induction xs arbitrary: d) auto
  show ?thesis
    unfolding compactions_of_def
    using find_lists_bounds [of _ 0 "zip xs (depths_from 0 xs)"] len
    by (intro non_overlapping_ok) fastforce
qed

lemma ranges_ok_mono: "ranges_ok i n cs \<Longrightarrow> j \<le> i \<Longrightarrow> ranges_ok j n cs"
  by (cases cs) auto

lemma texts_length: "texts sql ts = Some xs \<Longrightarrow> length xs = length ts"
  by (induction ts arbitrary: xs) (auto split: option.splits)

lemma texts_nth: "texts sql ts = Some xs \<Longrightarrow> i < length ts \<Longrightarrow> tok_text sql (ts ! i) = Some (xs ! i)"
  by (induction ts arbitrary: xs i) (auto split: option.splits simp: nth_Cons')

section \<open>The loop never panics\<close>

lemma render_loop_total:
  "ranges_ok i (length tokens) cs \<Longrightarrow> render_loop sql tokens cs nxt out prev i \<noteq> None"
proof (induction sql tokens cs nxt out prev i rule: render_loop.induct)
  case (1 sql tokens cs nxt out prev i)
  show ?case
  proof (cases "i < length tokens \<and> cs \<noteq> [] \<and> cp_start (hd cs) = i")
    case True
    then obtain c cs' where cs: "cs = c # cs'" "cp_start c = i" "i < length tokens" by (cases cs) auto
    have c: "\<not> (cp_end c < cp_start c \<or> length tokens < cp_end c)" "ranges_ok (cp_end c) (length tokens) cs'"
      using "1.prems" cs by auto
    show ?thesis
      using "1.IH"(1) [of "fst _" "snd _"] cs c
      by (subst render_loop.simps) (auto split: option.splits)
  next
    case False
    then have next_ok: "i < length tokens \<Longrightarrow> ranges_ok (i + 1) (length tokens) cs"
      using "1.prems" by (cases cs) auto
    show ?thesis
      using "1.IH"(2,3) False next_ok
      by (subst render_loop.simps) (auto simp: Let_def split: option.splits)
  qed
qed

text \<open>One step of the loop, when the position is inside the tokens.\<close>

definition token_text :: "str \<Rightarrow> int \<Rightarrow> token \<Rightarrow> str option" where
  "token_text sql nxt t = (case tk_kind t of Constant \<Rightarrow> Some (placeholder nxt) | _ \<Rightarrow> tok_text sql t)"

definition prev_of :: "token list \<Rightarrow> nat \<Rightarrow> nat option" where
  "prev_of ts i = (if i = 0 then None else Some (tk_end (ts ! (i - 1))))"

definition bump :: "token \<Rightarrow> int \<Rightarrow> int" where
  "bump t nxt = (if tk_kind t = Constant then sat_inc nxt else nxt)"

lemma render_loop_end: "length ts \<le> i \<Longrightarrow> render_loop sql ts cs nxt out prev i = Some (Some out)"
  by (subst render_loop.simps) simp

lemma render_loop_token:
  assumes "i < length ts" and "\<not> (cs \<noteq> [] \<and> cp_start (hd cs) = i)"
  shows "render_loop sql ts cs nxt out (prev_of ts i) i =
    (case token_text sql nxt (ts ! i) of
       None \<Rightarrow> Some None
     | Some text \<Rightarrow>
         if 0 < i \<and> tk_start (ts ! i) < tk_end (ts ! (i - 1)) then Some None
         else render_loop sql ts cs (bump (ts ! i) nxt)
                (separated out (0 < i \<and> tk_end (ts ! (i - 1)) < tk_start (ts ! i)) text) (prev_of ts (i + 1)) (i + 1))"
  using assms
  by (subst render_loop.simps)
     (auto simp: token_text_def prev_of_def bump_def Let_def split: option.splits)

lemma render_loop_compact:
  assumes "i < length ts" and "cs = c # cs'" and "cp_start c = i" and "cp_start c < cp_end c" and "cp_end c \<le> length ts"
  shows "render_loop sql ts cs nxt out prev i =
    (case skip_tokens sql nxt prev (take (cp_end c - i) (drop i ts)) of
       None \<Rightarrow> Some None
     | Some (nxt', prev') \<Rightarrow>
         render_loop sql ts cs' nxt' (out @ more_columns (additional_columns c)) prev' (cp_end c))"
  using assms by (subst render_loop.simps) (auto split: option.splits)

text \<open>Skipping ends behind the last token skipped.\<close>

lemma skip_tokens_prev:
  assumes "skip_tokens sql nxt (prev_of ts i) (take k (drop i ts)) = Some (nxt', prev')" and "i + k \<le> length ts"
  shows "prev' = prev_of ts (i + k) \<and> nxt' = fold bump (take k (drop i ts)) nxt"
  using assms
proof (induction k arbitrary: i nxt)
  case (Suc k)
  then have i: "i < length ts" by simp
  then have d: "take (Suc k) (drop i ts) = ts ! i # take k (drop (i + 1) ts)"
    by (metis Cons_nth_drop_Suc Suc_eq_plus1 take_Suc_Cons)
  have "skip_tokens sql (bump (ts ! i) nxt) (prev_of ts (i + 1)) (take k (drop (i + 1) ts)) = Some (nxt', prev')"
    using Suc.prems(1) unfolding d
    by (auto simp: prev_of_def bump_def Let_def split: option.splits if_splits)
  from Suc.IH [OF this] Suc.prems(2) show ?case unfolding d by simp
qed simp

section \<open>The output is valid UTF-8\<close>

lemma lit_ascii: "list_all (\<lambda>c. of_char c < (0x80 :: byte)) s \<Longrightarrow> list_all (\<lambda>b. b < 0x80) (lit s)"
  by (simp add: lit_def list_all_iff)

lemma placeholder_valid: "utf8_valid (placeholder n)"
  using dec_int_ascii [of n] by (intro ascii_valid) (simp add: placeholder_def lit_def)

lemma more_columns_valid: "utf8_valid (more_columns n)"
  using dec_nat_ascii [of n] by (intro ascii_valid) (simp add: more_columns_def lit_def)

lemma separated_valid: "utf8_valid out \<Longrightarrow> utf8_valid text \<Longrightarrow> utf8_valid (separated out gap text)"
proof -
  assume v: "utf8_valid out" "utf8_valid text"
  have "utf8_valid (lit '' '')" by (rule ascii_valid) (simp add: lit_def)
  with v have "utf8_valid (out @ lit '' '' @ text)" by (simp add: valid_append)
  with v show ?thesis by (simp add: separated_def valid_append)
qed

lemma token_text_valid: "utf8_valid sql \<Longrightarrow> token_text sql nxt t = Some x \<Longrightarrow> utf8_valid x"
  using str_get_valid [of sql] placeholder_valid
  by (auto simp: token_text_def tok_text_def split: token_kind.splits)

text \<open>
  Induction along the loop: at the end, at a compaction and at a token. \<open>P\<close> speaks of the state at a
  position whose compactions are in range.
\<close>

lemma loop_induct [consumes 1, case_names finished compact token]:
  assumes "ranges_ok i (length ts) cs"
    and "\<And>i cs nxt out. length ts \<le> i \<Longrightarrow> P i cs nxt out"
    and "\<And>i c cs nxt out. i < length ts \<Longrightarrow> cp_start c = i \<Longrightarrow> i < cp_end c \<Longrightarrow> cp_end c \<le> length ts \<Longrightarrow>
      ranges_ok (cp_end c) (length ts) cs \<Longrightarrow> (\<And>nxt out. P (cp_end c) cs nxt out) \<Longrightarrow> P i (c # cs) nxt out"
    and "\<And>i cs nxt out. i < length ts \<Longrightarrow> \<not> (cs \<noteq> [] \<and> cp_start (hd cs) = i) \<Longrightarrow>
      ranges_ok (i + 1) (length ts) cs \<Longrightarrow> (\<And>nxt out. P (i + 1) cs nxt out) \<Longrightarrow> P i cs nxt out"
  shows "P i cs nxt out"
  using assms(1)
proof (induction "length ts - i" arbitrary: i cs nxt out rule: less_induct)
  case less
  show ?case
  proof (cases "i < length ts")
    case False
    then show ?thesis using assms(2) by simp
  next
    case i: True
    show ?thesis
    proof (cases "cs \<noteq> [] \<and> cp_start (hd cs) = i")
      case True
      then obtain c cs' where cs: "cs = c # cs'" "cp_start c = i" by (cases cs) auto
      then have c: "i < cp_end c" "cp_end c \<le> length ts" "ranges_ok (cp_end c) (length ts) cs'"
        using less.prems by auto
      then show ?thesis using assms(3) [OF i cs(2)] less.hyps i unfolding cs(1) by simp
    next
      case False
      then have r: "ranges_ok (i + 1) (length ts) cs" using less.prems by (cases cs) auto
      show ?thesis using assms(4) [OF i False r] less.hyps r i by simp
    qed
  qed
qed

lemma render_loop_valid:
  assumes "utf8_valid sql" and "ranges_ok i (length ts) cs"
  shows "utf8_valid out \<longrightarrow> render_loop sql ts cs nxt out (prev_of ts i) i = Some (Some res) \<longrightarrow> utf8_valid res"
  using assms(2)
proof (induction i cs nxt out rule: loop_induct [where ts = ts])
  case (finished i cs nxt out)
  then show ?case by (auto simp: render_loop_end)
next
  case (compact i c cs nxt out)
  show ?case
  proof (intro impI)
    assume out: "utf8_valid out" and r: "render_loop sql ts (c # cs) nxt out (prev_of ts i) i = Some (Some res)"
    obtain nxt' prev' where s: "skip_tokens sql nxt (prev_of ts i) (take (cp_end c - i) (drop i ts)) = Some (nxt', prev')"
      and r': "render_loop sql ts cs nxt' (out @ more_columns (additional_columns c)) prev' (cp_end c) = Some (Some res)"
      using r compact(1-4) by (subst (asm) render_loop_compact [OF compact(1) refl]) (auto split: option.splits)
    have "prev' = prev_of ts (cp_end c)"
      using skip_tokens_prev [OF s] compact(3,4) by simp
    moreover have "utf8_valid (out @ more_columns (additional_columns c))"
      using out more_columns_valid by (simp add: valid_append)
    ultimately show "utf8_valid res" using r' compact(6) by blast
  qed
next
  case (token i cs nxt out)
  show ?case
  proof (intro impI)
    assume out: "utf8_valid out" and r: "render_loop sql ts cs nxt out (prev_of ts i) i = Some (Some res)"
    then obtain tx gap where t: "token_text sql nxt (ts ! i) = Some tx"
      and r': "render_loop sql ts cs (bump (ts ! i) nxt) (separated out gap tx) (prev_of ts (i + 1)) (i + 1) =
        Some (Some res)"
      unfolding render_loop_token [OF token(1,2)] by (auto split: option.splits if_splits)
    have "utf8_valid (separated out gap tx)"
      using out token_text_valid [OF assms(1) t] by (rule separated_valid)
    with r' token(4) show "utf8_valid res" by blast
  qed
qed

section \<open>What the output depends on\<close>

text \<open>Token texts that select-list detection does not look at.\<close>

definition neutral :: "str \<Rightarrow> bool" where
  "neutral x \<longleftrightarrow>
     x \<notin> {lit ''('', lit '')'', lit '','', lit '';''} \<and> \<not> select_list_terminator x \<and>
     \<not> eq_ignore_ascii_case x (lit ''SELECT'')"

definition same_role :: "str \<Rightarrow> str \<Rightarrow> bool" where
  "same_role x y \<longleftrightarrow> x = y \<or> (neutral x \<and> neutral y)"

lemma depths_role: "list_all2 same_role xs ys \<Longrightarrow> depths_from d xs = depths_from d ys"
proof (induction xs ys arbitrary: d rule: list_all2_induct)
  case (Cons x xs y ys)
  then show ?case by (auto simp: same_role_def neutral_def)
qed simp

lemma scan_list_role:
  "list_all2 (\<lambda>a b. same_role (fst a) (fst b) \<and> snd a = snd b) xs ys \<Longrightarrow>
   scan_list d i comma cols xs = scan_list d i comma cols ys"
proof (induction xs ys arbitrary: i comma cols rule: list_all2_induct)
  case (Cons a xs b ys)
  then show ?case by (cases a; cases b) (auto simp: same_role_def neutral_def)
qed simp

lemma find_lists_role:
  "list_all2 (\<lambda>a b. same_role (fst a) (fst b) \<and> snd a = snd b) xs ys \<Longrightarrow> find_lists i xs = find_lists i ys"
proof (induction xs ys arbitrary: i rule: list_all2_induct)
  case (Cons a xs b ys)
  have "scan_list (snd a) (i + 1) None 0 xs = scan_list (snd a) (i + 1) None 0 ys"
    using Cons.hyps(2) by (rule scan_list_role)
  with Cons show ?case
    by (cases a; cases b) (auto simp: same_role_def neutral_def split: prod.splits option.splits)
qed simp

lemma compactions_role:
  assumes "list_all2 same_role xs ys"
  shows "compactions_of xs = compactions_of ys"
proof -
  have "list_all2 (\<lambda>a b. same_role (fst a) (fst b) \<and> snd a = snd b)
      (zip xs (depths_from 0 xs)) (zip ys (depths_from 0 ys))"
    unfolding depths_role [OF assms, of 0]
  proof (rule list_all2_all_nthI)
    show "length (zip xs (depths_from 0 ys)) = length (zip ys (depths_from 0 ys))"
      using list_all2_lengthD [OF assms] by simp
    show "same_role (fst (zip xs (depths_from 0 ys) ! n)) (fst (zip ys (depths_from 0 ys) ! n)) \<and>
        snd (zip xs (depths_from 0 ys) ! n) = snd (zip ys (depths_from 0 ys) ! n)"
      if "n < length (zip xs (depths_from 0 ys))" for n
      using that list_all2_nthD [OF assms, of n] list_all2_lengthD [OF assms] by simp
  qed
  then show ?thesis by (simp add: compactions_of_def find_lists_role)
qed

text \<open>
  Two texts with tokens that differ only in their constants: the same kinds, the same text for every
  other token, and adjacent tokens touch, overlap or stand apart in both alike. A constant has some
  text that select-list detection does not look at (a literal starts with a digit, a dot, a quote
  or a letter in front of a quote).
\<close>

definition token_sim :: "str \<Rightarrow> token \<Rightarrow> str \<Rightarrow> token \<Rightarrow> bool" where
  "token_sim sql t sql' t' \<longleftrightarrow>
     tk_kind t = tk_kind t' \<and>
     (if tk_kind t = Constant
      then \<exists>x y. tok_text sql t = Some x \<and> tok_text sql' t' = Some y \<and> neutral x \<and> neutral y
      else tok_text sql t = tok_text sql' t')"

definition masked_alike :: "str \<Rightarrow> token list \<Rightarrow> str \<Rightarrow> token list \<Rightarrow> bool" where
  "masked_alike sql ts sql' ts' \<longleftrightarrow>
     list_all2 (\<lambda>t t'. token_sim sql t sql' t') ts ts' \<and>
     (\<forall>i < length ts - 1.
        (tk_start (ts ! (i + 1)) < tk_end (ts ! i) \<longleftrightarrow> tk_start (ts' ! (i + 1)) < tk_end (ts' ! i)) \<and>
        (tk_end (ts ! i) < tk_start (ts ! (i + 1)) \<longleftrightarrow> tk_end (ts' ! i) < tk_start (ts' ! (i + 1))))"

lemma alike_nth: "masked_alike sql ts sql' ts' \<Longrightarrow> i < length ts \<Longrightarrow> token_sim sql (ts ! i) sql' (ts' ! i)"
  unfolding masked_alike_def by (blast dest: list_all2_nthD)

lemma alike_gap:
  assumes "masked_alike sql ts sql' ts'" and "0 < i" and "i < length ts"
  shows "(tk_start (ts ! i) < tk_end (ts ! (i - 1)) \<longleftrightarrow> tk_start (ts' ! i) < tk_end (ts' ! (i - 1))) \<and>
    (tk_end (ts ! (i - 1)) < tk_start (ts ! i) \<longleftrightarrow> tk_end (ts' ! (i - 1)) < tk_start (ts' ! i))"
proof -
  have "i - 1 < length ts - 1" using assms(2,3) by simp
  with assms(1) have "(tk_start (ts ! (i - 1 + 1)) < tk_end (ts ! (i - 1)) \<longleftrightarrow> tk_start (ts' ! (i - 1 + 1)) < tk_end (ts' ! (i - 1))) \<and>
    (tk_end (ts ! (i - 1)) < tk_start (ts ! (i - 1 + 1)) \<longleftrightarrow> tk_end (ts' ! (i - 1)) < tk_start (ts' ! (i - 1 + 1)))"
    unfolding masked_alike_def by blast
  with assms(2) show ?thesis by simp
qed

lemma sim_token_text: "token_sim sql t sql' t' \<Longrightarrow> token_text sql nxt t = token_text sql' nxt t' \<and> bump t = bump t'"
  by (auto simp: token_sim_def token_text_def bump_def fun_eq_iff split: token_kind.splits if_splits)

lemma skip_sim:
  assumes sim: "masked_alike sql ts sql' ts'" and "i + k \<le> length ts"
  shows "map_option fst (skip_tokens sql nxt (prev_of ts i) (take k (drop i ts))) =
    map_option fst (skip_tokens sql' nxt (prev_of ts' i) (take k (drop i ts')))"
  using assms(2)
proof (induction k arbitrary: i nxt)
  case (Suc k)
  have len: "length ts' = length ts" using sim by (auto simp: masked_alike_def dest: list_all2_lengthD)
  have i: "i < length ts" using Suc.prems by simp
  have d: "take (Suc k) (drop i xs) = xs ! i # take k (drop (i + 1) xs)" if "length xs = length ts" for xs :: "token list"
    using i that by (metis Cons_nth_drop_Suc Suc_eq_plus1 take_Suc_Cons)
  have t: "(tok_text sql (ts ! i) = None) = (tok_text sql' (ts' ! i) = None)" "tk_kind (ts ! i) = tk_kind (ts' ! i)"
    using alike_nth [OF sim i] by (auto simp: token_sim_def split: if_splits)
  have g: "0 < i \<Longrightarrow> (tk_start (ts ! i) < tk_end (ts ! (i - 1))) = (tk_start (ts' ! i) < tk_end (ts' ! (i - 1)))"
    using alike_gap [OF sim _ i] by blast
  have IH: "map_option fst (skip_tokens sql (bump (ts ! i) nxt) (prev_of ts (i + 1)) (take k (drop (i + 1) ts))) =
      map_option fst (skip_tokens sql' (bump (ts ! i) nxt) (prev_of ts' (i + 1)) (take k (drop (i + 1) ts')))"
    using Suc by simp
  have step: "skip_tokens q nxt (prev_of xs i) (take (Suc k) (drop i xs)) =
      (if tok_text q (xs ! i) = None \<or> (0 < i \<and> tk_start (xs ! i) < tk_end (xs ! (i - 1))) then None
       else skip_tokens q (bump (xs ! i) nxt) (prev_of xs (i + 1)) (take k (drop (i + 1) xs)))"
    if "length xs = length ts" for q xs
    unfolding d [OF that] by (auto simp: prev_of_def bump_def Let_def split: option.splits)
  show ?case
    unfolding step [OF refl] step [OF len] using t g IH by (auto simp: bump_def)
qed simp

lemma render_loop_sim:
  assumes sim: "masked_alike sql ts sql' ts'" and "ranges_ok i (length ts) cs"
  shows "render_loop sql ts cs nxt out (prev_of ts i) i = render_loop sql' ts' cs nxt out (prev_of ts' i) i"
  using assms(2)
proof (induction i cs nxt out rule: loop_induct [where ts = ts])
  have len: "length ts' = length ts" using sim by (auto simp: masked_alike_def dest: list_all2_lengthD)
  {
    case (finished i cs nxt out)
    then show ?case using len by (simp add: render_loop_end)
  next
    case (compact i c cs nxt out)
    have k: "i + (cp_end c - i) \<le> length ts" using compact(3,4) by simp
    have eq: "render_loop q xs (c # cs) nxt out (prev_of xs i) i =
        (case map_option fst (skip_tokens q nxt (prev_of xs i) (take (cp_end c - i) (drop i xs))) of
           None \<Rightarrow> Some None
         | Some n \<Rightarrow> render_loop q xs cs n (out @ more_columns (additional_columns c)) (prev_of xs (cp_end c)) (cp_end c))"
      if "length xs = length ts" for q xs
      using compact(1-4) skip_tokens_prev [of q nxt xs i "cp_end c - i"] k that
      by (subst render_loop_compact [of i xs "c # cs" c cs]) (auto split: option.splits)
    show ?case
      unfolding eq [OF refl] eq [OF len] skip_sim [OF sim k] compact(6) ..
  next
    case (token i cs nxt out)
    have t: "token_text sql nxt (ts ! i) = token_text sql' nxt (ts' ! i)" "bump (ts ! i) = bump (ts' ! i)"
      using sim_token_text [OF alike_nth [OF sim token(1)]] by simp_all
    have g: "(0 < i \<and> tk_start (ts ! i) < tk_end (ts ! (i - 1))) = (0 < i \<and> tk_start (ts' ! i) < tk_end (ts' ! (i - 1)))"
      "(0 < i \<and> tk_end (ts ! (i - 1)) < tk_start (ts ! i)) = (0 < i \<and> tk_end (ts' ! (i - 1)) < tk_start (ts' ! i))"
      using alike_gap [OF sim _ token(1)] by blast+
    have i': "i < length ts'" using token(1) len by simp
    show ?case
      unfolding render_loop_token [OF token(1,2)] render_loop_token [OF i' token(2)] t g token(4) ..
  }
qed

section \<open>What the output consists of\<close>

text \<open>
  A reference definition of the output, token by token. A piece is a token copied verbatim, the
  placeholder of the constant at an index, or the note in place of a compacted list; its flag asks
  for a space in front of it.
\<close>

datatype piece = Verbatim str | Mask nat | More nat

definition placeholder_number :: "token list \<Rightarrow> nat \<Rightarrow> int" where
  "placeholder_number ts j =
     min (first_placeholder ts + int (length (filter (\<lambda>t. tk_kind t = Constant) (take j ts)))) (2 ^ 31 - 1)"

definition lay_piece :: "token list \<Rightarrow> str \<Rightarrow> bool \<times> piece \<Rightarrow> str" where
  "lay_piece ts out gp =
     (case snd gp of
        Verbatim x \<Rightarrow> separated out (fst gp) x
      | Mask j \<Rightarrow> separated out (fst gp) (placeholder (placeholder_number ts j))
      | More n \<Rightarrow> out @ more_columns n)"

definition piece_of :: "str \<Rightarrow> token list \<Rightarrow> nat \<Rightarrow> bool \<times> piece" where
  "piece_of sql ts j =
     (0 < j \<and> tk_end (ts ! (j - 1)) < tk_start (ts ! j),
      if tk_kind (ts ! j) = Constant then Mask j else Verbatim (the (tok_text sql (ts ! j))))"

text \<open>The pieces of token \<open>j\<close>: a compacted range leaves its note at its first token.\<close>

definition pieces_at :: "str \<Rightarrow> token list \<Rightarrow> compaction list \<Rightarrow> nat \<Rightarrow> (bool \<times> piece) list" where
  "pieces_at sql ts cs j =
     (case find (\<lambda>c. cp_start c \<le> j \<and> j < cp_end c) cs of
        Some c \<Rightarrow> if j = cp_start c then [(False, More (additional_columns c))] else []
      | None \<Rightarrow> [piece_of sql ts j])"

definition pieces_from :: "str \<Rightarrow> token list \<Rightarrow> compaction list \<Rightarrow> nat \<Rightarrow> (bool \<times> piece) list" where
  "pieces_from sql ts cs i = concat (map (pieces_at sql ts cs) [i..<length ts])"

text \<open>No token begins before the end of the one in front of it.\<close>

definition ordered_at :: "token list \<Rightarrow> nat \<Rightarrow> bool" where
  "ordered_at ts j \<longleftrightarrow> \<not> (0 < j \<and> tk_start (ts ! j) < tk_end (ts ! (j - 1)))"

definition in_order_from :: "nat \<Rightarrow> token list \<Rightarrow> bool" where
  "in_order_from i ts \<longleftrightarrow> list_all (ordered_at ts) [i..<length ts]"

definition render_spec :: "str \<Rightarrow> token list \<Rightarrow> str option" where
  "render_spec sql ts =
     (case texts sql ts of
        None \<Rightarrow> None
      | Some xs \<Rightarrow>
          if in_order_from 0 ts
          then Some (foldl (lay_piece ts) [] (pieces_from sql ts (compactions_of xs) 0)) else None)"

lemma first_placeholder_bound: "first_placeholder ts \<le> 2 ^ 31 - 1"
  by (simp add: first_placeholder_def sat_inc_def split: list.splits)

lemma fold_bump:
  "nxt \<le> 2 ^ 31 - 1 \<Longrightarrow>
   fold bump xs nxt = min (nxt + int (length (filter (\<lambda>t. tk_kind t = Constant) xs))) (2 ^ 31 - 1)"
  by (induction xs arbitrary: nxt) (auto simp: bump_def sat_inc_def min_def)

lemma fold_bump_number: "fold bump (take j ts) (first_placeholder ts) = placeholder_number ts j"
  using fold_bump [OF first_placeholder_bound] by (simp add: placeholder_number_def)

lemma fold_take_range: "fold bump (take k (drop i ts)) (fold bump (take i ts) n) = fold bump (take (i + k) ts) n"
  by (simp add: take_add)

lemma placeholder_number_0: "placeholder_number ts 0 = first_placeholder ts"
  using first_placeholder_bound by (simp add: placeholder_number_def)

lemma bump_number: "i < length ts \<Longrightarrow> bump (ts ! i) (placeholder_number ts i) = placeholder_number ts (i + 1)"
  by (simp add: fold_bump_number [symmetric] take_Suc_conv_app_nth)

lemma in_order_step:
  "i < length ts \<Longrightarrow>
   in_order_from i ts \<longleftrightarrow> ordered_at ts i \<and> in_order_from (i + 1) ts"
  by (simp add: in_order_from_def upt_conv_Cons)

lemma upt_split: "i \<le> m \<Longrightarrow> m \<le> n \<Longrightarrow> [i..<n] = [i..<m] @ [m..<n]"
  by (metis le_add_diff_inverse upt_add_eq_append)

lemma in_order_end: "length ts \<le> i \<Longrightarrow> in_order_from i ts"
  by (simp add: in_order_from_def)

lemma pieces_end: "length ts \<le> i \<Longrightarrow> pieces_from sql ts cs i = []"
  by (simp add: pieces_from_def)

lemma find_none: "ranges_ok i n cs \<Longrightarrow> j < i \<Longrightarrow> find (\<lambda>c. cp_start c \<le> j \<and> j < cp_end c) cs = None"
proof (induction cs arbitrary: i)
  case (Cons c cs)
  have "find (\<lambda>c. cp_start c \<le> j \<and> j < cp_end c) cs = None"
    using Cons.IH [of "cp_end c"] Cons.prems by simp
  with Cons.prems show ?case by simp
qed simp

lemma pieces_token:
  assumes "i < length ts" and "ranges_ok (i + 1) (length ts) cs"
  shows "pieces_from sql ts cs i = piece_of sql ts i # pieces_from sql ts cs (i + 1)"
  using assms(1) find_none [OF assms(2), of i]
  by (simp add: pieces_from_def upt_conv_Cons pieces_at_def)

lemma pieces_compact:
  assumes "cp_start c = i" and "i < cp_end c" and "cp_end c \<le> length ts"
  shows "pieces_from sql ts (c # cs) i = (False, More (additional_columns c)) # pieces_from sql ts cs (cp_end c)"
proof -
  have split: "[i..<length ts] = i # [i + 1..<cp_end c] @ [cp_end c..<length ts]"
    using assms by (simp add: upt_conv_Cons [of i] upt_split [of "Suc i" "cp_end c" "length ts"])
  have inside: "concat (map (pieces_at sql ts (c # cs)) [i + 1..<cp_end c]) = []"
    using assms(1) by (auto simp: pieces_at_def)
  have behind: "map (pieces_at sql ts (c # cs)) [cp_end c..<length ts] = map (pieces_at sql ts cs) [cp_end c..<length ts]"
    by (auto simp: pieces_at_def)
  have first: "pieces_at sql ts (c # cs) i = [(False, More (additional_columns c))]"
    using assms(1,2) by (simp add: pieces_at_def)
  show ?thesis
    unfolding pieces_from_def split list.map(2) map_append concat.simps concat_append inside behind first by simp
qed

lemma texts_some: "texts sql ts = Some xs \<Longrightarrow> i < length ts \<Longrightarrow> \<exists>x. tok_text sql (ts ! i) = Some x"
  using texts_nth by blast

lemma skip_tokens_spec:
  assumes "texts sql ts = Some xs" and "i + k \<le> length ts"
  shows "skip_tokens sql (placeholder_number ts i) (prev_of ts i) (take k (drop i ts)) =
     (if list_all (ordered_at ts) [i..<i + k]
      then Some (placeholder_number ts (i + k), prev_of ts (i + k)) else None)"
  using assms(2)
proof (induction k arbitrary: i)
  case (Suc k)
  then have i: "i < length ts" by simp
  then have d: "take (Suc k) (drop i ts) = ts ! i # take k (drop (i + 1) ts)"
    by (metis Cons_nth_drop_Suc Suc_eq_plus1 take_Suc_Cons)
  obtain x where x: "tok_text sql (ts ! i) = Some x" using texts_some [OF assms(1) i] by blast
  have b: "(if tk_kind (ts ! i) = Constant then sat_inc (placeholder_number ts i) else placeholder_number ts i) =
      placeholder_number ts (i + 1)"
    using bump_number [OF i] by (simp add: bump_def)
  have p: "prev_of ts (i + 1) = Some (tk_end (ts ! i))" by (simp add: prev_of_def)
  have IH: "skip_tokens sql (placeholder_number ts (i + 1)) (Some (tk_end (ts ! i))) (take k (drop (i + 1) ts)) =
     (if list_all (ordered_at ts) [i + 1..<i + 1 + k]
      then Some (placeholder_number ts (i + 1 + k), prev_of ts (i + 1 + k)) else None)"
    using Suc.IH [of "i + 1"] Suc.prems unfolding p by simp
  have u: "[i..<i + Suc k] = i # [i + 1..<i + 1 + k]" by (simp add: upt_conv_Cons)
  show ?case
    unfolding d u skip_tokens.simps(2) Let_def b x option.case list.pred_inject IH add_Suc_right [of i k, symmetric]
    by (auto simp: prev_of_def ordered_at_def)
qed simp

text \<open>The loop computes the reference definition.\<close>

lemma render_loop_spec:
  assumes "ranges_ok i (length ts) cs" and tx: "texts sql ts = Some xs"
  shows "nxt = placeholder_number ts i \<longrightarrow>
    render_loop sql ts cs nxt out (prev_of ts i) i =
      Some (if in_order_from i ts then Some (foldl (lay_piece ts) out (pieces_from sql ts cs i)) else None)"
  using assms(1)
proof (induction i cs nxt out rule: loop_induct [where ts = ts])
  case (finished i cs nxt out)
  then show ?case by (simp add: render_loop_end in_order_end pieces_end)
next
  case (compact i c cs nxt out)
  have k: "i + (cp_end c - i) \<le> length ts" "i + (cp_end c - i) = cp_end c" using compact(3,4) by simp_all
  have u: "[i..<length ts] = [i..<cp_end c] @ [cp_end c..<length ts]"
    using compact(3,4) by (intro upt_split) simp_all
  have lay: "lay_piece ts out (False, More (additional_columns c)) = out @ more_columns (additional_columns c)"
    by (simp add: lay_piece_def)
  show ?case
    using compact(6) [of "placeholder_number ts (cp_end c)"] skip_tokens_spec [OF tx k(1)]
    unfolding render_loop_compact [OF compact(1) refl compact(2) _ compact(4), unfolded compact(2), OF compact(3)]
      pieces_compact [OF compact(2-4)] foldl.simps lay
    by (auto simp: k(2) in_order_from_def u)
next
  case (token i cs nxt out)
  obtain x where x: "tok_text sql (ts ! i) = Some x" using texts_some [OF tx token(1)] by blast
  have lay: "token_text sql (placeholder_number ts i) (ts ! i) = Some y \<Longrightarrow>
      lay_piece ts out (piece_of sql ts i) = separated out (0 < i \<and> tk_end (ts ! (i - 1)) < tk_start (ts ! i)) y" for y
    using x by (auto simp: token_text_def lay_piece_def piece_of_def split: token_kind.splits)
  obtain y where y: "token_text sql (placeholder_number ts i) (ts ! i) = Some y"
    using x by (cases "tk_kind (ts ! i)") (simp_all add: token_text_def)
  show ?case
    using token(4) [of "placeholder_number ts (i + 1)"]
    unfolding render_loop_token [OF token(1,2)] pieces_token [OF token(1,3)] foldl.simps lay [OF y]
      in_order_step [OF token(1)] ordered_at_def
    by (simp add: y bump_number [OF token(1), simplified])
qed

lemma fold_max: "fold max ms (m :: int) = Max (set (m # ms))"
  by (simp only: Max.set_eq_fold)

lemma param_below:
  assumes "tk_kind t = Param n" and "t \<in> set ts" and "first_placeholder ts < 2 ^ 31 - 1"
  shows "n < first_placeholder ts"
proof -
  have n: "n \<in> set (param_numbers ts)" using assms(1,2) by (force simp: param_numbers_def)
  then obtain m ms where ms: "param_numbers ts = m # ms" by (cases "param_numbers ts") auto
  have "n \<le> fold max ms m" unfolding fold_max using n ms by (intro Max_ge) auto
  with assms(3) ms show ?thesis by (auto simp: first_placeholder_def sat_inc_def min_def split: if_splits)
qed

lemma texts_alike:
  "list_all2 (\<lambda>t t'. token_sim sql t sql' t') ts ts' \<Longrightarrow> rel_option (list_all2 same_role) (texts sql ts) (texts sql' ts')"
proof (induction ts ts' rule: list_all2_induct)
  case (Cons t ts t' ts')
  have "rel_option same_role (tok_text sql t) (tok_text sql' t')"
    using Cons.hyps(1) by (cases "tok_text sql t") (auto simp: token_sim_def same_role_def split: if_splits)
  with Cons.IH show ?case
    by (cases "texts sql ts"; cases "texts sql' ts'"; cases "tok_text sql t"; cases "tok_text sql' t'") auto
qed simp

text \<open>What normalization exports, and what \<open>sanitize\<close> truncates.\<close>

definition masked_text :: "pg_text \<Rightarrow> str \<Rightarrow> str option" where
  "masked_text pg sql =
     (if length sql \<le> MAX_NORMALIZE_INPUT_BYTES \<and> pt_utf8 pg \<and> 0 \<notin> set sql
      then (case scan_tokens pg sql of Inr (Some ts) \<Rightarrow> render_spec sql ts | _ \<Rightarrow> None)
      else None)"

definition full_text :: "pg_text \<Rightarrow> bytes option \<Rightarrow> int \<Rightarrow> int \<Rightarrow> bool \<Rightarrow> str option" where
  "full_text pg source_text stmt_location stmt_len normalize_text =
     (case current_statement pg source_text stmt_location stmt_len of
        None \<Rightarrow> None
      | Some statement \<Rightarrow> if normalize_text then masked_text pg statement else Some statement)"

lemma suppression_restores: "suppression_new l = (saved, quiet) \<Longrightarrow> suppression_drop saved quiet = l"
  by (cases "log_min_messages l") (auto simp: suppression_new_def suppression_drop_def Let_def)

lemma lex_result: "lex pg sql l = (case scan_tokens pg sql of Inl _ \<Rightarrow> None | Inr r \<Rightarrow> r, l)"
  by (cases "suppression_new l") (simp add: lex_def suppression_restores)

lemma render_is_spec: "render sql ts = Some (render_spec sql ts)"
proof (cases "texts sql ts")
  case (Some xs)
  have "ranges_ok 0 (length ts) (compactions_of xs)"
    using compactions_ok [of xs] texts_length [OF Some] by simp
  from render_loop_spec [OF this Some] show ?thesis
    by (simp add: render_def select_list_compactions_def render_spec_def Some prev_of_def placeholder_number_0)
qed (simp add: render_def select_list_compactions_def render_spec_def)

lemma normalize_is_masked: "normalize pg sql l = Some (masked_text pg sql, l)"
  by (simp add: normalize_def masked_text_def lex_result render_is_spec split: sum.splits option.splits)

lemma render_valid:
  assumes "utf8_valid sql" and "render sql ts = Some (Some out)"
  shows "utf8_valid out"
proof (cases "texts sql ts")
  case (Some xs)
  have "ranges_ok 0 (length ts) (compactions_of xs)"
    using compactions_ok [of xs] texts_length [OF Some] by simp
  from render_loop_valid [OF assms(1) this, where nxt = "first_placeholder ts" and out = "[]" and res = out] assms(2) Some
  show ?thesis by (simp add: render_def select_list_compactions_def prev_of_def)
qed (use assms(2) in \<open>simp add: render_def select_list_compactions_def\<close>)

lemma masked_text_valid: "utf8_valid sql \<Longrightarrow> masked_text pg sql = Some out \<Longrightarrow> utf8_valid out"
  using render_valid [of sql _ out] by (auto simp: masked_text_def render_is_spec split: if_splits sum.splits option.splits)

lemma current_statement_valid: "current_statement pg src a b = Some t \<Longrightarrow> utf8_valid t"
  using valid_lossy by (auto simp: current_statement_def split: option.splits if_splits prod.splits)

lemma full_text_valid: "full_text pg src a b n = Some t \<Longrightarrow> utf8_valid t"
  by (cases "current_statement pg src a b")
     (auto simp: full_text_def dest: current_statement_valid masked_text_valid split: if_splits)

lemma sanitize_is_full: "sanitize pg src a b n m l = Some (map_option (\<lambda>t. truncate_utf8 t m) (full_text pg src a b n), l)"
  by (simp add: sanitize_def full_text_def normalize_is_masked split: option.splits)

lemma first_placeholder_alike: "list_all2 (\<lambda>t t'. token_sim sql t sql' t') ts ts' \<Longrightarrow> param_numbers ts = param_numbers ts'"
  by (induction ts ts' rule: list_all2_induct) (auto simp: param_numbers_def token_sim_def)

text \<open>
  The contract of \<open>CleanQuerytext\<close>: a range it is called with, the part of the string that it means
  (first byte and end), and that it only makes that part smaller.
\<close>

definition range_valid :: "nat \<Rightarrow> int \<times> int \<Rightarrow> bool" where
  "range_valid n r \<longleftrightarrow> (fst r = - 1 \<and> snd r = 0) \<or> (0 \<le> fst r \<and> fst r \<le> int n \<and> snd r \<le> int n - fst r)"

definition span_of :: "nat \<Rightarrow> int \<times> int \<Rightarrow> int \<times> int" where
  "span_of n r =
     (if fst r < 0 then (0, int n) else (fst r, if snd r \<le> 0 then int n else fst r + snd r))"

definition clean_trims :: "pg_text \<Rightarrow> bool" where
  "clean_trims pg \<longleftrightarrow>
     (\<forall>b r. range_valid (length b) r \<longrightarrow>
        (case pt_clean pg b r of (l, k) \<Rightarrow>
           fst (span_of (length b) r) \<le> l \<and> 0 \<le> k \<and> l + k \<le> snd (span_of (length b) r)))"

section \<open>A statement to evaluate\<close>

text \<open>A \<open>CleanQuerytext\<close> that trims nothing, and the scanner's answers for one statement.\<close>

definition demo_clean :: "bytes \<Rightarrow> int \<times> int \<Rightarrow> int \<times> int" where
  "demo_clean b r = (if fst r < 0 then (0, int (length b)) else (fst r, if snd r \<le> 0 then int (length b) - fst r else snd r))"

definition demo_sql :: str where
  "demo_sql = lit ''SELECT 42''"

definition demo_tokens :: "token list" where
  "demo_tokens = [\<lparr>tk_kind = Other, tk_start = 0, tk_end = 6\<rparr>, \<lparr>tk_kind = Constant, tk_start = 7, tk_end = 9\<rparr>]"

definition demo_pg :: pg_text where
  "demo_pg = \<lparr>pt_clean = demo_clean, pt_utf8 = True,
     pt_scan = (\<lambda>s. ([\<lparr>sc_code = 674, sc_ival = 0, sc_loc = 0, sc_len = 6\<rparr>,
                      \<lparr>sc_code = 266, sc_ival = 42, sc_loc = 7, sc_len = 2\<rparr>,
                      \<lparr>sc_code = 0, sc_ival = 0, sc_loc = 9, sc_len = 0\<rparr>], False))\<rparr>"

definition demo_levels :: levels where
  "demo_levels = \<lparr>client_min_messages = 18, log_min_messages = Some 19\<rparr>"

lemma demo_scan: "scan_tokens demo_pg s = Inr (Some demo_tokens)"
  by (simp add: scan_tokens_def demo_pg_def demo_tokens_def from_code_def END_OF_INPUT_def FCONST_def SCONST_def
      USCONST_def BCONST_def XCONST_code_def ICONST_def PARAM_def)

lemma demo_spec: "render_spec demo_sql demo_tokens = Some (lit ''SELECT $1'')"
  by code_simp

lemma demo_full: "full_text demo_pg (Some demo_sql) (- 1) 0 True = Some (lit ''SELECT $1'')"
proof -
  have c: "current_statement demo_pg (Some demo_sql) (- 1) 0 = Some demo_sql" by code_simp
  have s: "length demo_sql \<le> MAX_NORMALIZE_INPUT_BYTES" "0 \<notin> set demo_sql" "pt_utf8 demo_pg"
    by (simp_all add: demo_sql_def lit_def MAX_NORMALIZE_INPUT_BYTES_def demo_pg_def)
  show ?thesis unfolding full_text_def c option.case masked_text_def demo_scan sum.case using s demo_spec by simp
qed

section \<open>Properties\<close>

text \<open>
  C27 (equivalence). The one-pass loop with its running placeholder number, its remembered end and its
  skipping of compacted ranges computes the reference definition: it never panics, refuses the tokens
  exactly when one of them is no piece of the text or begins before the end of the one in front of
  it, and otherwise lays the pieces of the tokens side by side, each token outside a compacted list
  either verbatim or, if it is a constant, as the placeholder with the highest parameter number plus
  the count of constants up to it.
\<close>

theorem render_implements_spec: "render sql ts = Some (render_spec sql ts)"
  by (rule render_is_spec)

text \<open>
  C28 (safety). No literal leaks: two statements whose tokens agree except for the text of their
  constants (and for what lies between tokens: white space and comments) give the same output, so
  the output carries nothing of a constant's value, of its length or of a comment.
\<close>

theorem render_hides_constants:
  assumes "masked_alike sql ts sql' ts'"
  shows "render sql ts = render sql' ts'"
proof -
  have l2: "list_all2 (\<lambda>t t'. token_sim sql t sql' t') ts ts'" using assms by (simp add: masked_alike_def)
  have f: "first_placeholder ts = first_placeholder ts'"
    using first_placeholder_alike [OF l2] by (simp add: first_placeholder_def)
  show ?thesis
  proof (cases "texts sql ts")
    case None
    then show ?thesis using texts_alike [OF l2] by (simp add: render_def select_list_compactions_def)
  next
    case (Some xs)
    then obtain ys where ys: "texts sql' ts' = Some ys" "list_all2 same_role xs ys"
      using texts_alike [OF l2] by (auto simp: option_rel_Some1)
    have "ranges_ok 0 (length ts) (compactions_of xs)"
      using compactions_ok [of xs] texts_length [OF Some] by simp
    from render_loop_sim [OF assms this] show ?thesis
      using Some ys compactions_role [OF ys(2)] f
      by (simp add: render_def select_list_compactions_def prev_of_def)
  qed
qed

lemma render_hides_constants_witness:
  "render (lit ''SELECT 42'') demo_tokens =
   render (lit ''SELECT /**/ 1.5e9'')
     [\<lparr>tk_kind = Other, tk_start = 0, tk_end = 6\<rparr>, \<lparr>tk_kind = Constant, tk_start = 12, tk_end = 17\<rparr>]"
proof (rule render_hides_constants)
  have n: "neutral (lit ''42'')" "neutral (lit ''1.5e9'')" by code_simp+
  have x: "tok_text (lit ''SELECT 42'') \<lparr>tk_kind = Constant, tk_start = 7, tk_end = 9\<rparr> = Some (lit ''42'')"
    "tok_text (lit ''SELECT /**/ 1.5e9'') \<lparr>tk_kind = Constant, tk_start = 12, tk_end = 17\<rparr> = Some (lit ''1.5e9'')"
    "tok_text (lit ''SELECT 42'') \<lparr>tk_kind = Other, tk_start = 0, tk_end = 6\<rparr> =
     tok_text (lit ''SELECT /**/ 1.5e9'') \<lparr>tk_kind = Other, tk_start = 0, tk_end = 6\<rparr>"
    by code_simp+
  show "masked_alike (lit ''SELECT 42'') demo_tokens (lit ''SELECT /**/ 1.5e9'')
     [\<lparr>tk_kind = Other, tk_start = 0, tk_end = 6\<rparr>, \<lparr>tk_kind = Constant, tk_start = 12, tk_end = 17\<rparr>]"
    using n x by (simp add: masked_alike_def demo_tokens_def token_sim_def less_Suc_eq)
qed

text \<open>
  The placeholders of the constants are numbered in order, differ from each other and lie
  above every parameter of the statement, as long as the numbers stay below \<open>i32::MAX\<close>.
\<close>

theorem placeholders_fresh:
  assumes "first_placeholder ts + int (length (filter (\<lambda>t. tk_kind t = Constant) ts)) \<le> 2 ^ 31 - 1"
    and "j < length ts" and "tk_kind (ts ! j) = Constant"
  shows "(\<forall>t n. t \<in> set ts \<longrightarrow> tk_kind t = Param n \<longrightarrow> n < placeholder_number ts j) \<and>
    (\<forall>k. j < k \<longrightarrow> k < length ts \<longrightarrow>
      placeholder_number ts j < placeholder_number ts k \<and>
      placeholder (placeholder_number ts j) \<noteq> placeholder (placeholder_number ts k))"
proof -
  let ?c = "\<lambda>xs. length (filter (\<lambda>t. tk_kind t = Constant) xs)"
  have mono: "k \<le> m \<Longrightarrow> ?c (take k ts) \<le> ?c (take m ts)" for k m
    by (metis (no_types) filter_append le_Suc_ex length_append le_add1 take_add)
  have step: "?c (take (Suc j) ts) = Suc (?c (take j ts))"
    using assms(2,3) by (simp add: take_Suc_conv_app_nth)
  have all: "?c (take k ts) \<le> ?c ts" for k
    using mono [of k "max k (length ts)"] by simp
  have num: "placeholder_number ts k = first_placeholder ts + int (?c (take k ts))" for k
    using all [of k] assms(1) by (simp add: placeholder_number_def)
  have "first_placeholder ts < 2 ^ 31 - 1" using all [of "Suc j"] step assms(1) by simp
  then have "t \<in> set ts \<Longrightarrow> tk_kind t = Param n \<Longrightarrow> n < placeholder_number ts j" for t n
    using param_below [of t n ts] by (simp add: num)
  moreover have "j < k \<Longrightarrow> placeholder_number ts j < placeholder_number ts k" for k
    using mono [of "Suc j" k] step by (simp add: num)
  ultimately show ?thesis by (fastforce simp: placeholder_def)
qed

lemma placeholders_fresh_witness:
  "(\<forall>t n. t \<in> set demo_tokens \<longrightarrow> tk_kind t = Param n \<longrightarrow> n < placeholder_number demo_tokens 1) \<and>
    (\<forall>k. 1 < k \<longrightarrow> k < length demo_tokens \<longrightarrow>
      placeholder_number demo_tokens 1 < placeholder_number demo_tokens k \<and>
      placeholder (placeholder_number demo_tokens 1) \<noteq> placeholder (placeholder_number demo_tokens k))"
  by (rule placeholders_fresh) (simp_all add: demo_tokens_def first_placeholder_def param_numbers_def)

text \<open>
  The bound is needed: with the parameter \<open>$2147483647\<close> in the statement the saturating
  increment gives a constant the very same placeholder.
\<close>

theorem placeholder_collides:
  "\<exists>sql ts. texts sql ts = Some [lit ''$2147483647'', lit ''='', lit ''7''] \<and>
     map tk_kind ts = [Param 2147483647, Other, Constant] \<and>
     render sql ts = Some (Some (lit ''$2147483647=$2147483647''))"
proof -
  let ?sql = "lit ''$2147483647=7''"
  let ?ts = "[\<lparr>tk_kind = Param 2147483647, tk_start = 0, tk_end = 11\<rparr>, \<lparr>tk_kind = Other, tk_start = 11, tk_end = 12\<rparr>,
    \<lparr>tk_kind = Constant, tk_start = 12, tk_end = 13\<rparr>]"
  have t: "texts ?sql ?ts = Some [lit ''$2147483647'', lit ''='', lit ''7'']" by code_simp
  have c: "compactions_of [lit ''$2147483647'', lit ''='', lit ''7''] = []" by code_simp
  have n: "placeholder_number ?ts 2 = 2147483647"
    by (simp add: placeholder_number_def first_placeholder_def param_numbers_def sat_inc_def)
  have d: "placeholder 2147483647 = lit ''$2147483647''"
    by (simp add: placeholder_def dec_int_def dec_nat.simps dec_digit_def lit_def)
  have x: "tok_text ?sql (?ts ! 0) = Some (lit ''$2147483647'')" "tok_text ?sql (?ts ! 1) = Some (lit ''='')"
    by code_simp+
  have p: "pieces_from ?sql ?ts [] 0 = [(False, Verbatim (lit ''$2147483647'')), (False, Verbatim (lit ''='')), (False, Mask 2)]"
    using x by (simp add: pieces_from_def pieces_at_def piece_of_def upt_conv_Cons)
  have "foldl (lay_piece ?ts) [] (pieces_from ?sql ?ts [] 0) = lit ''$2147483647=$2147483647''"
    unfolding p by (simp add: lay_piece_def n d separated_def would_fuse_def is_word_def lit_def)
  then have "render_spec ?sql ?ts = Some (lit ''$2147483647=$2147483647'')"
    unfolding render_spec_def t option.case c by (simp add: in_order_from_def ordered_at_def upt_conv_Cons)
  with t show ?thesis by (intro exI [of _ ?sql] exI [of _ ?ts]) (simp add: render_is_spec)
qed

text \<open>
  C29 (error). Normalization fails closed and leaves the message levels as they were: a statement over
  64 KiB, with a NUL byte, in another server encoding, refused by the scanner or with inconsistent
  tokens gives no text, every other one its masked form, and in each case both level variables have
  their old value afterwards.
\<close>

theorem normalize_fails_closed:
  "normalize pg sql l =
     Some (if length sql \<le> 64 * 1024 \<and> pt_utf8 pg \<and> 0 \<notin> set sql
           then (case scan_tokens pg sql of
                   Inl _ \<Rightarrow> None
                 | Inr None \<Rightarrow> None
                 | Inr (Some ts) \<Rightarrow> render_spec sql ts)
           else None, l)"
  by (simp add: normalize_is_masked masked_text_def MAX_NORMALIZE_INPUT_BYTES_def split: sum.splits option.splits)

text \<open>
  The text that normalization gives for a statement: there is one only for a statement within the
  size limit, in a UTF-8 database, without a zero byte and with tokens that the scanner finds
  without an error and that do not overlap.
\<close>

definition masks_to :: "pg_text \<Rightarrow> str \<Rightarrow> str \<Rightarrow> bool" where
  "masks_to pg sql u \<longleftrightarrow>
     length sql \<le> 64 * 1024 \<and> pt_utf8 pg \<and> 0 \<notin> set sql \<and>
     (\<exists>ts. scan_tokens pg sql = Inr (Some ts) \<and> render_spec sql ts = Some u)"

lemma masks_to_iff: "masks_to pg sql u \<longleftrightarrow> masked_text pg sql = Some u"
  by (auto simp: masks_to_def masked_text_def MAX_NORMALIZE_INPUT_BYTES_def split: sum.splits option.splits)

text \<open>
  C30 (bounds). \<open>sanitize\<close> exports a text exactly when there is a statement and, in normalized mode,
  normalization gives a text for it: when normalization fails nothing is exported, never the raw
  statement. What it exports is a prefix of that text (the masked one in normalized mode, else the
  statement), valid UTF-8, no longer than the limit and the longest such prefix. The message levels
  are what they were.
\<close>

theorem sanitize_exports_prefix:
  "\<exists>res. sanitize pg src stmt_location stmt_len normalize_text max_len l = Some (res, l) \<and>
    (case res of
       None \<Rightarrow>
         (case current_statement pg src stmt_location stmt_len of
            None \<Rightarrow> True
          | Some sql \<Rightarrow> normalize_text \<and> \<not> (\<exists>u. masks_to pg sql u))
     | Some t \<Rightarrow> \<exists>sql u rest. current_statement pg src stmt_location stmt_len = Some sql \<and>
         (if normalize_text then masks_to pg sql u else u = sql) \<and>
         u = t @ rest \<and> utf8_valid t \<and> length t \<le> max_len \<and>
         (\<forall>t' rest'. u = t' @ rest' \<longrightarrow> utf8_valid t' \<longrightarrow> length t' \<le> max_len \<longrightarrow> length t' \<le> length t))"
proof (cases "full_text pg src stmt_location stmt_len normalize_text")
  case None
  then show ?thesis
    by (auto simp: sanitize_is_full full_text_def masks_to_iff split: option.splits if_splits)
next
  case (Some u)
  let ?t = "truncate_utf8 u max_len"
  have v: "utf8_valid u" using Some by (rule full_text_valid)
  obtain rest where "u = ?t @ rest" using truncate_prefix by blast
  moreover have "u = t' @ rest' \<Longrightarrow> utf8_valid t' \<Longrightarrow> length t' \<le> max_len \<Longrightarrow> length t' \<le> length ?t" for t' rest'
    using truncate_longest [of u t' rest' max_len] v valid_append by auto
  moreover obtain sql where "current_statement pg src stmt_location stmt_len = Some sql"
    "if normalize_text then masks_to pg sql u else u = sql"
    using Some by (auto simp: full_text_def masks_to_iff split: option.splits if_splits)
  moreover have "sanitize pg src stmt_location stmt_len normalize_text max_len l = Some (Some ?t, l)"
    by (simp add: sanitize_is_full Some)
  moreover have "utf8_valid ?t" "length ?t \<le> max_len" using truncate_valid [OF v] truncate_length by auto
  ultimately show ?thesis by (intro exI [of _ "Some ?t"]) (simp only: option.case, blast)
qed

lemma sanitize_exports_prefix_witness:
  "current_statement demo_pg (Some demo_sql) (- 1) 0 = Some demo_sql \<and>
   sanitize demo_pg (Some demo_sql) (- 1) 0 True 7 demo_levels = Some (Some (lit ''SELECT ''), demo_levels) \<and>
   sanitize (demo_pg\<lparr>pt_utf8 := False\<rparr>) (Some demo_sql) (- 1) 0 True 7 demo_levels = Some (None, demo_levels)"
proof -
  let ?pg = "demo_pg\<lparr>pt_utf8 := False\<rparr>"
  have c: "current_statement demo_pg (Some demo_sql) (- 1) 0 = Some demo_sql"
    "current_statement ?pg (Some demo_sql) (- 1) 0 = Some demo_sql" by code_simp+
  have s: "length demo_sql \<le> 64 * 1024" "0 \<notin> set demo_sql" "pt_utf8 demo_pg" "\<not> pt_utf8 ?pg"
    by (simp_all add: demo_sql_def lit_def demo_pg_def)
  then have m: "masks_to demo_pg demo_sql u \<longleftrightarrow> u = lit ''SELECT $1''" "\<not> masks_to ?pg demo_sql u" for u
    using demo_scan demo_spec by (auto simp: masks_to_def)
  have fails: "sanitize ?pg (Some demo_sql) (- 1) 0 True 7 demo_levels = Some (None, demo_levels)"
    using sanitize_exports_prefix [of ?pg "Some demo_sql" "- 1" 0 True 7 demo_levels] c(2) m(2)
    by (auto split: option.splits)
  obtain res where res: "sanitize demo_pg (Some demo_sql) (- 1) 0 True 7 demo_levels = Some (res, demo_levels)"
    and r: "case res of None \<Rightarrow> True \<and> \<not> (\<exists>u. masks_to demo_pg demo_sql u)
      | Some t \<Rightarrow> \<exists>sql u rest. Some demo_sql = Some sql \<and> (if True then masks_to demo_pg sql u else u = sql) \<and> u = t @ rest \<and> utf8_valid t \<and> length t \<le> 7 \<and>
         (\<forall>t' rest'. u = t' @ rest' \<longrightarrow> utf8_valid t' \<longrightarrow> length t' \<le> 7 \<longrightarrow> length t' \<le> length t)"
    using sanitize_exports_prefix [of demo_pg "Some demo_sql" "- 1" 0 True 7 demo_levels]
    unfolding c(1) option.case by blast
  obtain t where t0: "res = Some t" using r m(1) by (cases res) auto
  from r [unfolded t0 option.case if_True] obtain sql u rest where u: "Some demo_sql = Some sql" "masks_to demo_pg sql u"
    and t: "u = t @ rest" "length t \<le> 7"
    and longest: "\<forall>t' rest'. u = t' @ rest' \<longrightarrow> utf8_valid t' \<longrightarrow> length t' \<le> 7 \<longrightarrow> length t' \<le> length t"
    by (elim exE conjE) (rule that)
  have "sql = demo_sql" using u(1) by simp
  with u(2) have ueq: "u = lit ''SELECT $1''" by (simp only: m(1))
  have "utf8_valid (lit ''SELECT '')" by (rule ascii_valid) (simp add: lit_def)
  moreover have "lit ''SELECT $1'' = lit ''SELECT '' @ lit ''$1''" "length (lit ''SELECT '') = 7" by (simp_all add: lit_def)
  ultimately have "length t = 7" using longest [rule_format, of "lit ''SELECT ''" "lit ''$1''"] t(2) ueq by simp
  moreover have "take (length t) u = t" using t(1) by simp
  ultimately have "t = take 7 (lit ''SELECT $1'')" using ueq by simp
  then have "t = lit ''SELECT ''" by (simp add: lit_def)
  with fails show ?thesis using c(1) res t0 by simp
qed

text \<open>
  C31 (safety). Text of a sibling statement is never exported: what \<open>current_statement\<close> returns is the
  text of a range within the statement that location and length name (the rest of the string for a
  length that is not positive or too long, the whole string for an unknown location), given that
  \<open>CleanQuerytext\<close> only trims.
\<close>

theorem current_statement_within:
  assumes "clean_trims pg" and "stmt_location < 2 ^ 31" and "stmt_len < 2 ^ 31"
    and "current_statement pg (Some b) stmt_location stmt_len = Some t"
  shows "\<exists>start n. t = utf8_lossy (take n (drop start b)) \<and>
    (if stmt_location < 0 then start + n \<le> length b
     else nat stmt_location \<le> start \<and>
       start + n \<le> (if stmt_len \<le> 0 \<or> stmt_location + stmt_len > int (length b) then length b
                    else nat (stmt_location + stmt_len)))"
proof -
  obtain rng where rng: "validated_range (length b) stmt_location stmt_len = Some rng"
    using assms(4) by (auto simp: current_statement_def split: option.splits)
  obtain l k where c: "pt_clean pg b rng = (l, k)" by fastforce
  have r: "range_valid (length b) rng" and small: "int (length b) < 2 ^ 31"
    using rng by (auto simp: validated_range_def range_valid_def Let_def split: if_splits)
  then have w: "fst (span_of (length b) rng) \<le> l" "0 \<le> k" "l + k \<le> snd (span_of (length b) rng)"
    using assms(1) c unfolding clean_trims_def by fastforce+
  have s: "0 \<le> fst (span_of (length b) rng)" "snd (span_of (length b) rng) \<le> int (length b)"
    using r by (auto simp: range_valid_def span_of_def)
  have "wrap_i32 (l + k) = l + k" "as_usize (l + k) = nat (l + k)" "as_usize l = nat l"
    using w s small by (simp_all add: wrap_i32_def as_usize_def)
  then have "t = utf8_lossy (take (nat (l + k) - nat l) (drop (nat l) b))"
    using assms(4) rng c by (auto simp: current_statement_def bytes_get_def split: option.splits if_splits)
  moreover have "nat l + (nat (l + k) - nat l) = nat (l + k)" using w s by simp
  moreover have "span_of (length b) rng =
      (if stmt_location < 0 then (0, int (length b))
       else (stmt_location,
             if stmt_len \<le> 0 \<or> stmt_location + stmt_len > int (length b) then int (length b) else stmt_location + stmt_len))"
    using rng by (auto simp: validated_range_def span_of_def Let_def split: if_splits)
  then have "if stmt_location < 0 then nat (l + k) \<le> length b
     else nat stmt_location \<le> nat l \<and>
       nat (l + k) \<le> (if stmt_len \<le> 0 \<or> stmt_location + stmt_len > int (length b) then length b
                    else nat (stmt_location + stmt_len))"
    using w by (auto simp: nat_le_iff split: if_splits)
  ultimately show ?thesis
    by (intro exI [of _ "nat l"] exI [of _ "nat (l + k) - nat l"]) simp
qed

lemma current_statement_within_witness:
  "\<exists>start n. lit ''SELECT 2'' = utf8_lossy (take n (drop start (lit ''SELECT 1;SELECT 2''))) \<and>
    9 \<le> start \<and> start + n \<le> 17"
proof -
  have t: "clean_trims demo_pg"
    by (auto simp: clean_trims_def demo_pg_def demo_clean_def span_of_def range_valid_def)
  have c: "current_statement demo_pg (Some (lit ''SELECT 1;SELECT 2'')) 9 0 = Some (lit ''SELECT 2'')"
    by code_simp
  have n: "length (lit ''SELECT 1;SELECT 2'') = 17" by (simp add: lit_def)
  show ?thesis
    using current_statement_within [OF t _ _ c] unfolding n by simp
qed

end
