(* ===== verification/Config.thy ===== *)
theory Config
  imports Utf8
begin

text \<open>
  The settings of the extension (\<open>src/config.rs\<close>): the registration of each GUC, its getter and the
  exporter configuration built from them.

  A GUC's current value is what Postgres stores: a nullable C string (bytes without NUL), an
  \<open>i32\<close>, or an enum value. \<open>into_string\<close> fails exactly on bytes that are not UTF-8. A getter
  returns its messages to the log, in order, and its value.
\<close>

section \<open>Registration\<close>

datatype guc_context = GucPostmaster | GucSighup | GucSuset | GucUserset

datatype guc_flag = SUPERUSER_ONLY | NO_SHOW_ALL | DISALLOW_IN_FILE | UNIT_MS | UNIT_KB

datatype query_text_mode = QueryTextOff | QueryTextNormalized | QueryTextRaw

datatype guc_kind =
    GucString "str option"
  | GucInt int int int
  | GucEnum query_text_mode

record guc_def =
  guc_name :: str
  guc_kind_of :: guc_kind
  guc_context_of :: guc_context
  guc_flags :: "guc_flag list"

definition string_guc :: "string \<Rightarrow> str option \<Rightarrow> guc_context \<Rightarrow> guc_flag list \<Rightarrow> guc_def" where
  "string_guc name d ctx flags =
     \<lparr>guc_name = lit name, guc_kind_of = GucString d, guc_context_of = ctx, guc_flags = flags\<rparr>"

text \<open>Default, minimum and maximum.\<close>

definition int_guc :: "string \<Rightarrow> int \<Rightarrow> int \<Rightarrow> int \<Rightarrow> guc_context \<Rightarrow> guc_flag list \<Rightarrow> guc_def" where
  "int_guc name d lo hi ctx flags =
     \<lparr>guc_name = lit name, guc_kind_of = GucInt d lo hi, guc_context_of = ctx, guc_flags = flags\<rparr>"

definition define_otlp_endpoint_guc :: guc_def where
  "define_otlp_endpoint_guc =
     string_guc ''pg_otel.otlp_endpoint'' (Some (lit ''http://localhost:4317'')) GucSighup []"

definition define_otlp_timeout_ms_guc :: guc_def where
  "define_otlp_timeout_ms_guc = int_guc ''pg_otel.otlp_timeout_ms'' 10000 1 86400000 GucSighup []"

definition define_otlp_protocol_guc :: guc_def where
  "define_otlp_protocol_guc = string_guc ''pg_otel.otlp_protocol'' (Some (lit ''grpc'')) GucSighup []"

definition define_otlp_authorization_guc :: guc_def where
  "define_otlp_authorization_guc =
     string_guc ''pg_otel.otlp_authorization'' None GucSighup [SUPERUSER_ONLY, NO_SHOW_ALL]"

definition define_otlp_ca_certificate_guc :: guc_def where
  "define_otlp_ca_certificate_guc = string_guc ''pg_otel.otlp_ca_certificate'' None GucSighup []"

definition OTLP_SERVICE_NAME_DEFAULT :: str where
  "OTLP_SERVICE_NAME_DEFAULT = lit ''postgresql''"

definition define_otlp_service_name_guc :: guc_def where
  "define_otlp_service_name_guc =
     string_guc ''pg_otel.service_name'' (Some OTLP_SERVICE_NAME_DEFAULT) GucSighup []"

definition define_otlp_traceparent_guc :: guc_def where
  "define_otlp_traceparent_guc = string_guc ''pg_otel.traceparent'' None GucUserset [DISALLOW_IN_FILE]"

definition define_query_text_guc :: guc_def where
  "define_query_text_guc =
     \<lparr>guc_name = lit ''pg_otel.query_text'', guc_kind_of = GucEnum QueryTextNormalized,
      guc_context_of = GucSuset, guc_flags = []\<rparr>"

definition define_min_duration_ms_guc :: guc_def where
  "define_min_duration_ms_guc =
     int_guc ''pg_otel.min_duration_ms'' (- 1) (- 1) (2 ^ 31 - 1) GucSuset [UNIT_MS]"

definition define_queue_size_kb_guc :: guc_def where
  "define_queue_size_kb_guc =
     int_guc ''pg_otel.queue_size_kb'' 1024 64 1048576 GucPostmaster [UNIT_KB]"

definition define_max_plan_spans_guc :: guc_def where
  "define_max_plan_spans_guc = int_guc ''pg_otel.max_plan_spans'' 1000 0 100000 GucSuset []"

definition define_gucs :: "guc_def list" where
  "define_gucs =
     [define_otlp_endpoint_guc, define_otlp_protocol_guc, define_otlp_timeout_ms_guc,
      define_otlp_authorization_guc, define_otlp_ca_certificate_guc, define_otlp_service_name_guc,
      define_otlp_traceparent_guc, define_query_text_guc, define_min_duration_ms_guc,
      define_queue_size_kb_guc, define_max_plan_spans_guc]"

section \<open>Values\<close>

record gucs =
  OTLP_ENDPOINT :: "bytes option"
  OTLP_TIMEOUT_MS :: i32
  OTLP_PROTOCOL :: "bytes option"
  OTLP_AUTHORIZATION :: "bytes option"
  OTLP_CA_CERTIFICATE :: "bytes option"
  OTLP_SERVICE_NAME :: "bytes option"
  OTLP_TRACEPARENT :: "bytes option"
  QUERY_TEXT :: query_text_mode
  MIN_DURATION_MS :: i32
  QUEUE_SIZE_KB :: i32
  MAX_PLAN_SPANS :: i32

datatype config_log = ConfigNotSet str | ConfigNotValid str

definition into_string :: "bytes \<Rightarrow> str option" where
  "into_string b = (if utf8_valid b then Some b else None)"

text \<open>The body the string getters share: unset is logged when \<open>required\<close>, invalid always.\<close>

definition get_string :: "str \<Rightarrow> bool \<Rightarrow> bytes option \<Rightarrow> config_log list \<times> str option" where
  "get_string name required v =
     (case v of
        None \<Rightarrow> (if required then [ConfigNotSet name] else [], None)
      | Some b \<Rightarrow>
          (case into_string b of
             Some s \<Rightarrow> ([], Some s)
           | None \<Rightarrow> ([ConfigNotValid name], None)))"

definition get_otlp_endpoint :: "gucs \<Rightarrow> config_log list \<times> str option" where
  "get_otlp_endpoint g = get_string (lit ''pg_otel.otlp_endpoint'') True (OTLP_ENDPOINT g)"

definition get_otlp_protocol :: "gucs \<Rightarrow> config_log list \<times> str option" where
  "get_otlp_protocol g = get_string (lit ''pg_otel.otlp_protocol'') True (OTLP_PROTOCOL g)"

definition get_otlp_authorization :: "gucs \<Rightarrow> config_log list \<times> str option" where
  "get_otlp_authorization g = get_string (lit ''pg_otel.otlp_authorization'') False (OTLP_AUTHORIZATION g)"

definition get_otlp_ca_certificate :: "gucs \<Rightarrow> config_log list \<times> str option" where
  "get_otlp_ca_certificate g = get_string (lit ''pg_otel.otlp_ca_certificate'') False (OTLP_CA_CERTIFICATE g)"

definition get_otlp_service_name :: "gucs \<Rightarrow> config_log list \<times> str" where
  "get_otlp_service_name g =
     (case OTLP_SERVICE_NAME g of
        None \<Rightarrow> ([], OTLP_SERVICE_NAME_DEFAULT)
      | Some b \<Rightarrow>
          (case into_string b of
             Some name \<Rightarrow> ([], name)
           | None \<Rightarrow> ([ConfigNotValid (lit ''pg_otel.service_name'')], OTLP_SERVICE_NAME_DEFAULT)))"

definition get_otlp_traceparent :: "gucs \<Rightarrow> config_log list \<times> str option" where
  "get_otlp_traceparent g = get_string (lit ''pg_otel.traceparent'') False (OTLP_TRACEPARENT g)"

definition get_query_text_mode :: "gucs \<Rightarrow> query_text_mode" where
  "get_query_text_mode g = QUERY_TEXT g"

definition get_min_duration_ms :: "gucs \<Rightarrow> i32" where
  "get_min_duration_ms g = MIN_DURATION_MS g"

definition get_queue_size_kb :: "gucs \<Rightarrow> i32" where
  "get_queue_size_kb g = QUEUE_SIZE_KB g"

text \<open>\<open>usize::try_from(n).unwrap_or(0)\<close>.\<close>

definition get_max_plan_spans :: "gucs \<Rightarrow> nat" where
  "get_max_plan_spans g = nat (sint (MAX_PLAN_SPANS g))"

record exporter_config =
  cfg_endpoint :: str
  cfg_protocol :: str
  cfg_timeout_ms :: u32
  cfg_authorization :: "str option"
  cfg_ca_certificate :: "str option"
  cfg_service_name :: str

text \<open>\<open>ExporterConfig::load\<close>: the \<open>?\<close> after the first two getters skips the ones that follow.\<close>

definition load :: "gucs \<Rightarrow> config_log list \<times> exporter_config option" where
  "load g =
     (case get_otlp_endpoint g of
        (l1, None) \<Rightarrow> (l1, None)
      | (l1, Some endpoint) \<Rightarrow>
          (case get_otlp_protocol g of
             (l2, None) \<Rightarrow> (l1 @ l2, None)
           | (l2, Some protocol) \<Rightarrow>
               (case get_otlp_authorization g of (l3, authorization) \<Rightarrow>
               case get_otlp_ca_certificate g of (l4, ca) \<Rightarrow>
               case get_otlp_service_name g of (l5, name) \<Rightarrow>
                 (l1 @ l2 @ l3 @ l4 @ l5,
                  Some \<lparr>cfg_endpoint = endpoint, cfg_protocol = protocol,
                        cfg_timeout_ms = OTLP_TIMEOUT_MS g, cfg_authorization = authorization,
                        cfg_ca_certificate = ca, cfg_service_name = name\<rparr>))))"

section \<open>Ranges\<close>

text \<open>
  Postgres keeps an integer GUC within its registered range (\<open>define_int_guc\<close>).
\<close>

definition in_range :: "guc_def \<Rightarrow> i32 \<Rightarrow> bool" where
  "in_range d v =
     (case guc_kind_of d of GucInt _ lo hi \<Rightarrow> lo \<le> sint v \<and> sint v \<le> hi | _ \<Rightarrow> True)"

definition gucs_ok :: "gucs \<Rightarrow> bool" where
  "gucs_ok g \<longleftrightarrow>
     in_range define_otlp_timeout_ms_guc (OTLP_TIMEOUT_MS g) \<and>
     in_range define_min_duration_ms_guc (MIN_DURATION_MS g) \<and>
     in_range define_queue_size_kb_guc (QUEUE_SIZE_KB g) \<and>
     in_range define_max_plan_spans_guc (MAX_PLAN_SPANS g)"

lemma gucs_ranges:
  assumes "gucs_ok g"
  shows "1 \<le> sint (OTLP_TIMEOUT_MS g)" "sint (OTLP_TIMEOUT_MS g) \<le> 86400000"
    "- 1 \<le> sint (MIN_DURATION_MS g)"
    "64 \<le> sint (QUEUE_SIZE_KB g)" "sint (QUEUE_SIZE_KB g) \<le> 1048576"
    "0 \<le> sint (MAX_PLAN_SPANS g)" "sint (MAX_PLAN_SPANS g) \<le> 100000"
  using assms
  by (simp_all add: gucs_ok_def in_range_def int_guc_def define_otlp_timeout_ms_guc_def
      define_min_duration_ms_guc_def define_queue_size_kb_guc_def define_max_plan_spans_guc_def)

section \<open>Properties\<close>

text \<open>
  The value of a setting that is set and valid UTF-8, and the message about one that is not, as the
  contract of the configuration sees them.
\<close>

definition usable :: "bytes option \<Rightarrow> str option" where
  "usable v = (case v of Some b \<Rightarrow> if utf8_valid b then Some b else None | None \<Rightarrow> None)"

definition missing_message :: "string \<Rightarrow> bytes option \<Rightarrow> config_log" where
  "missing_message name v = (if v = None then ConfigNotSet (lit name) else ConfigNotValid (lit name))"

definition broken_message :: "string \<Rightarrow> bytes option \<Rightarrow> config_log list" where
  "broken_message name v = (if v \<noteq> None \<and> usable v = None then [ConfigNotValid (lit name)] else [])"

text \<open>
  C40 (functional). The exporter configuration exists iff endpoint and protocol are set and valid
  UTF-8; if not, the first of the two that is missing or broken is named in the log, in a single line.
  Then endpoint and protocol are the settings' values, the timeout is the positive number of milliseconds
  that was set, and the rest has its defaults where it is unset or broken: no authorization, no
  certificate, and the service name \<open>postgresql\<close>. The log names exactly the broken ones of these.
\<close>

theorem load_config:
  assumes "gucs_ok g"
  shows "case (usable (OTLP_ENDPOINT g), usable (OTLP_PROTOCOL g)) of
      (None, _) \<Rightarrow> load g = ([missing_message ''pg_otel.otlp_endpoint'' (OTLP_ENDPOINT g)], None)
    | (Some e, None) \<Rightarrow> load g = ([missing_message ''pg_otel.otlp_protocol'' (OTLP_PROTOCOL g)], None)
    | (Some e, Some p) \<Rightarrow> \<exists>c. snd (load g) = Some c \<and>
        cfg_endpoint c = e \<and> cfg_protocol c = p \<and>
        int (unat (cfg_timeout_ms c)) = sint (OTLP_TIMEOUT_MS g) \<and> 0 < unat (cfg_timeout_ms c) \<and>
        cfg_authorization c = usable (OTLP_AUTHORIZATION g) \<and>
        cfg_ca_certificate c = usable (OTLP_CA_CERTIFICATE g) \<and>
        cfg_service_name c = (case usable (OTLP_SERVICE_NAME g) of Some n \<Rightarrow> n | None \<Rightarrow> lit ''postgresql'') \<and>
        fst (load g) = broken_message ''pg_otel.otlp_authorization'' (OTLP_AUTHORIZATION g) @
          broken_message ''pg_otel.otlp_ca_certificate'' (OTLP_CA_CERTIFICATE g) @
          broken_message ''pg_otel.service_name'' (OTLP_SERVICE_NAME g)"
proof -
  let ?w = "OTLP_TIMEOUT_MS g"
  have t: "int (unat ?w) = sint ?w" using gucs_ranges(1) [OF assms] by (intro unat_sint_nonneg) simp
  then have "0 < unat ?w" using gucs_ranges(1) [OF assms] by linarith
  with t show ?thesis
    by (simp add: load_def get_otlp_endpoint_def get_otlp_protocol_def get_otlp_authorization_def
        get_otlp_ca_certificate_def get_otlp_service_name_def get_string_def into_string_def usable_def
        missing_message_def broken_message_def OTLP_SERVICE_NAME_DEFAULT_def split: option.split)
qed

definition demo_gucs :: gucs where
  "demo_gucs =
     \<lparr>OTLP_ENDPOINT = Some (lit ''http://collector:4317''), OTLP_TIMEOUT_MS = 10000,
      OTLP_PROTOCOL = Some (lit ''grpc''), OTLP_AUTHORIZATION = Some [0xFF], OTLP_CA_CERTIFICATE = None,
      OTLP_SERVICE_NAME = None, OTLP_TRACEPARENT = None, QUERY_TEXT = QueryTextNormalized,
      MIN_DURATION_MS = - 1, QUEUE_SIZE_KB = 1024, MAX_PLAN_SPANS = 1000\<rparr>"

theorem load_config_witness:
  "\<exists>c. load (demo_gucs\<lparr>OTLP_SERVICE_NAME := Some [0xFF]\<rparr>) =
      ([ConfigNotValid (lit ''pg_otel.otlp_authorization''), ConfigNotValid (lit ''pg_otel.service_name'')], Some c) \<and>
    cfg_authorization c = None \<and> cfg_service_name c = lit ''postgresql'' \<and> int (unat (cfg_timeout_ms c)) = 10000"
proof -
  let ?g = "demo_gucs\<lparr>OTLP_SERVICE_NAME := Some [0xFF]\<rparr>"
  have ok: "gucs_ok ?g" by code_simp
  have v: "usable (OTLP_ENDPOINT ?g) = Some (lit ''http://collector:4317'')" "usable (OTLP_PROTOCOL ?g) = Some (lit ''grpc'')"
    "usable (OTLP_AUTHORIZATION ?g) = None" "usable (OTLP_CA_CERTIFICATE ?g) = None" "usable (OTLP_SERVICE_NAME ?g) = None"
    by code_simp+
  have t: "sint (OTLP_TIMEOUT_MS ?g) = 10000" "OTLP_AUTHORIZATION ?g \<noteq> None" "OTLP_CA_CERTIFICATE ?g = None"
    "OTLP_SERVICE_NAME ?g \<noteq> None"
    by (simp_all add: demo_gucs_def)
  from load_config [OF ok] v t show ?thesis by (cases "load ?g") (auto simp: broken_message_def)
qed

end
