(* ===== verification/Queue.thy ===== *)
theory Queue
  imports Prelude
begin

text \<open>
  The byte ring with length-prefixed records (\<open>src/queue.rs\<close>): batches, the ring over a byte slice
  with two 64-bit positions, and the record iterator over a drained byte stream.

  Positions are \<open>64 word\<close> values, as in the code; lengths of Rust slices and vectors are \<open>nat\<close>.
  Operations that index slices return \<open>None\<close> where the code would panic, so "never panics" is a
  theorem and not a convention. Integer arithmetic is that of the release profile (no overflow
  checks, results wrap).
\<close>

section \<open>Data\<close>

definition LEN_PREFIX_BYTES :: nat where
  "LEN_PREFIX_BYTES = 4"

definition MAX_RECORD_BYTES :: nat where
  "MAX_RECORD_BYTES = 64 * 1024"

record ring_state =
  head :: u64
  tail :: u64

definition ring_state_new :: ring_state where
  "ring_state_new = \<lparr>head = 0, tail = 0\<rparr>"

datatype record_too_large = RecordTooLarge nat

datatype queue_full = QueueFull nat nat

datatype corrupted = Corrupted string

record batch =
  batch_bytes :: bytes
  batch_records :: nat

record ring =
  rstate :: ring_state
  rdata :: bytes

section \<open>Batches\<close>

definition batch_new :: batch where
  "batch_new = \<lparr>batch_bytes = [], batch_records = 0\<rparr>"

text \<open>
  \<open>Batch::push_record\<close>. The closure \<open>write\<close> receives the whole buffer and returns the grown one;
  the subtraction that measures the payload is the wrapping one of \<open>usize\<close>.
\<close>

definition push_record ::
    "batch \<Rightarrow> (bytes \<Rightarrow> bytes) \<Rightarrow> (record_too_large + unit) \<times> batch" where
  "push_record b write =
     (let start = length (batch_bytes b);
          grown = write (batch_bytes b @ replicate LEN_PREFIX_BYTES 0);
          len = nat ((int (length grown) - int start - int LEN_PREFIX_BYTES) mod 2 ^ 64)
      in if len > MAX_RECORD_BYTES
         then (Inl (RecordTooLarge len), b\<lparr>batch_bytes := take start grown\<rparr>)
         else let prefix = to_le_bytes (word_of_nat len :: u32)
              in (Inr (), b\<lparr>batch_bytes := take start grown @ prefix
                               @ drop (start + LEN_PREFIX_BYTES) grown,
                            batch_records := batch_records b + 1\<rparr>))"

definition batch_is_empty :: "batch \<Rightarrow> bool" where
  "batch_is_empty b \<longleftrightarrow> batch_records b = 0"

section \<open>The ring\<close>

definition capacity :: "ring \<Rightarrow> nat" where
  "capacity r = length (rdata r)"

definition is_consistent :: "ring \<Rightarrow> bool" where
  "is_consistent r \<longleftrightarrow>
     head (rstate r) \<le> tail (rstate r) \<and>
     tail (rstate r) - head (rstate r) \<le> word_of_nat (length (rdata r))"

definition used :: "ring \<Rightarrow> nat" where
  "used r = (if is_consistent r then unat (tail (rstate r) - head (rstate r)) else 0)"

definition free :: "ring \<Rightarrow> nat" where
  "free r = capacity r - used r"

definition reset :: "ring \<Rightarrow> ring" where
  "reset r = r\<lparr>rstate := ring_state_new\<rparr>"

text \<open>\<open>copy_in\<close> and \<open>copy_out_slice\<close>; the remainder panics on an empty data area.\<close>

definition copy_in :: "bytes \<Rightarrow> u64 \<Rightarrow> bytes \<Rightarrow> bytes option" where
  "copy_in d pos src =
     (if src = [] then Some d
      else if d = [] then None
      else let cap = length d;
               start = unat (pos mod word_of_nat cap);
               first = min (length src) (cap - start)
           in Option.bind (write_slice d start (take first src))
                (\<lambda>d'. write_slice d' 0 (drop first src)))"

definition copy_out_slice :: "bytes \<Rightarrow> u64 \<Rightarrow> nat \<Rightarrow> bytes option" where
  "copy_out_slice d pos n =
     (if n = 0 then Some []
      else if d = [] then None
      else let cap = length d;
               start = unat (pos mod word_of_nat cap);
               first = min n (cap - start)
           in Option.bind (read_slice d start first)
                (\<lambda>xs. map_option (\<lambda>ys. xs @ ys) (read_slice d 0 (n - first))))"

definition copy_out :: "bytes \<Rightarrow> u64 \<Rightarrow> nat \<Rightarrow> bytes \<Rightarrow> bytes option" where
  "copy_out d pos len out = map_option (\<lambda>xs. out @ xs) (copy_out_slice d pos len)"

definition read_len :: "bytes \<Rightarrow> u64 \<Rightarrow> nat option" where
  "read_len d pos =
     map_option (\<lambda>prefix. unat (from_le_bytes prefix :: u32)) (copy_out_slice d pos LEN_PREFIX_BYTES)"

definition push_batch :: "ring \<Rightarrow> batch \<Rightarrow> ((queue_full + unit) \<times> ring) option" where
  "push_batch r0 b =
     (let r = (if is_consistent r0 then r0 else reset r0);
          needed = length (batch_bytes b);
          room = free r
      in if needed > room then Some (Inl (QueueFull needed room), r)
         else map_option
                (\<lambda>d. (Inr (), r\<lparr>rstate := (rstate r)\<lparr>tail := tail (rstate r) + word_of_nat needed\<rparr>,
                                rdata := d\<rparr>))
                (copy_in (rdata r) (tail (rstate r)) (batch_bytes b)))"

text \<open>The loop of \<open>measure_drain\<close>, with its two counters as arguments.\<close>

function measure_loop ::
    "ring \<Rightarrow> nat \<Rightarrow> nat \<Rightarrow> nat \<Rightarrow> nat \<Rightarrow> (corrupted + nat \<times> nat) option" where
  "measure_loop r max_bytes available taken records =
     (if taken < available then
        let remaining = available - taken in
        if remaining < LEN_PREFIX_BYTES then Some (Inl (Corrupted ''truncated length prefix''))
        else (case read_len (rdata r) (head (rstate r) + word_of_nat taken) of
                None \<Rightarrow> None
              | Some len \<Rightarrow>
                  if len > MAX_RECORD_BYTES \<or> LEN_PREFIX_BYTES + len > remaining
                  then Some (Inl (Corrupted ''record length out of range''))
                  else let size = LEN_PREFIX_BYTES + len in
                    if records > 0 \<and> taken + size > max_bytes then Some (Inr (taken, records))
                    else measure_loop r max_bytes available (taken + size) (records + 1))
      else Some (Inr (taken, records)))"
  by pat_completeness auto
termination
  by (relation "measure (\<lambda>(r, m, a, t, n). a - t)") (auto simp: LEN_PREFIX_BYTES_def)

declare measure_loop.simps [simp del]

definition measure_drain :: "ring \<Rightarrow> nat \<Rightarrow> (corrupted + nat \<times> nat) option" where
  "measure_drain r max_bytes = measure_loop r max_bytes (used r) 0 0"

text \<open>\<open>drain_into\<close>: the result, the grown output vector and the ring.\<close>

definition drain_into ::
    "ring \<Rightarrow> bytes \<Rightarrow> nat \<Rightarrow> ((corrupted + nat) \<times> bytes \<times> ring) option" where
  "drain_into r out max_bytes =
     (if \<not> is_consistent r
      then Some (Inl (Corrupted ''ring positions are inconsistent''), out, reset r)
      else case measure_drain r max_bytes of
             None \<Rightarrow> None
           | Some (Inr (n, records)) \<Rightarrow>
               map_option
                 (\<lambda>out'. (Inr records, out',
                          r\<lparr>rstate := (rstate r)\<lparr>head := head (rstate r) + word_of_nat n\<rparr>\<rparr>))
                 (copy_out (rdata r) (head (rstate r)) n out)
           | Some (Inl c) \<Rightarrow>
               Some (Inl c, out, r\<lparr>rstate := (rstate r)\<lparr>head := tail (rstate r)\<rparr>\<rparr>))"

section \<open>The record stream\<close>

definition split_record :: "bytes \<Rightarrow> corrupted + bytes \<times> bytes" where
  "split_record bs =
     (if length bs < LEN_PREFIX_BYTES then Inl (Corrupted ''truncated length prefix'')
      else let body = drop LEN_PREFIX_BYTES bs;
               len = unat (from_le_bytes (take LEN_PREFIX_BYTES bs) :: u32)
           in if len > MAX_RECORD_BYTES \<or> len > length body
              then Inl (Corrupted ''record length out of range'')
              else Inr (take len body, drop len body))"

text \<open>One call of the iterator's \<open>next\<close>, and the items of the whole iteration.\<close>

definition records_next :: "bytes \<Rightarrow> (corrupted + bytes) option \<times> bytes" where
  "records_next rest =
     (if rest = [] then (None, rest)
      else case split_record rest of
             Inr (payload, rest') \<Rightarrow> (Some (Inr payload), rest')
           | Inl c \<Rightarrow> (Some (Inl c), []))"

lemma split_record_shorter: "split_record bs = Inr (p, rest) \<Longrightarrow> length rest < length bs"
  by (auto simp: split_record_def Let_def LEN_PREFIX_BYTES_def split: if_splits)

lemma records_next_shorter: "records_next bs = (Some i, rest) \<Longrightarrow> length rest < length bs"
  by (auto simp: records_next_def split: if_splits sum.splits dest: split_record_shorter)

function records :: "bytes \<Rightarrow> (corrupted + bytes) list" where
  "records bs =
     (case records_next bs of
        (None, _) \<Rightarrow> []
      | (Some item, rest) \<Rightarrow> item # records rest)"
  by pat_completeness auto
termination
  by (relation "measure length") (auto dest: records_next_shorter [OF sym])

declare records.simps [simp del]

text \<open>Whether a producer wakes the consumer after a push.\<close>

definition should_wake :: "nat \<Rightarrow> nat \<Rightarrow> nat \<Rightarrow> bool" where
  "should_wake used_before used_after cap =
     (let half = cap div 2 in used_before = 0 \<or> (used_before < half \<and> used_after \<ge> half))"

section \<open>Slice access through the ring\<close>

text \<open>Rust slices hold at most \<open>isize::MAX\<close> bytes.\<close>

definition slice_sized :: "bytes \<Rightarrow> bool" where
  "slice_sized d \<longleftrightarrow> length d < 2 ^ 63"

lemma start_offset:
  "slice_sized d \<Longrightarrow> unat ((pos :: u64) mod word_of_nat (length d)) = unat pos mod length d"
  by (simp add: slice_sized_def unat_mod_distrib unat_of_nat)

lemma start_bound:
  "slice_sized d \<Longrightarrow> d \<noteq> [] \<Longrightarrow> unat ((pos :: u64) mod word_of_nat (length d)) < length d"
  by (simp add: start_offset)

lemma copy_out_slice_circ:
  assumes sz: "slice_sized d" and n: "n \<le> length d"
  shows "copy_out_slice d pos n = Some (circ d (unat pos) n)"
proof (cases "n = 0")
  case True
  then show ?thesis by (simp add: copy_out_slice_def)
next
  case False
  with n have ne: "d \<noteq> []" by auto
  let ?s = "unat pos mod length d"
  have s: "?s < length d" using ne by simp
  have "circ d (unat pos) n = circ d ?s n" by simp
  also have "\<dots> = take (min n (length d - ?s)) (drop ?s d) @ take (n - (length d - ?s)) d"
    using n s by (rule circ_from_start)
  finally show ?thesis
    using False ne n s
    by (auto simp: copy_out_slice_def start_offset [OF sz] read_slice_Some Let_def min_def)
qed

lemma copy_in_total:
  assumes sz: "slice_sized d" and n: "length src \<le> length d"
  shows "\<exists>d'. copy_in d pos src = Some d' \<and> length d' = length d \<and>
    (\<forall>j < length d. d' ! j =
       (let k = (j + length d - unat pos mod length d) mod length d
        in if k < length src then src ! k else d ! j))"
proof (cases "src = []")
  case True
  then show ?thesis by (simp add: copy_in_def)
next
  case False
  with n have ne: "d \<noteq> []" by auto
  define s where "s = unat pos mod length d"
  define first where "first = min (length src) (length d - s)"
  have s: "s < length d" using ne by (simp add: s_def)
  have fit: "s + length (take first src) \<le> length d" using s by (simp add: first_def)
  obtain d1 where d1: "write_slice d s (take first src) = Some d1"
    using write_slice_Some [OF fit] by blast
  have l1: "length d1 = length d" using d1 by (rule write_slice_length)
  have fit1: "0 + length (drop first src) \<le> length d1" using n l1 by simp
  obtain d2 where d2: "write_slice d1 0 (drop first src) = Some d2"
    using write_slice_Some [OF fit1] by blast
  have l2: "length d2 = length d" using write_slice_length [OF d2] l1 by simp
  have eq: "copy_in d pos src = Some d2"
    using False ne d1 d2
    by (simp add: copy_in_def start_offset [OF sz] Let_def s_def first_def)
  have "d2 ! j = (let k = (j + length d - s) mod length d in if k < length src then src ! k else d ! j)"
    if j: "j < length d" for j
  proof -
    have k: "(j + length d - s) mod length d = (if s \<le> j then j - s else j + length d - s)"
      using j s by (rule offset_mod)
    have "d2 ! j = (if j < length (drop first src) then drop first src ! j else d1 ! j)"
      using write_slice_nth [OF d2, of j] j l1 by simp
    moreover have "d1 ! j = (if s \<le> j \<and> j < s + length (take first src)
        then take first src ! (j - s) else d ! j)"
      using write_slice_nth [OF d1 j] .
    ultimately show ?thesis
      using k j s n by (auto simp: Let_def first_def min_def add.commute)
  qed
  with eq l2 show ?thesis by (auto simp: s_def)
qed

lemma copy_in_written:
  assumes "slice_sized d" "length src \<le> length d" "copy_in d pos src = Some d'"
  shows "circ d' (unat pos) (length src) = src"
proof (rule nth_equalityI)
  fix i
  assume "i < length (circ d' (unat pos) (length src))"
  then have i: "i < length src" by simp
  let ?n = "length d"
  have ne: "0 < ?n" using i assms(2) by linarith
  obtain d2 where d2: "copy_in d pos src = Some d2" "length d2 = ?n"
    "\<forall>j < ?n. d2 ! j = (let k = (j + ?n - unat pos mod ?n) mod ?n in if k < length src then src ! k else d ! j)"
    using copy_in_total [OF assms(1,2), of pos] by blast
  have same: "d2 = d'" using d2(1) assms(3) by simp
  let ?j = "(unat pos + i) mod ?n"
  have "(?j + ?n - unat pos mod ?n) mod ?n = i mod ?n"
    using ne by (rule window_offset)
  with i assms(2) have "(?j + ?n - unat pos mod ?n) mod ?n = i" by simp
  with d2(3) ne i have "d2 ! ?j = src ! i" by simp
  with i same d2(2) show "circ d' (unat pos) (length src) ! i = src ! i" by simp
qed (simp)

section \<open>Record streams\<close>

text \<open>What a batch with payloads \<open>ps\<close> holds: each payload behind its length prefix.\<close>

definition frame :: "bytes \<Rightarrow> bytes" where
  "frame p = to_le_bytes (word_of_nat (length p) :: u32) @ p"

definition stream :: "bytes list \<Rightarrow> bytes" where
  "stream ps = concat (map frame ps)"

definition payload_ok :: "bytes \<Rightarrow> bool" where
  "payload_ok p \<longleftrightarrow> length p \<le> MAX_RECORD_BYTES"

lemma stream_simps [simp]:
  "stream [] = []" "stream (p # ps) = frame p @ stream ps" "stream (ps @ qs) = stream ps @ stream qs"
  by (simp_all add: stream_def)

lemma length_frame [simp]: "length (frame p) = LEN_PREFIX_BYTES + length p"
  by (simp add: frame_def LEN_PREFIX_BYTES_def)

lemma frame_prefix:
  "payload_ok p \<Longrightarrow> unat (from_le_bytes (take LEN_PREFIX_BYTES (frame p @ rest)) :: u32) = length p"
  by (simp add: frame_def LEN_PREFIX_BYTES_def payload_ok_def MAX_RECORD_BYTES_def unat_of_nat)

lemma frame_body: "drop LEN_PREFIX_BYTES (frame p @ rest) = p @ rest"
  by (simp add: frame_def LEN_PREFIX_BYTES_def)

lemma frame_not_Nil [simp]: "frame p \<noteq> []"
proof -
  have "length (frame p) \<noteq> 0" unfolding length_frame by (simp add: LEN_PREFIX_BYTES_def)
  then show ?thesis by (metis list.size(3))
qed

lemma split_record_frame: "payload_ok p \<Longrightarrow> split_record (frame p @ rest) = Inr (p, rest)"
  unfolding split_record_def frame_body Let_def
  by (subst (1 2 3 4) frame_prefix) (simp_all add: payload_ok_def)

lemma records_Nil [simp]: "records [] = []"
  by (simp add: records.simps records_next_def)

lemma records_frame: "payload_ok p \<Longrightarrow> records (frame p @ rest) = Inr p # records rest"
  by (subst records.simps) (simp add: records_next_def split_record_frame)

lemma records_stream:
  "list_all payload_ok ps \<Longrightarrow> records (stream ps @ rest) = map Inr ps @ records rest"
  by (induction ps) (simp_all add: records_frame)

lemma split_record_Inr:
  assumes "split_record bs = Inr (p, rest)"
  shows "bs = frame p @ rest \<and> payload_ok p"
proof -
  let ?pre = "take LEN_PREFIX_BYTES bs" and ?body = "drop LEN_PREFIX_BYTES bs"
  let ?len = "unat (from_le_bytes ?pre :: u32)"
  from assms have l: "LEN_PREFIX_BYTES \<le> length bs"
    and m: "?len \<le> MAX_RECORD_BYTES" "?len \<le> length ?body"
    and p: "p = take ?len ?body" "rest = drop ?len ?body"
    by (auto simp: split_record_def Let_def split: if_splits)
  have len: "length p = ?len" using m(2) p(1) by simp
  have "length ?pre = 4" using l by (simp add: LEN_PREFIX_BYTES_def)
  then have pre: "to_le_bytes (word_of_nat (length p) :: u32) = ?pre"
    by (simp only: len of_nat_unat ucast_id to_from_le_u32)
  have body: "?body = p @ rest" using p by (simp only: append_take_drop_id)
  have "bs = ?pre @ ?body" by (simp only: append_take_drop_id)
  also have "\<dots> = frame p @ rest" by (simp only: frame_def pre body append_assoc)
  finally have "bs = frame p @ rest" .
  with m(1) len show ?thesis by (simp only: payload_ok_def simp_thms)
qed

text \<open>
  Any byte string is a stream of well-formed records followed by at most one error: the iterator
  yields the payloads and ends after the first \<open>Corrupted\<close>.
\<close>

lemma records_shape:
  "\<exists>ps rest. bs = stream ps @ rest \<and> list_all payload_ok ps \<and>
     ((rest = [] \<and> records bs = map Inr ps) \<or>
      (\<exists>c. split_record rest = Inl c \<and> rest \<noteq> [] \<and> records bs = map Inr ps @ [Inl c]))"
proof (induction bs rule: records.induct)
  case (1 bs)
  show ?case
  proof (cases "bs = []")
    case True
    then show ?thesis by (intro exI [of _ "[]"]) simp
  next
    case ne: False
    show ?thesis
    proof (cases "split_record bs")
      case (Inl c)
      then have "records bs = [Inl c]"
        using ne by (subst records.simps) (simp add: records_next_def)
      with Inl ne show ?thesis by (intro exI [of _ "[]"] exI [of _ bs]) simp
    next
      case (Inr pr)
      obtain p rest where pr: "pr = (p, rest)" by (cases pr)
      have next_eq: "records_next bs = (Some (Inr p), rest)"
        using ne Inr pr by (simp add: records_next_def)
      have bs: "bs = frame p @ rest" "payload_ok p"
        using split_record_Inr Inr pr by auto
      obtain qs rest' where IH: "rest = stream qs @ rest'" "list_all payload_ok qs"
        "(rest' = [] \<and> records rest = map Inr qs) \<or>
         (\<exists>c. split_record rest' = Inl c \<and> rest' \<noteq> [] \<and> records rest = map Inr qs @ [Inl c])"
        using "1.IH" [OF next_eq [symmetric]] by auto
      show ?thesis
        using IH bs records_frame [of p rest]
        by (intro exI [of _ "p # qs"] exI [of _ rest']) auto
    qed
  qed
qed

section \<open>The queued bytes\<close>

definition ring_wf :: "ring \<Rightarrow> bool" where
  "ring_wf r \<longleftrightarrow> slice_sized (rdata r) \<and> is_consistent r"

definition ring_contents :: "ring \<Rightarrow> bytes" where
  "ring_contents r = circ (rdata r) (unat (head (rstate r))) (used r)"

lemma length_ring_contents [simp]: "length (ring_contents r) = used r"
  by (simp add: ring_contents_def)

lemma ring_wf_positions:
  assumes "ring_wf r"
  shows "used r = unat (tail (rstate r)) - unat (head (rstate r))"
    and "unat (head (rstate r)) + used r = unat (tail (rstate r))"
    and "used r \<le> length (rdata r)"
proof -
  let ?h = "head (rstate r)" and ?t = "tail (rstate r)"
  from assms have le: "?h \<le> ?t" and sz: "length (rdata r) < 2 ^ 63"
    and cap: "?t - ?h \<le> word_of_nat (length (rdata r))"
    and u: "used r = unat (?t - ?h)"
    by (simp_all add: ring_wf_def is_consistent_def slice_sized_def used_def)
  have sub: "unat (?t - ?h) = unat ?t - unat ?h" using le by (rule unat_sub)
  have "unat (?t - ?h) \<le> unat (word_of_nat (length (rdata r)) :: u64)"
    using cap by (simp add: word_le_nat_alt)
  also have "\<dots> = length (rdata r)" using sz by (simp add: unat_of_nat)
  finally show "used r \<le> length (rdata r)" using u by simp
  show "used r = unat ?t - unat ?h" using u sub by simp
  then show "unat ?h + used r = unat ?t" using le by (simp add: word_le_nat_alt)
qed

lemma ring_wf_advance_head:
  assumes wf: "ring_wf r" and n: "n \<le> used r"
  defines "r' \<equiv> r\<lparr>rstate := (rstate r)\<lparr>head := head (rstate r) + word_of_nat n\<rparr>\<rparr>"
  shows "ring_wf r'" and "used r' = used r - n" and "ring_contents r' = drop n (ring_contents r)"
proof -
  let ?h = "head (rstate r)" and ?t = "tail (rstate r)"
  note pos = ring_wf_positions [OF wf]
  have tb: "unat ?t < 2 ^ 64" using unsigned_less [of ?t] by simp
  have h': "unat (?h + word_of_nat n) = unat ?h + n"
    using pos(2) n tb by (simp add: unat_word_ariths unat_of_nat)
  have le: "?h + word_of_nat n \<le> ?t" using pos(2) n h' by (simp add: word_le_nat_alt)
  have sub: "unat (?t - (?h + word_of_nat n)) = used r - n"
    using unat_sub [OF le] h' pos(2) by simp
  have sz: "length (rdata r) < 2 ^ 63" using wf by (simp add: ring_wf_def slice_sized_def)
  have "?t - (?h + word_of_nat n) \<le> word_of_nat (length (rdata r))"
    using sub pos(3) sz by (simp add: word_le_nat_alt unat_of_nat)
  with le wf have cons: "is_consistent r'" by (simp add: is_consistent_def r'_def)
  with wf show "ring_wf r'" by (simp add: ring_wf_def r'_def)
  show u': "used r' = used r - n" using cons sub by (simp add: used_def r'_def)
  show "ring_contents r' = drop n (ring_contents r)"
    using n h' u' by (simp add: ring_contents_def r'_def drop_circ)
qed

lemma ring_wf_empty:
  assumes "slice_sized (rdata r)" and "head (rstate r) = tail (rstate r)"
  shows "ring_wf r \<and> used r = 0 \<and> ring_contents r = []"
proof -
  have "is_consistent r" using assms by (simp add: is_consistent_def)
  with assms show ?thesis by (simp add: ring_wf_def used_def ring_contents_def)
qed

lemma ring_wf_reset:
  "slice_sized (rdata r) \<Longrightarrow> ring_wf (reset r) \<and> used (reset r) = 0 \<and> ring_contents (reset r) = []"
  by (rule ring_wf_empty) (simp_all add: reset_def ring_state_new_def)

lemma rdata_reset [simp]: "rdata (reset r) = rdata r"
  by (simp add: reset_def)

section \<open>Pushing\<close>

lemma push_batch_full:
  "needed = length (batch_bytes b) \<Longrightarrow> is_consistent r \<Longrightarrow> needed > free r \<Longrightarrow>
   push_batch r b = Some (Inl (QueueFull needed (free r)), r)"
  by (simp add: push_batch_def)

lemma push_batch_repairs:
  "\<not> is_consistent r \<Longrightarrow> slice_sized (rdata r) \<Longrightarrow> push_batch r b = push_batch (reset r) b"
  using ring_wf_reset [of r] by (simp add: push_batch_def ring_wf_def)

lemma push_batch_fits:
  assumes wf: "ring_wf r" and fits: "length (batch_bytes b) \<le> free r"
  shows "\<exists>d'. push_batch r b = Some (Inr (),
      r\<lparr>rstate := (rstate r)\<lparr>tail := tail (rstate r) + word_of_nat (length (batch_bytes b))\<rparr>, rdata := d'\<rparr>)
    \<and> length d' = length (rdata r)
    \<and> circ d' (unat (head (rstate r))) (used r) = ring_contents r
    \<and> circ d' (unat (tail (rstate r))) (length (batch_bytes b)) = batch_bytes b"
proof -
  let ?d = "rdata r" and ?src = "batch_bytes b"
  let ?h = "unat (head (rstate r))" and ?t = "tail (rstate r)"
  let ?n = "length ?d"
  note pos = ring_wf_positions [OF wf]
  have sz: "slice_sized ?d" and cons: "is_consistent r" using wf by (simp_all add: ring_wf_def)
  have room: "used r + length ?src \<le> ?n" using fits pos(3) by (simp add: free_def capacity_def)
  then have len: "length ?src \<le> ?n" by simp
  obtain d' where d': "copy_in ?d ?t ?src = Some d'" "length d' = ?n"
    "\<forall>j < ?n. d' ! j = (let k = (j + ?n - unat ?t mod ?n) mod ?n in if k < length ?src then ?src ! k else ?d ! j)"
    using copy_in_total [OF sz len, of ?t] by blast
  have old: "circ d' ?h (used r) = ring_contents r"
    unfolding ring_contents_def
  proof (rule nth_equalityI)
    fix i assume "i < length (circ d' ?h (used r))"
    then have i: "i < used r" by simp
    with pos(3) have ne: "0 < ?n" by linarith
    let ?j = "(?h + i) mod ?n"
    have "?j = (unat ?t + (i + ?n - used r)) mod ?n"
    proof -
      have "unat ?t + (i + ?n - used r) = ?h + i + ?n" using pos(2,3) i by simp
      then show ?thesis by simp
    qed
    then have "(?j + ?n - unat ?t mod ?n) mod ?n = (i + ?n - used r) mod ?n"
      using window_offset [OF ne, of "unat ?t" "i + ?n - used r"] by simp
    also have "\<dots> = i + ?n - used r" using i pos(3) by simp
    finally have "\<not> (?j + ?n - unat ?t mod ?n) mod ?n < length ?src" using room by simp
    with d'(3) ne have "d' ! ?j = ?d ! ?j" by simp
    with i d'(2) show "circ d' ?h (used r) ! i = circ ?d ?h (used r) ! i" by simp
  qed simp
  have new: "circ d' (unat ?t) (length ?src) = ?src"
    by (rule copy_in_written [OF sz len d'(1)])
  have "push_batch r b = Some (Inr (), r\<lparr>rstate := (rstate r)\<lparr>tail := ?t + word_of_nat (length ?src)\<rparr>, rdata := d'\<rparr>)"
    using cons fits d'(1) by (simp add: push_batch_def Let_def)
  with d'(2) old new show ?thesis by blast
qed

text \<open>The tail counter did not pass \<open>2 ^ 64\<close>.\<close>

definition tail_room :: "ring \<Rightarrow> nat \<Rightarrow> bool" where
  "tail_room r n \<longleftrightarrow> unat (tail (rstate r)) + n < 2 ^ 64"

lemma push_batch_contents:
  assumes wf: "ring_wf r" and fits: "length (batch_bytes b) \<le> free r"
    and nowrap: "tail_room r (length (batch_bytes b))"
  shows "\<exists>r'. push_batch r b = Some (Inr (), r') \<and> ring_wf r' \<and> capacity r' = capacity r \<and>
    head (rstate r') = head (rstate r) \<and>
    unat (tail (rstate r')) = unat (tail (rstate r)) + length (batch_bytes b) \<and>
    ring_contents r' = ring_contents r @ batch_bytes b"
proof -
  let ?h = "head (rstate r)" and ?t = "tail (rstate r)" and ?m = "length (batch_bytes b)"
  note pos = ring_wf_positions [OF wf]
  obtain d' where d': "push_batch r b = Some (Inr (),
      r\<lparr>rstate := (rstate r)\<lparr>tail := ?t + word_of_nat ?m\<rparr>, rdata := d'\<rparr>)"
    "length d' = length (rdata r)" "circ d' (unat ?h) (used r) = ring_contents r"
    "circ d' (unat ?t) ?m = batch_bytes b"
    using push_batch_fits [OF wf fits] by blast
  define r' where "r' = r\<lparr>rstate := (rstate r)\<lparr>tail := ?t + word_of_nat ?m\<rparr>, rdata := d'\<rparr>"
  have t': "unat (?t + word_of_nat ?m) = unat ?t + ?m"
    using nowrap by (simp add: tail_room_def unat_word_ariths unat_of_nat)
  have le: "?h \<le> ?t + word_of_nat ?m" using t' pos(2) by (simp add: word_le_nat_alt)
  have sub: "unat (?t + word_of_nat ?m - ?h) = used r + ?m"
    using unat_sub [OF le] t' pos(2) by simp
  have sz: "length (rdata r) < 2 ^ 63" using wf by (simp add: ring_wf_def slice_sized_def)
  have room: "used r + ?m \<le> length (rdata r)" using fits pos(3) by (simp add: free_def capacity_def)
  have "?t + word_of_nat ?m - ?h \<le> word_of_nat (length d')"
    using sub room sz d'(2) by (simp add: word_le_nat_alt unat_of_nat)
  with le have cons: "is_consistent r'" by (simp add: is_consistent_def r'_def)
  then have u': "used r' = used r + ?m" using sub by (simp add: used_def r'_def)
  have "ring_contents r' = circ d' (unat ?h) (used r + ?m)"
    using u' by (simp add: ring_contents_def r'_def)
  also have "\<dots> = ring_contents r @ batch_bytes b"
    using d'(3,4) pos(2) by (simp add: circ_append)
  finally have cont: "ring_contents r' = ring_contents r @ batch_bytes b" .
  have "ring_wf r'" using cons sz d'(2) by (simp add: ring_wf_def slice_sized_def r'_def)
  with d'(1,2) cont t' show ?thesis
    by (intro exI [of _ r']) (simp add: r'_def capacity_def)
qed

section \<open>Draining\<close>

lemma read_len_ring:
  assumes wf: "ring_wf r" and t: "t + LEN_PREFIX_BYTES \<le> used r"
  shows "read_len (rdata r) (head (rstate r) + word_of_nat t) =
    Some (unat (from_le_bytes (take LEN_PREFIX_BYTES (drop t (ring_contents r))) :: u32))"
proof -
  let ?h = "head (rstate r)"
  note pos = ring_wf_positions [OF wf]
  have tb: "unat (tail (rstate r)) < 2 ^ 64" using unsigned_less [of "tail (rstate r)"] by simp
  have p: "unat (?h + word_of_nat t) = unat ?h + t"
    using pos(2) t tb by (simp add: unat_word_ariths unat_of_nat)
  have sz: "slice_sized (rdata r)" using wf by (simp add: ring_wf_def)
  have "LEN_PREFIX_BYTES \<le> length (rdata r)" using t pos(3) by linarith
  then have "copy_out_slice (rdata r) (?h + word_of_nat t) LEN_PREFIX_BYTES
      = Some (circ (rdata r) (unat ?h + t) LEN_PREFIX_BYTES)"
    using copy_out_slice_circ [OF sz] p by simp
  moreover have "circ (rdata r) (unat ?h + t) LEN_PREFIX_BYTES
      = take LEN_PREFIX_BYTES (drop t (ring_contents r))"
    using t by (simp add: ring_contents_def drop_circ take_circ)
  ultimately show ?thesis by (simp add: read_len_def)
qed

text \<open>The measuring loop stays within the queued bytes and never panics, whatever they hold.\<close>

lemma measure_loop_bounds:
  assumes "ring_wf r" and "taken \<le> used r"
  shows "\<exists>res. measure_loop r m (used r) taken n = Some res \<and>
    (\<forall>n' k. res = Inr (n', k) \<longrightarrow> taken \<le> n' \<and> n' \<le> used r \<and> n \<le> k \<and>
       (taken < used r \<longrightarrow> n = 0 \<longrightarrow> 0 < k))"
  using assms
proof (induction r m "used r" taken n rule: measure_loop.induct)
  case (1 r m taken n)
  let ?rem = "used r - taken"
  show ?case
  proof (cases "taken < used r \<and> LEN_PREFIX_BYTES \<le> ?rem")
    case False
    then show ?thesis using "1.prems" by (subst measure_loop.simps) auto
  next
    case True
    then have "taken + LEN_PREFIX_BYTES \<le> used r" by linarith
    then obtain len where len: "read_len (rdata r) (head (rstate r) + word_of_nat taken) = Some len"
      using read_len_ring [OF "1.prems"(1)] by simp
    show ?thesis
    proof (cases "len > MAX_RECORD_BYTES \<or> LEN_PREFIX_BYTES + len > ?rem \<or>
        n > 0 \<and> taken + (LEN_PREFIX_BYTES + len) > m")
      case stop: True
      with True len "1.prems" show ?thesis by (subst measure_loop.simps) (auto simp: Let_def)
    next
      case False
      then have "taken + (LEN_PREFIX_BYTES + len) \<le> used r" using True by linarith
      with "1.hyps" [OF _ refl _ len _ refl] True False "1.prems"
      obtain res where res: "measure_loop r m (used r) (taken + (LEN_PREFIX_BYTES + len)) (n + 1) = Some res"
        "\<forall>n' k. res = Inr (n', k) \<longrightarrow> taken + (LEN_PREFIX_BYTES + len) \<le> n' \<and> n' \<le> used r \<and> n + 1 \<le> k"
        by force
      have "measure_loop r m (used r) taken n = Some res"
        using True False len res(1) by (subst measure_loop.simps) (auto simp: Let_def)
      with res(2) show ?thesis by fastforce
    qed
  qed
qed

lemma copy_out_ring:
  assumes "ring_wf r" and "n \<le> used r"
  shows "copy_out (rdata r) (head (rstate r)) n out = Some (out @ take n (ring_contents r))"
proof -
  note pos = ring_wf_positions [OF assms(1)]
  have "n \<le> length (rdata r)" using assms(2) pos(3) by simp
  with assms show ?thesis
    by (simp add: copy_out_def copy_out_slice_circ ring_wf_def ring_contents_def take_circ)
qed

text \<open>How many of the payloads \<open>ps\<close> a drain takes that has \<open>t\<close> bytes and \<open>n\<close> records already.\<close>

fun drain_take :: "nat \<Rightarrow> nat \<Rightarrow> nat \<Rightarrow> bytes list \<Rightarrow> nat" where
  "drain_take m t n [] = 0"
| "drain_take m t n (p # ps) =
     (if n > 0 \<and> t + length (frame p) > m then 0
      else Suc (drain_take m (t + length (frame p)) (n + 1) ps))"

lemma drain_take_le: "drain_take m t n ps \<le> length ps"
  by (induction m t n ps rule: drain_take.induct) auto

lemma drain_take_progress: "ps \<noteq> [] \<Longrightarrow> 0 < drain_take m t 0 ps"
  by (cases ps) auto

lemma drain_take_fits:
  "0 < n \<Longrightarrow> t \<le> m \<Longrightarrow> t + length (stream (take (drain_take m t n ps) ps)) \<le> m"
  by (induction m t n ps rule: drain_take.induct) (auto simp: add.assoc)

lemma drain_take_greedy:
  "drain_take m t n ps < length ps \<Longrightarrow>
   m < t + length (stream (take (Suc (drain_take m t n ps)) ps))"
  by (induction m t n ps rule: drain_take.induct) (auto simp: add.assoc)

lemma measure_loop_stream:
  assumes "ring_wf r" and "ring_contents r = pre @ stream ps" and "list_all payload_ok ps"
  shows "measure_loop r m (used r) (length pre) n =
    Some (Inr (length pre + length (stream (take (drain_take m (length pre) n ps) ps)),
               n + drain_take m (length pre) n ps))"
  using assms
proof (induction ps arbitrary: pre n)
  case Nil
  then have "used r = length pre" using length_ring_contents [of r] by simp
  then show ?case by (subst measure_loop.simps) simp
next
  case (Cons p ps)
  have ok: "payload_ok p" "list_all payload_ok ps" using Cons.prems(3) by simp_all
  have u: "used r = length pre + (length (frame p) + length (stream ps))"
    using length_ring_contents [of r] Cons.prems(2) by simp
  have lt: "length pre < used r" and rem: "\<not> used r - length pre < LEN_PREFIX_BYTES"
    using u by (simp_all add: LEN_PREFIX_BYTES_def)
  have rl: "read_len (rdata r) (head (rstate r) + word_of_nat (length pre)) = Some (length p)"
  proof -
    have "length pre + LEN_PREFIX_BYTES \<le> used r" using u by simp
    then have "read_len (rdata r) (head (rstate r) + word_of_nat (length pre)) =
        Some (unat (from_le_bytes (take LEN_PREFIX_BYTES (drop (length pre) (ring_contents r))) :: u32))"
      by (rule read_len_ring [OF Cons.prems(1)])
    also have "drop (length pre) (ring_contents r) = frame p @ stream ps"
      using Cons.prems(2) by simp
    finally show ?thesis by (simp only: frame_prefix [OF ok(1)])
  qed
  have fit: "\<not> (length p > MAX_RECORD_BYTES \<or> LEN_PREFIX_BYTES + length p > used r - length pre)"
    using ok(1) u by (simp add: payload_ok_def)
  show ?case
  proof (cases "n > 0 \<and> length pre + length (frame p) > m")
    case True
    then show ?thesis using lt rem rl fit by (subst measure_loop.simps) (simp add: Let_def)
  next
    case False
    have "ring_contents r = (pre @ frame p) @ stream ps" using Cons.prems(2) by simp
    from Cons.IH [OF Cons.prems(1) this ok(2), of "n + 1"] False lt rem rl fit show ?thesis
      by (subst measure_loop.simps) (simp add: Let_def add.assoc)
  qed
qed

section \<open>What the ring and a batch represent\<close>

text \<open>The payloads of a record stream: the iterator's items up to the first error.\<close>

definition payloads :: "bytes \<Rightarrow> bytes list" where
  "payloads bs = map projr (takeWhile (\<lambda>x. \<not> isl x) (records bs))"

definition batch_rep :: "batch \<Rightarrow> bytes list \<Rightarrow> bool" where
  "batch_rep b ps \<longleftrightarrow>
     batch_bytes b = stream ps \<and> batch_records b = length ps \<and> list_all payload_ok ps"

definition ring_rep :: "ring \<Rightarrow> bytes list \<Rightarrow> bool" where
  "ring_rep r ps \<longleftrightarrow> ring_wf r \<and> ring_contents r = stream ps \<and> list_all payload_ok ps"

lemma takeWhile_map_Inr [simp]: "takeWhile (\<lambda>x. \<not> isl x) (map Inr ps) = map Inr ps"
  by (induction ps) simp_all

lemma payloads_stream: "list_all payload_ok ps \<Longrightarrow> payloads (stream ps) = ps"
  using records_stream [of ps "[]"] by (simp add: payloads_def comp_def)

lemma ring_rep_payloads: "ring_rep r ps \<Longrightarrow> payloads (ring_contents r) = ps"
  by (simp add: ring_rep_def payloads_stream)

lemma batch_rep_new: "batch_rep batch_new []"
  by (simp add: batch_rep_def batch_new_def)

lemma push_record_appends:
  assumes b: "batch_rep b ps" and w: "\<And>buf. write buf = buf @ p" and sz: "length p < 2 ^ 64"
  shows "push_record b write =
    (if payload_ok p
     then (Inr (), \<lparr>batch_bytes = stream (ps @ [p]), batch_records = length (ps @ [p])\<rparr>)
     else (Inl (RecordTooLarge (length p)), b))"
proof -
  have len: "nat ((int (length (stream ps) + (4 + length p)) - int (length (stream ps)) - 4) mod 2 ^ 64)
      = length p"
    using sz by simp
  show ?thesis
    using b len
    by (cases b)
       (simp add: push_record_def batch_rep_def Let_def w LEN_PREFIX_BYTES_def payload_ok_def
          frame_def not_le)
qed

lemma push_record_rep:
  assumes "batch_rep b ps" and "\<And>buf. write buf = buf @ p" and "payload_ok p"
  shows "\<exists>b'. push_record b write = (Inr (), b') \<and> batch_rep b' (ps @ [p])"
proof -
  have "length p < 2 ^ 64" using assms(3) by (simp add: payload_ok_def MAX_RECORD_BYTES_def)
  with assms show ?thesis
    by (simp add: push_record_appends) (simp add: batch_rep_def)
qed

lemma push_batch_rep:
  assumes r: "ring_rep r ps" and b: "batch_rep b qs" and room: "tail_room r (length (batch_bytes b))"
  shows "\<exists>r'. push_batch r b =
      Some (if length (batch_bytes b) \<le> free r then Inr ()
            else Inl (QueueFull (length (batch_bytes b)) (free r)), r')
    \<and> ring_rep r' (if length (batch_bytes b) \<le> free r then ps @ qs else ps)
    \<and> capacity r' = capacity r"
proof (cases "length (batch_bytes b) \<le> free r")
  case True
  have wf: "ring_wf r" using r by (simp add: ring_rep_def)
  from push_batch_contents [OF wf True room] True r b show ?thesis
    by (auto simp: ring_rep_def batch_rep_def)
next
  case False
  then have "push_batch r b = Some (Inl (QueueFull (length (batch_bytes b)) (free r)), r)"
    using r by (intro push_batch_full) (simp_all add: ring_rep_def ring_wf_def)
  with False r show ?thesis by simp
qed

lemma drain_into_rep:
  fixes max_bytes :: nat
  assumes r: "ring_rep r ps"
  defines "k \<equiv> drain_take max_bytes 0 0 ps"
  shows "\<exists>r'. drain_into r out max_bytes = Some (Inr k, out @ stream (take k ps), r') \<and>
    ring_rep r' (drop k ps) \<and> capacity r' = capacity r"
proof -
  have wf: "ring_wf r" and c: "ring_contents r = stream ps" and ok: "list_all payload_ok ps"
    using r by (simp_all add: ring_rep_def)
  let ?n = "length (stream (take k ps))"
  have split: "stream ps = stream (take k ps) @ stream (drop k ps)"
    using stream_simps(3) [of "take k ps" "drop k ps"] by simp
  have m: "measure_drain r max_bytes = Some (Inr (?n, k))"
    using measure_loop_stream [of r "[]" ps max_bytes 0] wf c ok
    by (simp add: measure_drain_def k_def)
  have "used r = length (stream ps)" using length_ring_contents [of r] c by simp
  then have n: "?n \<le> used r" using split by simp
  let ?r' = "r\<lparr>rstate := (rstate r)\<lparr>head := head (rstate r) + word_of_nat ?n\<rparr>\<rparr>"
  have "copy_out (rdata r) (head (rstate r)) ?n out = Some (out @ stream (take k ps))"
    using copy_out_ring [OF wf n] c split by simp
  then have d: "drain_into r out max_bytes = Some (Inr k, out @ stream (take k ps), ?r')"
    using wf m by (simp add: drain_into_def ring_wf_def)
  have "ring_contents ?r' = stream (drop k ps)"
    using ring_wf_advance_head(3) [OF wf n] c split by simp
  moreover have "list_all payload_ok (drop k ps)"
    using ok by (auto simp: list_all_iff dest: in_set_dropD)
  ultimately have "ring_rep ?r' (drop k ps)"
    using ring_wf_advance_head(1) [OF wf n] by (simp add: ring_rep_def)
  with d show ?thesis by (intro exI [of _ ?r']) (simp add: capacity_def)
qed

section \<open>A FIFO channel\<close>

text \<open>
  The contract between the producers, the queue and the exporter: a channel whose contents are a
  list of items, to which a producer adds a whole load at the end or nothing, and from which the
  consumer takes a prefix. \<open>admissible\<close> is what a producer guarantees about its load.
\<close>

datatype 'b channel_event = Put 'b | Take nat

fun channel_run ::
    "('s \<Rightarrow> 'b \<Rightarrow> bool \<times> 's) \<Rightarrow> ('b \<Rightarrow> 'p list) \<Rightarrow> ('s \<Rightarrow> nat \<Rightarrow> 'p list \<times> 's) \<Rightarrow>
     's \<Rightarrow> 'b channel_event list \<Rightarrow> 'p list \<times> 'p list \<times> 's" where
  "channel_run put load tak s [] = ([], [], s)"
| "channel_run put load tak s (Put b # es) =
     (let (ok, s') = put s b; (acc, del, s'') = channel_run put load tak s' es
      in ((if ok then load b @ acc else acc), del, s''))"
| "channel_run put load tak s (Take n # es) =
     (let (xs, s') = tak s n; (acc, del, s'') = channel_run put load tak s' es
      in (acc, xs @ del, s''))"

fun channel_admissible ::
    "('s \<Rightarrow> 'b \<Rightarrow> bool \<times> 's) \<Rightarrow> ('s \<Rightarrow> nat \<Rightarrow> 'p list \<times> 's) \<Rightarrow> ('s \<Rightarrow> 'b \<Rightarrow> bool) \<Rightarrow>
     's \<Rightarrow> 'b channel_event list \<Rightarrow> bool" where
  "channel_admissible put tak adm s [] = True"
| "channel_admissible put tak adm s (Put b # es) =
     (adm s b \<and> channel_admissible put tak adm (snd (put s b)) es)"
| "channel_admissible put tak adm s (Take n # es) =
     channel_admissible put tak adm (snd (tak s n)) es"

locale fifo_channel =
  fixes inv :: "'s \<Rightarrow> bool"
    and items :: "'s \<Rightarrow> 'p list"
    and put :: "'s \<Rightarrow> 'b \<Rightarrow> bool \<times> 's"
    and load :: "'b \<Rightarrow> 'p list"
    and adm :: "'s \<Rightarrow> 'b \<Rightarrow> bool"
    and tak :: "'s \<Rightarrow> nat \<Rightarrow> 'p list \<times> 's"
  assumes put_inv: "inv s \<Longrightarrow> adm s b \<Longrightarrow> inv (snd (put s b))"
    and put_items: "inv s \<Longrightarrow> adm s b \<Longrightarrow>
      items (snd (put s b)) = (if fst (put s b) then items s @ load b else items s)"
    and take_inv: "inv s \<Longrightarrow> inv (snd (tak s n))"
    and take_items: "inv s \<Longrightarrow> items s = fst (tak s n) @ items (snd (tak s n))"
    and take_progress: "inv s \<Longrightarrow> items s \<noteq> [] \<Longrightarrow> fst (tak s n) \<noteq> []"
begin

lemma run_fifo:
  assumes "inv s" and "channel_admissible put tak adm s es"
    and "channel_run put load tak s es = (acc, del, s')"
  shows "inv s' \<and> items s @ acc = del @ items s'"
  using assms
proof (induction es arbitrary: s acc del)
  case Nil
  then show ?case by simp
next
  case (Cons e es)
  show ?case
  proof (cases e)
    case (Put b)
    obtain acc' where r: "channel_run put load tak (snd (put s b)) es = (acc', del, s')"
      and acc: "acc = (if fst (put s b) then load b @ acc' else acc')"
      using Cons.prems(3) Put by (auto simp: Let_def split: prod.splits if_splits)
    have "adm s b" "channel_admissible put tak adm (snd (put s b)) es"
      using Cons.prems(2) Put by simp_all
    with Cons.IH [OF _ _ r] Cons.prems(1) acc show ?thesis
      using put_inv [of s b] put_items [of s b] by (auto split: if_splits)
  next
    case (Take n)
    obtain del' where r: "channel_run put load tak (snd (tak s n)) es = (acc, del', s')"
      and del: "del = fst (tak s n) @ del'"
      using Cons.prems(3) Take by (auto simp: Let_def split: prod.splits)
    have "channel_admissible put tak adm (snd (tak s n)) es" using Cons.prems(2) Take by simp
    with Cons.IH [OF _ _ r] Cons.prems(1) del show ?thesis
      using take_inv [of s n] take_items [of s n] by auto
  qed
qed

lemma take_shrinks:
  assumes "inv s" and "items s \<noteq> []"
  shows "length (items (snd (tak s n))) < length (items s)"
  using take_items [OF assms(1), of n] take_progress [OF assms, of n] by (auto simp: neq_Nil_conv)

end

section \<open>The ring is a FIFO channel\<close>

text \<open>
  A push is admissible when its batch was built by \<open>push_record\<close> and the 64-bit tail counter has
  room for it. \<open>ring_take\<close> drains into an empty vector and reads the payloads back with the
  record iterator, as the exporter does.
\<close>

definition ring_inv :: "ring \<Rightarrow> bool" where
  "ring_inv r \<longleftrightarrow> (\<exists>ps. ring_rep r ps)"

definition ring_items :: "ring \<Rightarrow> bytes list" where
  "ring_items r = payloads (ring_contents r)"

definition batch_items :: "batch \<Rightarrow> bytes list" where
  "batch_items b = payloads (batch_bytes b)"

definition push_admissible :: "ring \<Rightarrow> batch \<Rightarrow> bool" where
  "push_admissible r b \<longleftrightarrow>
     batch_rep b (batch_items b) \<and> tail_room r (length (batch_bytes b))"

definition ring_put :: "ring \<Rightarrow> batch \<Rightarrow> bool \<times> ring" where
  "ring_put r b =
     (case push_batch r b of
        Some (Inr (), r') \<Rightarrow> (True, r')
      | Some (Inl _, r') \<Rightarrow> (False, r')
      | None \<Rightarrow> (False, r))"

definition ring_take :: "ring \<Rightarrow> nat \<Rightarrow> bytes list \<times> ring" where
  "ring_take r max_bytes =
     (case drain_into r [] max_bytes of
        Some (Inr _, out, r') \<Rightarrow> (payloads out, r')
      | Some (Inl _, _, r') \<Rightarrow> ([], r')
      | None \<Rightarrow> ([], r))"

lemma ring_inv_rep: "ring_inv r \<Longrightarrow> ring_rep r (ring_items r)"
  by (auto simp: ring_inv_def ring_items_def dest: ring_rep_payloads)

lemma ring_rep_inv: "ring_rep r ps \<Longrightarrow> ring_inv r \<and> ring_items r = ps"
  by (auto simp: ring_inv_def ring_items_def dest: ring_rep_payloads)

lemma ring_put_rep:
  assumes "ring_inv r" and "push_admissible r b"
  shows "ring_inv (snd (ring_put r b)) \<and>
    fst (ring_put r b) = (length (batch_bytes b) \<le> free r) \<and>
    ring_items (snd (ring_put r b)) =
      (if length (batch_bytes b) \<le> free r then ring_items r @ batch_items b else ring_items r)"
proof -
  from assms push_batch_rep [OF ring_inv_rep, of r b "batch_items b"]
  obtain r' where r': "push_batch r b =
      Some (if length (batch_bytes b) \<le> free r then Inr ()
            else Inl (QueueFull (length (batch_bytes b)) (free r)), r')"
    "ring_rep r' (if length (batch_bytes b) \<le> free r then ring_items r @ batch_items b else ring_items r)"
    by (auto simp: push_admissible_def)
  have "ring_put r b = (length (batch_bytes b) \<le> free r, r')"
    unfolding ring_put_def r'(1) by (simp split: unit.splits)
  with ring_rep_inv [OF r'(2)] show ?thesis by simp
qed

lemma ring_take_rep:
  assumes "ring_inv r"
  defines "k \<equiv> (\<lambda>m. drain_take m 0 0 (ring_items r))"
  shows "fst (ring_take r m) = take (k m) (ring_items r) \<and>
    ring_inv (snd (ring_take r m)) \<and> ring_items (snd (ring_take r m)) = drop (k m) (ring_items r)"
proof -
  have rep: "ring_rep r (ring_items r)" using assms(1) by (rule ring_inv_rep)
  have "list_all payload_ok (take (k m) (ring_items r))"
    using rep by (auto simp: ring_rep_def list_all_iff dest: in_set_takeD)
  then have pl: "payloads (stream (take (k m) (ring_items r))) = take (k m) (ring_items r)"
    by (rule payloads_stream)
  obtain r' where r': "drain_into r [] m = Some (Inr (k m), [] @ stream (take (k m) (ring_items r)), r')"
    "ring_rep r' (drop (k m) (ring_items r))"
    using drain_into_rep [OF rep, where max_bytes = m and out = "[]"] by (auto simp: k_def)
  then show ?thesis using pl ring_rep_inv [OF r'(2)] by (simp add: ring_take_def)
qed

interpretation ring_chan: fifo_channel ring_inv ring_items ring_put batch_items push_admissible ring_take
proof unfold_locales
  fix s b n
  show "ring_inv s \<Longrightarrow> push_admissible s b \<Longrightarrow> ring_inv (snd (ring_put s b))"
    by (simp add: ring_put_rep)
  show "ring_inv s \<Longrightarrow> push_admissible s b \<Longrightarrow> ring_items (snd (ring_put s b)) =
      (if fst (ring_put s b) then ring_items s @ batch_items b else ring_items s)"
    by (simp add: ring_put_rep)
  show "ring_inv s \<Longrightarrow> ring_inv (snd (ring_take s n))"
    by (simp add: ring_take_rep)
  show "ring_inv s \<Longrightarrow> ring_items s = fst (ring_take s n) @ ring_items (snd (ring_take s n))"
    by (simp only: ring_take_rep append_take_drop_id)
  show "ring_inv s \<Longrightarrow> ring_items s \<noteq> [] \<Longrightarrow> fst (ring_take s n) \<noteq> []"
    using drain_take_progress [of "ring_items s" n 0] by (simp add: ring_take_rep)
qed

lemma ring_new_rep: "slice_sized d \<Longrightarrow> ring_rep \<lparr>rstate = ring_state_new, rdata = d\<rparr> []"
  using ring_wf_empty [of "\<lparr>rstate = ring_state_new, rdata = d\<rparr>"]
  by (simp add: ring_rep_def ring_state_new_def)

lemma push_batch_total:
  assumes "slice_sized (rdata r)"
  shows "\<exists>pres r'. push_batch r b = Some (pres, r') \<and> capacity r' = capacity r"
proof -
  define r0 where "r0 = (if is_consistent r then r else reset r)"
  have wf0: "ring_wf r0" using assms ring_wf_reset [of r] by (simp add: r0_def ring_wf_def)
  have cap0: "rdata r0 = rdata r" by (simp add: r0_def)
  have push0: "push_batch r b = push_batch r0 b"
    using assms push_batch_repairs [of r b] by (simp add: r0_def)
  show ?thesis
  proof (cases "length (batch_bytes b) \<le> free r0")
    case True
    with push_batch_fits [OF wf0 True] push0 cap0 show ?thesis by (auto simp: capacity_def)
  next
    case False
    then have "push_batch r0 b = Some (Inl (QueueFull (length (batch_bytes b)) (free r0)), r0)"
      using wf0 by (intro push_batch_full) (simp_all add: ring_wf_def)
    with push0 cap0 show ?thesis by (simp add: capacity_def)
  qed
qed

text \<open>What any drain leaves behind, whatever the memory held.\<close>

definition drained_ok :: "ring \<Rightarrow> bytes \<Rightarrow> corrupted + nat \<Rightarrow> bytes \<Rightarrow> ring \<Rightarrow> bool" where
  "drained_ok r out res out' r' \<longleftrightarrow>
     capacity r' = capacity r \<and> ring_wf r' \<and>
     (case res of
        Inl c \<Rightarrow> used r' = 0 \<and> out' = out
      | Inr k \<Rightarrow> used r' + length out' = used r + length out \<and> (0 < used r \<longrightarrow> 0 < k))"

lemma drain_into_total:
  assumes "slice_sized (rdata r)"
  shows "\<exists>res out' r'. drain_into r out max_bytes = Some (res, out', r') \<and> drained_ok r out res out' r'"
proof (cases "is_consistent r")
  case False
  then show ?thesis
    using ring_wf_reset [OF assms] by (auto simp: drain_into_def capacity_def drained_ok_def)
next
  case True
  with assms have wf: "ring_wf r" by (simp add: ring_wf_def)
  obtain res where res: "measure_drain r max_bytes = Some res"
    "\<forall>n k. res = Inr (n, k) \<longrightarrow> n \<le> used r \<and> (0 < used r \<longrightarrow> 0 < k)"
    using measure_loop_bounds [OF wf, of 0 max_bytes 0] by (auto simp: measure_drain_def)
  show ?thesis
  proof (cases res)
    case (Inl c)
    have "drain_into r out max_bytes =
        Some (Inl c, out, r\<lparr>rstate := (rstate r)\<lparr>head := tail (rstate r)\<rparr>\<rparr>)"
      using True res(1) Inl by (simp add: drain_into_def)
    then show ?thesis
      using ring_wf_empty [of "r\<lparr>rstate := (rstate r)\<lparr>head := tail (rstate r)\<rparr>\<rparr>"] assms
      by (simp add: capacity_def drained_ok_def)
  next
    case (Inr nk)
    obtain n k where nk: "nk = (n, k)" by (cases nk)
    have n: "n \<le> used r" "0 < used r \<longrightarrow> 0 < k" using res(2) Inr nk by auto
    have "drain_into r out max_bytes = Some (Inr k, out @ take n (ring_contents r),
        r\<lparr>rstate := (rstate r)\<lparr>head := head (rstate r) + word_of_nat n\<rparr>\<rparr>)"
      using True res(1) Inr nk copy_out_ring [OF wf n(1)] by (simp add: drain_into_def)
    then show ?thesis
      using ring_wf_advance_head [OF wf n(1)] n by (simp add: capacity_def drained_ok_def)
  qed
qed

text \<open>A ten byte ring and two small batches, on which the witnesses run the operations.\<close>

definition demo_ring :: ring where
  "demo_ring = \<lparr>rstate = ring_state_new, rdata = replicate 10 0\<rparr>"

definition demo_batch :: "bytes \<Rightarrow> batch" where
  "demo_batch p = snd (push_record batch_new (\<lambda>buf. buf @ p))"

definition demo_events :: "batch channel_event list" where
  "demo_events = [Put (demo_batch [9, 9, 9, 9]), Take 100, Put (demo_batch [7, 8]), Take 1]"

section \<open>Properties\<close>

text \<open>
  C1 (refinement). The ring is a bounded FIFO of records: over any sequence of pushes and
  drains that starts on a fresh ring over a slice \<open>d\<close>, what the consumer received followed by what
  is still queued is exactly the concatenation of the accepted batches, in order, byte for byte and
  through every wrap-around of the slice. No record is lost, duplicated, reordered or split.
\<close>

theorem ring_fifo:
  assumes "slice_sized d"
    and "channel_admissible ring_put ring_take push_admissible \<lparr>rstate = ring_state_new, rdata = d\<rparr> es"
    and "channel_run ring_put batch_items ring_take \<lparr>rstate = ring_state_new, rdata = d\<rparr> es
           = (accepted, delivered, r)"
  shows "ring_inv r \<and> accepted = delivered @ ring_items r"
  using ring_chan.run_fifo [OF _ assms(2,3)] ring_rep_inv [OF ring_new_rep [OF assms(1)]] by simp

theorem ring_fifo_witness:
  "\<exists>acc del r. channel_run ring_put batch_items ring_take demo_ring demo_events = (acc, del, r) \<and>
     acc = del @ ring_items r \<and> del = [[9, 9, 9, 9], [7, 8]]"
proof -
  obtain acc del r where run: "channel_run ring_put batch_items ring_take demo_ring demo_events = (acc, del, r)"
    by (cases "channel_run ring_put batch_items ring_take demo_ring demo_events") blast
  have sz: "slice_sized (replicate 10 0)" by (simp add: slice_sized_def)
  have adm: "channel_admissible ring_put ring_take push_admissible demo_ring demo_events" by code_simp
  have "fst (snd (channel_run ring_put batch_items ring_take demo_ring demo_events))
      = [[9, 9, 9, 9], [7, 8]]" by code_simp
  with run have "del = [[9, 9, 9, 9], [7, 8]]" by simp
  with run ring_fifo [OF sz adm [unfolded demo_ring_def] run [unfolded demo_ring_def]] show ?thesis
    by blast
qed

text \<open>
  C2 (functional). \<open>push_batch\<close> is all-or-nothing on a ring that holds records \<open>ps\<close>: a batch that
  fits the free bytes is queued whole behind \<open>ps\<close>, any other is refused with \<open>QueueFull\<close> naming
  the needed and the free bytes, and then the ring is left exactly as it was.
\<close>

theorem push_batch_all_or_nothing:
  assumes r: "ring_rep r ps" and b: "batch_rep b qs" and room: "tail_room r (length (batch_bytes b))"
  shows "if length (batch_bytes b) \<le> free r
    then \<exists>r'. push_batch r b = Some (Inr (), r') \<and> ring_rep r' (ps @ qs) \<and>
           free r' + length (batch_bytes b) = free r
    else push_batch r b = Some (Inl (QueueFull (length (batch_bytes b)) (free r)), r)"
proof (cases "length (batch_bytes b) \<le> free r")
  case True
  then obtain r' where r': "push_batch r b = Some (Inr (), r')" "ring_rep r' (ps @ qs)"
    "capacity r' = capacity r"
    using push_batch_rep [OF r b room] by auto
  have u: "used x = length (stream xs)" if "ring_rep x xs" for x xs
    using that length_ring_contents [of x] by (simp add: ring_rep_def)
  have "used r' = used r + length (batch_bytes b)"
    using u [OF r'(2)] u [OF r] b by (simp add: batch_rep_def)
  then have "free r' + length (batch_bytes b) = free r"
    using True r'(3) by (simp add: free_def)
  with True r' show ?thesis by auto
next
  case False
  then show ?thesis
    using r by (auto simp: ring_rep_def ring_wf_def intro: push_batch_full)
qed

theorem push_batch_all_or_nothing_witness:
  "\<exists>r'. push_batch demo_ring (demo_batch [9, 9, 9, 9]) = Some (Inr (), r') \<and>
     ring_rep r' [[9, 9, 9, 9]] \<and> free r' = 2"
proof -
  have r: "ring_rep demo_ring []"
    and b: "batch_rep (demo_batch [9, 9, 9, 9]) [[9, 9, 9, 9]]"
    and room: "tail_room demo_ring (length (batch_bytes (demo_batch [9, 9, 9, 9])))"
    and len: "length (batch_bytes (demo_batch [9, 9, 9, 9])) = 8" and cap: "free demo_ring = 10"
    by code_simp+
  from push_batch_all_or_nothing [OF r b room] len cap show ?thesis by auto
qed

text \<open>
  C3 (functional). \<open>drain_into\<close> appends to the output the first \<open>k\<close> queued records whole, with
  their prefixes, and leaves the others queued. \<open>k\<close> is at least one if anything is queued; with two
  or more the bytes taken are within the budget; and it is maximal: one more record would exceed
  the budget.
\<close>

theorem drain_into_takes_whole_records:
  assumes "ring_rep r ps"
  shows "\<exists>k r'. drain_into r out max_bytes = Some (Inr k, out @ stream (take k ps), r') \<and>
    ring_rep r' (drop k ps) \<and> k \<le> length ps \<and> (ps \<noteq> [] \<longrightarrow> 0 < k) \<and>
    (1 < k \<longrightarrow> length (stream (take k ps)) \<le> max_bytes) \<and>
    (k < length ps \<longrightarrow> max_bytes < length (stream (take (Suc k) ps)))"
proof -
  let ?k = "drain_take max_bytes 0 0 ps"
  have budget: "length (stream (take ?k ps)) \<le> max_bytes" if more: "1 < ?k"
  proof (cases ps)
    case (Cons p ps')
    let ?j = "drain_take max_bytes (length (frame p)) 1 ps'"
    have k: "?k = Suc ?j" by (simp add: Cons)
    have "length (frame p) \<le> max_bytes"
    proof (cases ps')
      case Nil
      then show ?thesis using k more by simp
    next
      case (Cons q qs)
      then show ?thesis using k more by (auto split: if_splits)
    qed
    then show ?thesis using drain_take_fits [of 1 "length (frame p)" max_bytes ps'] k Cons by simp
  qed (use more in simp)
  from drain_into_rep [OF assms, of out max_bytes] budget show ?thesis
    using drain_take_le [of max_bytes 0 0 ps] drain_take_progress [of ps max_bytes 0]
      drain_take_greedy [of max_bytes 0 0 ps]
    by (intro exI [of _ ?k]) fastforce
qed

theorem drain_into_takes_whole_records_witness:
  "\<exists>k r'. drain_into (snd (ring_put demo_ring (demo_batch [1]))) [5] 0 =
       Some (Inr k, [5] @ stream (take k [[1]]), r') \<and> k = 1 \<and> ring_rep r' []"
proof -
  have r: "ring_rep (snd (ring_put demo_ring (demo_batch [1]))) [[1]]" by code_simp
  from drain_into_takes_whole_records [OF r, of "[5]" 0]
  obtain k r' where k: "drain_into (snd (ring_put demo_ring (demo_batch [1]))) [5] 0 =
       Some (Inr k, [5] @ stream (take k [[1]]), r')" "ring_rep r' (drop k [[1]])"
    "k \<le> length [[1 :: byte]]" "[[1 :: byte]] \<noteq> [] \<longrightarrow> 0 < k" by blast
  then have "k = 1" by simp
  with k show ?thesis by auto
qed



end
