(* ===== verification/Codec.thy ===== *)
theory Codec
  imports Queue Span_Types
begin

text \<open>
  The binary encoding of span records (\<open>src/codec.rs\<close>). A \<open>put_*\<close> function is the bytes it appends;
  a method of \<open>Reader\<close> is a function from the remaining bytes to an error or the value and the bytes
  left. The interface \<open>field_codec\<close> states what one field's writer and reader owe each other.
\<close>

section \<open>Errors and the reader\<close>

datatype decode_error = Truncated | InvalidUtf8 | UnknownTag byte | TrailingBytes

definition decode_error_display :: "decode_error \<Rightarrow> str" where
  "decode_error_display e =
     (case e of
        Truncated \<Rightarrow> lit ''record is truncated''
      | InvalidUtf8 \<Rightarrow> lit ''string is not valid UTF-8''
      | UnknownTag tag \<Rightarrow> lit ''unknown tag '' @ dec_nat (unat tag)
      | TrailingBytes \<Rightarrow> lit ''unexpected bytes after the record'')"

type_synonym 'a reader = "bytes \<Rightarrow> decode_error + 'a \<times> bytes"

definition rd_return :: "'a \<Rightarrow> 'a reader" where
  "rd_return x = (\<lambda>rest. Inr (x, rest))"

definition rd_fail :: "decode_error \<Rightarrow> 'a reader" where
  "rd_fail e = (\<lambda>rest. Inl e)"

text \<open>The \<open>?\<close> operator: stop at the first error.\<close>

definition rd_bind :: "'a reader \<Rightarrow> ('a \<Rightarrow> 'b reader) \<Rightarrow> 'b reader" where
  "rd_bind m f = (\<lambda>bs. case m bs of Inl e \<Rightarrow> Inl e | Inr (x, rest) \<Rightarrow> f x rest)"

definition rd_take :: "nat \<Rightarrow> bytes reader" where
  "rd_take len = (\<lambda>rest.
     if len > length rest then Inl Truncated else Inr (take len rest, drop len rest))"

definition rd_array :: "nat \<Rightarrow> bytes reader" where
  "rd_array n = rd_take n"

definition rd_u8 :: "byte reader" where
  "rd_u8 = rd_bind (rd_array 1) (\<lambda>a. rd_return (a ! 0))"

definition rd_bool :: "bool reader" where
  "rd_bool = rd_bind rd_u8 (\<lambda>b.
     if b = 0 then rd_return False
     else if b = 1 then rd_return True
     else rd_fail (UnknownTag b))"

definition rd_i64 :: "i64 reader" where
  "rd_i64 = rd_bind (rd_array 8) (\<lambda>a. rd_return (from_le_bytes a))"

definition rd_u64 :: "u64 reader" where
  "rd_u64 = rd_bind (rd_array 8) (\<lambda>a. rd_return (from_le_bytes a))"

definition rd_i32 :: "i32 reader" where
  "rd_i32 = rd_bind (rd_array 4) (\<lambda>a. rd_return (from_le_bytes a))"

definition rd_f64 :: "f64 reader" where
  "rd_f64 = rd_bind (rd_array 8) (\<lambda>a. rd_return (from_le_bytes a))"

definition rd_opt_i64 :: "i64 option reader" where
  "rd_opt_i64 = rd_bind rd_u8 (\<lambda>b.
     if b = 0 then rd_return None
     else if b = 1 then rd_bind rd_i64 (\<lambda>v. rd_return (Some v))
     else rd_fail (UnknownTag b))"

text \<open>\<open>UNIX_EPOCH + Duration::from_nanos(n)\<close>.\<close>

definition rd_time :: "system_time reader" where
  "rd_time = rd_bind (rd_array 8) (\<lambda>a. rd_return (int (unat (from_le_bytes a :: u64))))"

definition rd_string :: "str reader" where
  "rd_string = rd_bind (rd_array 4) (\<lambda>a.
     rd_bind (rd_take (unat (from_le_bytes a :: u32))) (\<lambda>bytes.
       if utf8_valid bytes then rd_return bytes else rd_fail InvalidUtf8))"

definition rd_opt_string :: "str option reader" where
  "rd_opt_string = rd_bind rd_u8 (\<lambda>b.
     if b = 0 then rd_return None
     else if b = 1 then rd_bind rd_string (\<lambda>v. rd_return (Some v))
     else rd_fail (UnknownTag b))"

section \<open>Writers\<close>

definition put_bool :: "bool \<Rightarrow> bytes" where
  "put_bool value = [if value then 1 else 0]"

definition put_i64 :: "i64 \<Rightarrow> bytes" where
  "put_i64 value = to_le_bytes value"

definition put_u64 :: "u64 \<Rightarrow> bytes" where
  "put_u64 value = to_le_bytes value"

definition put_i32 :: "i32 \<Rightarrow> bytes" where
  "put_i32 value = to_le_bytes value"

definition put_f64 :: "f64 \<Rightarrow> bytes" where
  "put_f64 value = to_le_bytes value"

definition put_opt_i64 :: "i64 option \<Rightarrow> bytes" where
  "put_opt_i64 value = (case value of Some v \<Rightarrow> 1 # put_i64 v | None \<Rightarrow> [0])"

text \<open>Times before the epoch are clamped to it, times past \<open>u64::MAX\<close> nanoseconds to that.\<close>

definition put_time :: "system_time \<Rightarrow> bytes" where
  "put_time time =
     (let nanos = (if time < 0 then 0 else nat time)
      in to_le_bytes (if nanos < 2 ^ 64 then word_of_nat nanos else (- 1) :: u64))"

definition put_str :: "str \<Rightarrow> bytes" where
  "put_str value =
     (let len = (if length value < 2 ^ 32 then word_of_nat (length value) else (- 1) :: u32)
      in to_le_bytes len @ take (unat len) value)"

definition put_opt_str :: "str option \<Rightarrow> bytes" where
  "put_opt_str value = (case value of Some v \<Rightarrow> 1 # put_str v | None \<Rightarrow> [0])"

section \<open>Spans\<close>

definition FORMAT_VERSION :: byte where
  "FORMAT_VERSION = 2"

definition KIND_QUERY :: byte where
  "KIND_QUERY = 1"

definition KIND_PLAN_NODE :: byte where
  "KIND_PLAN_NODE = 2"

definition encode_query :: "query_attributes \<Rightarrow> bytes" where
  "encode_query q =
     put_bool (parent_is_remote q) @ put_str (operation q) @ put_opt_str (query_text q) @
     put_i64 (query_id q) @ put_i64 (exec_total_time_ns q) @ put_u64 (plan_spans_omitted q)"

definition encode_plan_node :: "plan_node_attributes \<Rightarrow> bytes" where
  "encode_plan_node n =
     put_str (node_type n) @ put_opt_str (node_relation n) @ put_opt_str (parent_relationship n) @
     put_opt_str (subplan_name n) @ put_u64 (subplans_removed n) @ put_opt_i64 (workers_launched n) @
     put_bool (never_executed n) @ put_bool (instrumentation_incomplete n) @
     put_f64 (startup_cost n) @ put_f64 (total_cost n) @ put_f64 (plan_rows n) @
     put_i32 (width_bytes n) @ put_bool (parallel_aware n) @ put_bool (parallel_safe n) @
     put_bool (async_capable n) @ put_i64 (instr_startup_time_ns n) @
     put_i64 (instr_total_time_ns n) @ put_f64 (instr_rows n) @ put_f64 (instr_secondary_rows n) @
     put_f64 (instr_loops n) @ put_f64 (instr_rows_removed_by_scan_or_join_filter n) @
     put_f64 (instr_rows_removed_by_other_filter n)"

definition span_kind :: "span_attributes \<Rightarrow> byte" where
  "span_kind a = (case a of Query _ \<Rightarrow> KIND_QUERY | PlanNode _ \<Rightarrow> KIND_PLAN_NODE)"

definition encode_attributes :: "span_attributes \<Rightarrow> bytes" where
  "encode_attributes a =
     (case a of Query q \<Rightarrow> encode_query q | PlanNode n \<Rightarrow> encode_plan_node n)"

definition span_bytes :: "span_record \<Rightarrow> bytes" where
  "span_bytes s =
     [FORMAT_VERSION] @ [span_kind (sp_attributes s)] @
     sp_trace_id s @ sp_span_id s @ sp_parent_id s @
     put_time (sp_start_time s) @ put_time (sp_end_time s) @ put_str (sp_name s) @
     encode_attributes (sp_attributes s)"

definition encode_span :: "span_record \<Rightarrow> bytes \<Rightarrow> bytes" where
  "encode_span s out = out @ span_bytes s"

definition decode_query :: "query_attributes reader" where
  "decode_query =
     rd_bind rd_bool (\<lambda>pr. rd_bind rd_string (\<lambda>op. rd_bind rd_opt_string (\<lambda>qt.
     rd_bind rd_i64 (\<lambda>qi. rd_bind rd_i64 (\<lambda>et. rd_bind rd_u64 (\<lambda>om.
       rd_return \<lparr>parent_is_remote = pr, operation = op, query_text = qt, query_id = qi,
                  exec_total_time_ns = et, plan_spans_omitted = om\<rparr>))))))"

definition decode_plan_node :: "plan_node_attributes reader" where
  "decode_plan_node =
     rd_bind rd_string (\<lambda>nt. rd_bind rd_opt_string (\<lambda>re. rd_bind rd_opt_string (\<lambda>pr.
     rd_bind rd_opt_string (\<lambda>sn. rd_bind rd_u64 (\<lambda>sr. rd_bind rd_opt_i64 (\<lambda>wl.
     rd_bind rd_bool (\<lambda>ne. rd_bind rd_bool (\<lambda>ii. rd_bind rd_f64 (\<lambda>sc. rd_bind rd_f64 (\<lambda>tc.
     rd_bind rd_f64 (\<lambda>ro. rd_bind rd_i32 (\<lambda>wb. rd_bind rd_bool (\<lambda>pa. rd_bind rd_bool (\<lambda>ps.
     rd_bind rd_bool (\<lambda>ac. rd_bind rd_i64 (\<lambda>st. rd_bind rd_i64 (\<lambda>tt. rd_bind rd_f64 (\<lambda>ir.
     rd_bind rd_f64 (\<lambda>is. rd_bind rd_f64 (\<lambda>il. rd_bind rd_f64 (\<lambda>r1. rd_bind rd_f64 (\<lambda>r2.
       rd_return \<lparr>node_type = nt, node_relation = re, parent_relationship = pr,
         subplan_name = sn, subplans_removed = sr, workers_launched = wl, never_executed = ne,
         instrumentation_incomplete = ii, startup_cost = sc, total_cost = tc, plan_rows = ro,
         width_bytes = wb, parallel_aware = pa, parallel_safe = ps, async_capable = ac,
         instr_startup_time_ns = st, instr_total_time_ns = tt, instr_rows = ir,
         instr_secondary_rows = is, instr_loops = il,
         instr_rows_removed_by_scan_or_join_filter = r1,
         instr_rows_removed_by_other_filter = r2\<rparr>))))))))))))))))))))))"

definition decode_attributes :: "byte \<Rightarrow> span_attributes reader" where
  "decode_attributes kind =
     (if kind = KIND_QUERY then rd_bind decode_query (\<lambda>q. rd_return (Query q))
      else if kind = KIND_PLAN_NODE then rd_bind decode_plan_node (\<lambda>n. rd_return (PlanNode n))
      else rd_fail (UnknownTag kind))"

text \<open>The body of \<open>decode_span\<close> up to the check that no byte is left.\<close>

definition decode_span_fields :: "span_record reader" where
  "decode_span_fields =
     rd_bind rd_u8 (\<lambda>version.
       if version \<noteq> FORMAT_VERSION then rd_fail (UnknownTag version)
       else rd_bind rd_u8 (\<lambda>kind. rd_bind (rd_array 16) (\<lambda>ti. rd_bind (rd_array 8) (\<lambda>si.
         rd_bind (rd_array 8) (\<lambda>pi. rd_bind rd_time (\<lambda>st. rd_bind rd_time (\<lambda>et.
         rd_bind rd_string (\<lambda>nm. rd_bind (decode_attributes kind) (\<lambda>attr.
           rd_return \<lparr>sp_trace_id = ti, sp_span_id = si, sp_parent_id = pi, sp_name = nm,
                      sp_start_time = st, sp_end_time = et, sp_attributes = attr\<rparr>)))))))))"

definition decode_span :: "bytes \<Rightarrow> decode_error + span_record" where
  "decode_span bytes =
     (case decode_span_fields bytes of
        Inl e \<Rightarrow> Inl e
      | Inr (span, rest) \<Rightarrow> if rest \<noteq> [] then Inl TrailingBytes else Inr span)"

section \<open>Batches and streams of spans\<close>

text \<open>The loop of \<open>encode_batch\<close>, with the batch and the number of skipped spans as its state.\<close>

fun encode_batch_loop :: "batch \<times> nat \<Rightarrow> span_record list \<Rightarrow> batch \<times> nat" where
  "encode_batch_loop (b, skipped) [] = (b, skipped)"
| "encode_batch_loop (b, skipped) (s # spans) =
     (case push_record b (encode_span s) of
        (Inl _, b') \<Rightarrow> encode_batch_loop (b', skipped + 1) spans
      | (Inr (), b') \<Rightarrow> encode_batch_loop (b', skipped) spans)"

definition encode_batch :: "span_record list \<Rightarrow> batch \<times> nat" where
  "encode_batch spans = encode_batch_loop (batch_new, 0) spans"

fun decode_items :: "span_record list \<times> nat \<Rightarrow> (corrupted + bytes) list \<Rightarrow> span_record list \<times> nat" where
  "decode_items (spans, undecodable) [] = (spans, undecodable)"
| "decode_items (spans, undecodable) (item # items) =
     (case item of
        Inl _ \<Rightarrow> decode_items (spans, undecodable + 1) items
      | Inr payload \<Rightarrow>
          (case decode_span payload of
             Inl _ \<Rightarrow> decode_items (spans, undecodable + 1) items
           | Inr span \<Rightarrow> decode_items (spans @ [span], undecodable) items))"

definition decode_records :: "bytes \<Rightarrow> span_record list \<times> nat" where
  "decode_records bytes = decode_items ([], 0) (records bytes)"

section \<open>The contract of a field's writer and reader\<close>

text \<open>
  A reader is incremental when bytes still to come never change an answer other than
  \<open>Truncated\<close>: neither a value nor any other error.
\<close>

definition incremental :: "'a reader \<Rightarrow> bool" where
  "incremental get \<longleftrightarrow>
     (\<forall>bs ys. case get bs of
        Inr (x, rest) \<Rightarrow> get (bs @ ys) = Inr (x, rest @ ys)
      | Inl e \<Rightarrow> e = Truncated \<or> get (bs @ ys) = Inl e)"

named_theorems incremental_intros \<open>readers that are incremental\<close>

lemma incremental_Inr:
  assumes "incremental get" and "get bs = Inr (x, rest)"
  shows "get (bs @ ys) = Inr (x, rest @ ys)"
  using assms(1) [unfolded incremental_def, rule_format, of bs ys] assms(2) by simp

lemma incremental_Inl:
  assumes "incremental get" and "get bs = Inl e"
  shows "e = Truncated \<or> get (bs @ ys) = Inl e"
  using assms(1) [unfolded incremental_def, rule_format, of bs ys] assms(2) by simp

lemma incremental_return [incremental_intros]: "incremental (rd_return x)"
  by (simp add: incremental_def rd_return_def)

lemma incremental_fail [incremental_intros]: "incremental (rd_fail e)"
  by (simp add: incremental_def rd_fail_def)

lemma incremental_bind [incremental_intros]:
  assumes m: "incremental m" and f: "\<And>x. incremental (f x)"
  shows "incremental (rd_bind m f)"
  unfolding incremental_def
proof (intro allI)
  fix bs ys
  show "case rd_bind m f bs of
          Inr (y, rest) \<Rightarrow> rd_bind m f (bs @ ys) = Inr (y, rest @ ys)
        | Inl e \<Rightarrow> e = Truncated \<or> rd_bind m f (bs @ ys) = Inl e"
  proof (cases "m bs")
    case (Inl e)
    with m have "e = Truncated \<or> m (bs @ ys) = Inl e" by (rule incremental_Inl)
    with Inl show ?thesis by (auto simp: rd_bind_def)
  next
    case (Inr xr)
    obtain x rest where xr: "xr = (x, rest)" by (cases xr)
    have "m (bs @ ys) = Inr (x, rest @ ys)"
      using Inr unfolding xr by (rule incremental_Inr [OF m])
    moreover have "case f x rest of
          Inr (y, rest') \<Rightarrow> f x (rest @ ys) = Inr (y, rest' @ ys)
        | Inl e \<Rightarrow> e = Truncated \<or> f x (rest @ ys) = Inl e"
      using f [of x] unfolding incremental_def by blast
    moreover have "rd_bind m f bs = f x rest" using Inr xr by (simp add: rd_bind_def)
    ultimately show ?thesis by (auto simp: rd_bind_def split: sum.splits)
  qed
qed

lemma incremental_if [incremental_intros]:
  "incremental a \<Longrightarrow> incremental b \<Longrightarrow> incremental (if c then a else b)"
  by simp

lemma incremental_take [incremental_intros]: "incremental (rd_take n)"
  by (simp add: incremental_def rd_take_def)

lemma incremental_array [incremental_intros]: "incremental (rd_array n)"
  by (simp add: rd_array_def incremental_take)

text \<open>
  The interface. \<open>dom\<close> are the values the writer represents exactly. Reading back gives the value,
  what a read accepts is what the writer writes for it, and the reader is incremental.
\<close>

locale field_codec =
  fixes dom :: "'a \<Rightarrow> bool" and put :: "'a \<Rightarrow> bytes" and get :: "'a reader"
  assumes get_put: "dom x \<Longrightarrow> get (put x @ rest) = Inr (x, rest)"
    and put_get: "get bs = Inr (x, rest) \<Longrightarrow> dom x \<and> bs = put x @ rest"
    and incr: "incremental get"
begin

lemma bind_put: "dom x \<Longrightarrow> rd_bind get f (put x @ rest) = f x rest"
  by (simp add: rd_bind_def get_put)

lemma bind_put_end: "dom x \<Longrightarrow> rd_bind get f (put x) = f x []"
  using bind_put [of x f "[]"] by simp

lemma bind_get:
  "rd_bind get f bs = Inr (y, rest) \<longleftrightarrow>
   (\<exists>x mid. dom x \<and> bs = put x @ mid \<and> f x mid = Inr (y, rest))"
proof
  assume "rd_bind get f bs = Inr (y, rest)"
  then obtain x mid where "get bs = Inr (x, mid)" "f x mid = Inr (y, rest)"
    by (auto simp: rd_bind_def split: sum.splits)
  with put_get show "\<exists>x mid. dom x \<and> bs = put x @ mid \<and> f x mid = Inr (y, rest)" by blast
qed (auto simp: bind_put)

text \<open>A strict prefix of an encoding reads as \<open>Truncated\<close>.\<close>

lemma get_prefix:
  assumes "dom x" and "put x = bs @ ys" and "ys \<noteq> []"
  shows "get bs = Inl Truncated"
proof (cases "get bs")
  case (Inl e)
  then have "e = Truncated \<or> get (bs @ ys) = Inl e" by (rule incremental_Inl [OF incr])
  with Inl get_put [OF assms(1), of "[]"] assms(2) show ?thesis by auto
next
  case (Inr yr)
  obtain y rest where yr: "yr = (y, rest)" by (cases yr)
  have "get (bs @ ys) = Inr (y, rest @ ys)"
    using Inr unfolding yr by (rule incremental_Inr [OF incr])
  with get_put [OF assms(1), of "[]"] assms(2,3) show ?thesis by simp
qed

text \<open>No encoding is a prefix of another one: the code is uniquely decodable.\<close>

lemma put_inj: "dom x \<Longrightarrow> dom y \<Longrightarrow> put x @ r = put y @ r' \<Longrightarrow> x = y \<and> r = r'"
  by (metis Inr_inject get_put prod.inject)

end

text \<open>An optional value behind a tag byte.\<close>

locale option_codec = field_codec dom put get
  for dom :: "'a \<Rightarrow> bool" and put :: "'a \<Rightarrow> bytes" and get :: "'a reader" +
  fixes puto :: "'a option \<Rightarrow> bytes" and geto :: "'a option reader"
  assumes puto: "puto v = (case v of Some x \<Rightarrow> 1 # put x | None \<Rightarrow> [0])"
    and geto: "geto = rd_bind rd_u8 (\<lambda>b.
      if b = 0 then rd_return None
      else if b = 1 then rd_bind get (\<lambda>v. rd_return (Some v))
      else rd_fail (UnknownTag b))"

lemma rd_u8_Cons [simp]: "rd_u8 (b # rest) = Inr (b, rest)"
  by (simp add: rd_u8_def rd_array_def rd_take_def rd_bind_def rd_return_def)

lemma rd_u8_Inr: "rd_u8 bs = Inr (b, rest) \<longleftrightarrow> bs = b # rest"
  by (cases bs)
     (auto simp: rd_u8_def rd_array_def rd_take_def rd_bind_def rd_return_def split: if_splits)

lemma incremental_u8 [incremental_intros]: "incremental rd_u8"
  unfolding rd_u8_def by (intro incremental_intros)

lemma bind_Inr: "rd_bind m f bs = Inr (y, rest) \<longleftrightarrow> (\<exists>x mid. m bs = Inr (x, mid) \<and> f x mid = Inr (y, rest))"
  by (auto simp: rd_bind_def split: sum.splits)

sublocale option_codec \<subseteq> opt: field_codec "pred_option dom" puto geto
proof unfold_locales
  show "geto (puto x @ rest) = Inr (x, rest)" if "pred_option dom x" for x rest
    using that by (cases x) (simp_all add: puto geto rd_bind_def rd_return_def get_put)
  show "pred_option dom x \<and> bs = puto x @ rest" if "geto bs = Inr (x, rest)" for bs x rest
    using that unfolding geto
    by (auto simp: bind_Inr rd_u8_Inr rd_return_def rd_fail_def puto split: if_splits dest: put_get)
  show "incremental geto"
    unfolding geto by (intro incremental_intros incr)
qed

section \<open>The field codecs\<close>

interpretation byte_f: field_codec "\<lambda>_. True" "\<lambda>b. [b]" rd_u8
  by unfold_locales (auto simp: rd_u8_Inr intro: incremental_intros)

interpretation bool_f: field_codec "\<lambda>_. True" put_bool rd_bool
proof unfold_locales
  show "incremental rd_bool" unfolding rd_bool_def by (intro incremental_intros)
  show "rd_bool (put_bool x @ rest) = Inr (x, rest)" for x rest
    by (simp add: rd_bool_def put_bool_def rd_bind_def rd_return_def)
  show "True \<and> bs = put_bool x @ rest" if "rd_bool bs = Inr (x, rest)" for bs x rest
    using that unfolding rd_bool_def byte_f.bind_get
    by (auto simp: put_bool_def rd_return_def rd_fail_def split: if_splits)
qed

lemma array_Inr: "rd_array n bs = Inr (x, rest) \<longleftrightarrow> length x = n \<and> bs = x @ rest"
  unfolding rd_array_def rd_take_def
  by (cases "n > length bs") (auto simp: not_less intro: append_take_drop_id [symmetric])

interpretation array_f: field_codec "\<lambda>a. length a = n" "\<lambda>a. a" "rd_array n" for n
proof unfold_locales
  show "rd_array n (x @ rest) = Inr (x, rest)" if "length x = n" for x rest
    using that by (simp add: array_Inr)
  show "length x = n \<and> bs = x @ rest" if "rd_array n bs = Inr (x, rest)" for bs x rest
    using that by (simp only: array_Inr)
qed (rule incremental_array)

text \<open>Integers and floats of eight and of four bytes.\<close>

lemma word64_codec:
  "field_codec (\<lambda>_. True) (to_le_bytes :: u64 \<Rightarrow> bytes)
     (rd_bind (rd_array 8) (\<lambda>a. rd_return (from_le_bytes a)))"
proof unfold_locales
  let ?get = "rd_bind (rd_array 8) (\<lambda>a. rd_return (from_le_bytes a :: u64))"
  show "incremental ?get" by (intro incremental_intros)
  show "?get (to_le_bytes x @ rest) = Inr (x, rest)" for x :: u64 and rest
    by (simp add: array_f.bind_put rd_return_def)
  show "True \<and> bs = to_le_bytes x @ rest" if "?get bs = Inr (x, rest)" for bs x rest
    using that unfolding array_f.bind_get
    by (auto simp only: rd_return_def sum.inject prod.inject to_from_le_u64)
qed

lemma word32_codec:
  "field_codec (\<lambda>_. True) (to_le_bytes :: u32 \<Rightarrow> bytes)
     (rd_bind (rd_array 4) (\<lambda>a. rd_return (from_le_bytes a)))"
proof unfold_locales
  let ?get = "rd_bind (rd_array 4) (\<lambda>a. rd_return (from_le_bytes a :: u32))"
  show "incremental ?get" by (intro incremental_intros)
  show "?get (to_le_bytes x @ rest) = Inr (x, rest)" for x :: u32 and rest
    by (simp add: array_f.bind_put rd_return_def)
  show "True \<and> bs = to_le_bytes x @ rest" if "?get bs = Inr (x, rest)" for bs x rest
    using that unfolding array_f.bind_get
    by (auto simp only: rd_return_def sum.inject prod.inject to_from_le_u32)
qed

lemma put_words: "put_i64 = to_le_bytes" "put_u64 = to_le_bytes" "put_f64 = to_le_bytes" "put_i32 = to_le_bytes"
  by (simp_all add: fun_eq_iff put_i64_def put_u64_def put_f64_def put_i32_def)

interpretation i64_f: option_codec "\<lambda>_. True" put_i64 rd_i64 put_opt_i64 rd_opt_i64
  unfolding option_codec_def option_codec_axioms_def
  using word64_codec by (simp only: put_words rd_i64_def put_opt_i64_def rd_opt_i64_def simp_thms)

interpretation u64_f: field_codec "\<lambda>_. True" put_u64 rd_u64
  unfolding put_words rd_u64_def by (rule word64_codec)

interpretation f64_f: field_codec "\<lambda>_. True" put_f64 rd_f64
  unfolding put_words rd_f64_def by (rule word64_codec)

interpretation i32_f: field_codec "\<lambda>_. True" put_i32 rd_i32
  unfolding put_words rd_i32_def by (rule word32_codec)

text \<open>Times from the epoch on that fit 64 bits of nanoseconds, i.e. until the year 2554.\<close>

definition time_ok :: "system_time \<Rightarrow> bool" where
  "time_ok t \<longleftrightarrow> 0 \<le> t \<and> t < 2 ^ 64"

interpretation time_f: field_codec time_ok put_time rd_time
proof unfold_locales
  show "incremental rd_time" unfolding rd_time_def by (intro incremental_intros)
  show "rd_time (put_time x @ rest) = Inr (x, rest)" if "time_ok x" for x rest
  proof -
    have n: "nat x < 2 ^ 64" and x: "0 \<le> x" using that by (auto simp: time_ok_def nat_less_iff)
    have "int (unat (word_of_nat (nat x) :: u64)) = x"
      using n x unat_of_nat [where 'a=64, of "nat x"] by simp
    then show ?thesis
      using n x by (simp add: rd_time_def put_time_def array_f.bind_put rd_return_def del: of_nat_nat of_nat_unat)
  qed
  show "time_ok x \<and> bs = put_time x @ rest" if "rd_time bs = Inr (x, rest)" for bs x rest
  proof -
    from that obtain a where a: "length a = 8" "bs = a @ rest"
      and x: "x = int (unat (from_le_bytes a :: u64))"
      unfolding rd_time_def array_f.bind_get by (auto simp: rd_return_def)
    have b: "unat (from_le_bytes a :: u64) < 2 ^ 64"
      using unsigned_less [of "from_le_bytes a :: u64"] by simp
    then have "put_time x = a"
      using a(1) by (simp add: put_time_def x to_from_le_u64)
    moreover have "time_ok x"
      using b by (simp only: time_ok_def x of_nat_less_numeral_power_cancel_iff of_nat_0_le_iff simp_thms)
    ultimately show ?thesis using a(2) by simp
  qed
qed

definition str_ok :: "str \<Rightarrow> bool" where
  "str_ok s \<longleftrightarrow> utf8_valid s \<and> length s < 2 ^ 32"

lemma take_Inr: "rd_take n bs = Inr (x, rest) \<longleftrightarrow> length x = n \<and> bs = x @ rest"
  using array_Inr [of n bs x rest] by (simp only: rd_array_def)

interpretation str_f: option_codec str_ok put_str rd_string put_opt_str rd_opt_string
proof unfold_locales
  show "incremental rd_string" unfolding rd_string_def by (intro incremental_intros)
  show "rd_string (put_str x @ rest) = Inr (x, rest)" if "str_ok x" for x rest
  proof -
    have "unat (word_of_nat (length x) :: u32) = length x"
      using that by (simp add: str_ok_def unat_of_nat)
    moreover have "rd_take (length x) (x @ rest) = Inr (x, rest)" by (simp add: take_Inr)
    ultimately show ?thesis
      using that
      by (simp add: rd_string_def put_str_def str_ok_def array_f.bind_put bind_Inr rd_return_def)
  qed
  show "str_ok x \<and> bs = put_str x @ rest" if "rd_string bs = Inr (x, rest)" for bs x rest
  proof -
    from that obtain a mid where a: "length a = 4" "bs = a @ mid"
      and m: "rd_take (unat (from_le_bytes a :: u32)) mid = Inr (x, rest)" and v: "utf8_valid x"
      unfolding rd_string_def array_f.bind_get
      by (auto simp: bind_Inr rd_return_def rd_fail_def split: if_splits)
    let ?w = "from_le_bytes a :: u32"
    have l: "length x = unat ?w" "mid = x @ rest" using m by (simp_all add: take_Inr)
    have w: "unat ?w < 2 ^ 32" using unsigned_less [of ?w] by simp
    have le: "to_le_bytes ?w = a" using a(1) by (rule to_from_le_u32)
    have wl: "word_of_nat (unat ?w) = ?w" by (simp only: of_nat_unat ucast_id)
    have "put_str x = to_le_bytes ?w @ take (unat ?w) x"
      using w unfolding put_str_def Let_def l(1) by (simp only: wl if_True)
    then have "put_str x = a @ x" using l(1) by (simp only: le take_all order_refl)
    with a l v w show ?thesis by (simp add: str_ok_def)
  qed
qed (simp_all only: put_opt_str_def rd_opt_string_def)

lemma bind_u8_Cons [simp]: "rd_bind rd_u8 f (b # rest) = f b rest"
  by (simp add: rd_bind_def)

lemmas field_puts =
  option.pred_True bool_f.bind_put array_f.bind_put i64_f.bind_put i64_f.opt.bind_put u64_f.bind_put
  f64_f.bind_put i32_f.bind_put time_f.bind_put str_f.bind_put str_f.opt.bind_put

lemmas field_gets =
  byte_f.bind_get bool_f.bind_get array_f.bind_get i64_f.bind_get i64_f.opt.bind_get u64_f.bind_get
  f64_f.bind_get i32_f.bind_get time_f.bind_get str_f.bind_get str_f.opt.bind_get

lemmas field_incrs =
  bool_f.incr i64_f.incr i64_f.opt.incr u64_f.incr f64_f.incr i32_f.incr time_f.incr str_f.incr
  str_f.opt.incr

lemma return_Inr: "rd_return x bs = Inr (y, rest) \<longleftrightarrow> y = x \<and> bs = rest"
  by (auto simp: rd_return_def)

lemma fail_Inr [simp]: "rd_fail e bs \<noteq> Inr r"
  by (simp add: rd_fail_def)

section \<open>The record codecs\<close>

text \<open>The spans the encoding represents exactly.\<close>

definition query_ok :: "query_attributes \<Rightarrow> bool" where
  "query_ok q \<longleftrightarrow> str_ok (operation q) \<and> pred_option str_ok (query_text q)"

definition plan_node_ok :: "plan_node_attributes \<Rightarrow> bool" where
  "plan_node_ok n \<longleftrightarrow>
     str_ok (node_type n) \<and> pred_option str_ok (node_relation n) \<and>
     pred_option str_ok (parent_relationship n) \<and> pred_option str_ok (subplan_name n)"

definition attributes_ok :: "span_attributes \<Rightarrow> bool" where
  "attributes_ok a = (case a of Query q \<Rightarrow> query_ok q | PlanNode n \<Rightarrow> plan_node_ok n)"

definition span_ok :: "span_record \<Rightarrow> bool" where
  "span_ok s \<longleftrightarrow>
     length (sp_trace_id s) = 16 \<and> length (sp_span_id s) = 8 \<and> length (sp_parent_id s) = 8 \<and>
     time_ok (sp_start_time s) \<and> time_ok (sp_end_time s) \<and> str_ok (sp_name s) \<and>
     attributes_ok (sp_attributes s)"

interpretation query_f: field_codec query_ok encode_query decode_query
proof unfold_locales
  show "incremental decode_query"
    unfolding decode_query_def by (intro incremental_intros field_incrs)
  show "decode_query (encode_query x @ rest) = Inr (x, rest)" if "query_ok x" for x rest
    using that by (simp add: query_ok_def decode_query_def encode_query_def field_puts return_Inr)
  show "query_ok x \<and> bs = encode_query x @ rest" if "decode_query bs = Inr (x, rest)" for bs x rest
    using that unfolding decode_query_def field_gets return_Inr
    by (auto simp: query_ok_def encode_query_def)
qed

interpretation node_f: field_codec plan_node_ok encode_plan_node decode_plan_node
proof unfold_locales
  show "incremental decode_plan_node"
    unfolding decode_plan_node_def by (intro incremental_intros field_incrs)
  show "decode_plan_node (encode_plan_node x @ rest) = Inr (x, rest)" if "plan_node_ok x" for x rest
    using that
    by (simp add: plan_node_ok_def decode_plan_node_def encode_plan_node_def field_puts return_Inr)
  show "plan_node_ok x \<and> bs = encode_plan_node x @ rest"
    if "decode_plan_node bs = Inr (x, rest)" for bs x rest
    using that unfolding decode_plan_node_def field_gets return_Inr
    by (elim exE conjE) (simp add: plan_node_ok_def encode_plan_node_def)
qed

interpretation attr_f:
  field_codec "\<lambda>a. attributes_ok a \<and> span_kind a = kind" encode_attributes "decode_attributes kind" for kind
proof unfold_locales
  show "incremental (decode_attributes kind)"
    unfolding decode_attributes_def by (intro incremental_intros query_f.incr node_f.incr)
  show "decode_attributes kind (encode_attributes x @ rest) = Inr (x, rest)"
    if "attributes_ok x \<and> span_kind x = kind" for x rest
    using that
    by (auto simp: attributes_ok_def span_kind_def decode_attributes_def encode_attributes_def
        KIND_QUERY_def KIND_PLAN_NODE_def query_f.bind_put node_f.bind_put return_Inr
        split: span_attributes.splits)
  show "(attributes_ok x \<and> span_kind x = kind) \<and> bs = encode_attributes x @ rest"
    if "decode_attributes kind bs = Inr (x, rest)" for bs x rest
    using that
    by (auto simp: attributes_ok_def span_kind_def decode_attributes_def encode_attributes_def
        query_f.bind_get node_f.bind_get return_Inr split: if_splits)
qed

interpretation span_f: field_codec span_ok span_bytes decode_span_fields
proof unfold_locales
  show "incremental decode_span_fields"
    unfolding decode_span_fields_def by (intro incremental_intros field_incrs attr_f.incr)
  show "decode_span_fields (span_bytes x @ rest) = Inr (x, rest)" if "span_ok x" for x rest
    using that
    by (simp add: span_ok_def decode_span_fields_def span_bytes_def field_puts attr_f.bind_put return_Inr)
  show "span_ok x \<and> bs = span_bytes x @ rest"
    if "decode_span_fields bs = Inr (x, rest)" for bs x rest
    using that
    by (auto simp: decode_span_fields_def field_gets attr_f.bind_get return_Inr span_ok_def
        span_bytes_def split: if_splits)
qed

text \<open>
  Any span of the code's types: identifiers of their size, strings valid UTF-8. Its times are
  clamped to the 64-bit range; \<open>clamp_span\<close> is what the consumer gets.
\<close>

definition clamp_time :: "system_time \<Rightarrow> system_time" where
  "clamp_time t = max 0 (min t (2 ^ 64 - 1))"

definition clamp_span :: "span_record \<Rightarrow> span_record" where
  "clamp_span s =
     s\<lparr>sp_start_time := clamp_time (sp_start_time s), sp_end_time := clamp_time (sp_end_time s)\<rparr>"

definition span_typed :: "span_record \<Rightarrow> bool" where
  "span_typed s \<longleftrightarrow>
     length (sp_trace_id s) = 16 \<and> length (sp_span_id s) = 8 \<and> length (sp_parent_id s) = 8 \<and>
     str_ok (sp_name s) \<and> attributes_ok (sp_attributes s)"

lemma put_time_clamp: "put_time (clamp_time t) = put_time t"
proof -
  consider "t < 0" | "0 \<le> t" "t < 2 ^ 64" | "2 ^ 64 \<le> t" by linarith
  then show ?thesis
  proof cases
    case 3
    then have "nat t \<ge> 2 ^ 64" "clamp_time t = 2 ^ 64 - 1"
      by (simp_all add: clamp_time_def le_nat_iff)
    moreover have "to_le_bytes (18446744073709551615 :: u64) = to_le_bytes (- 1 :: u64)"
      by (rule arg_cong [of _ _ to_le_bytes]) simp
    ultimately show ?thesis using 3 by (simp add: put_time_def)
  qed (simp_all add: clamp_time_def put_time_def)
qed

lemma clamp_span_ok: "span_typed s \<Longrightarrow> span_ok (clamp_span s)"
  by (simp add: span_typed_def span_ok_def clamp_span_def time_ok_def clamp_time_def min_less_iff_disj)

lemma span_bytes_clamp: "span_bytes (clamp_span s) = span_bytes s"
  by (simp add: span_bytes_def clamp_span_def put_time_clamp)

lemma span_ok_typed: "span_ok s \<Longrightarrow> span_typed s \<and> clamp_span s = s"
  by (cases s) (auto simp: span_ok_def span_typed_def clamp_span_def time_ok_def clamp_time_def)

lemma decode_span_iff: "decode_span bs = Inr s \<longleftrightarrow> span_ok s \<and> bs = span_bytes s"
proof
  assume "decode_span bs = Inr s"
  then have "decode_span_fields bs = Inr (s, [])"
    by (auto simp: decode_span_def split: sum.splits if_splits)
  then show "span_ok s \<and> bs = span_bytes s" using span_f.put_get by fastforce
next
  assume "span_ok s \<and> bs = span_bytes s"
  then show "decode_span bs = Inr s"
    using span_f.get_put [of s "[]"] by (simp add: decode_span_def)
qed

section \<open>Batches of spans\<close>

lemma length_put_str: "length (put_str x) \<le> 4 + 2 ^ 32"
proof -
  let ?w = "if length x < 2 ^ 32 then word_of_nat (length x) else - 1 :: u32"
  have "unat ?w < 2 ^ 32" using unsigned_less [of ?w] by simp
  then show ?thesis by (simp add: put_str_def Let_def)
qed

lemma length_put_opt_str: "length (put_opt_str x) \<le> 5 + 2 ^ 32"
  using length_put_str by (cases x) (simp_all add: put_opt_str_def)

lemma length_span_bytes: "span_typed s \<Longrightarrow> length (span_bytes s) < 2 ^ 64"
proof -
  assume "span_typed s"
  then have ids: "length (sp_trace_id s) = 16" "length (sp_span_id s) = 8" "length (sp_parent_id s) = 8"
    by (simp_all add: span_typed_def)
  note lens = put_bool_def put_i64_def put_u64_def put_f64_def put_i32_def put_time_def Let_def
  have opt_i64: "length (put_opt_i64 v) \<le> 9" for v
    by (cases v) (simp_all add: put_opt_i64_def put_i64_def)
  have "length (encode_attributes (sp_attributes s)) \<le> 2 ^ 40"
  proof (cases "sp_attributes s")
    case (Query q)
    then show ?thesis
      using length_put_str [of "operation q"] length_put_opt_str [of "query_text q"]
      by (simp add: encode_attributes_def encode_query_def lens)
  next
    case (PlanNode n)
    then show ?thesis
      using length_put_str [of "node_type n"] length_put_opt_str [of "node_relation n"]
        length_put_opt_str [of "parent_relationship n"] length_put_opt_str [of "subplan_name n"]
        opt_i64 [of "workers_launched n"]
      by (simp add: encode_attributes_def encode_plan_node_def lens)
  qed
  with ids length_put_str [of "sp_name s"] show ?thesis
    by (simp add: span_bytes_def lens)
qed

definition span_fits :: "span_record \<Rightarrow> bool" where
  "span_fits s \<longleftrightarrow> payload_ok (span_bytes s)"

lemma encode_batch_loop_rep:
  assumes "batch_rep b ps" and "list_all span_typed spans"
  shows "\<exists>b'. encode_batch_loop (b, k) spans =
      (b', k + length (filter (\<lambda>s. \<not> span_fits s) spans)) \<and>
    batch_rep b' (ps @ map span_bytes (filter span_fits spans))"
  using assms
proof (induction spans arbitrary: b ps k)
  case (Cons s spans)
  have push: "push_record b (encode_span s) =
    (if payload_ok (span_bytes s)
     then (Inr (), \<lparr>batch_bytes = stream (ps @ [span_bytes s]), batch_records = length (ps @ [span_bytes s])\<rparr>)
     else (Inl (RecordTooLarge (length (span_bytes s))), b))"
  proof (rule push_record_appends)
    show "length (span_bytes s) < 2 ^ 64" using Cons.prems(2) length_span_bytes by simp
  qed (use Cons.prems in \<open>simp_all add: encode_span_def\<close>)
  show ?case
  proof (cases "span_fits s")
    case True
    let ?b = "\<lparr>batch_bytes = stream (ps @ [span_bytes s]), batch_records = length (ps @ [span_bytes s])\<rparr>"
    have "batch_rep ?b (ps @ [span_bytes s])"
      using Cons.prems(1) True by (simp add: batch_rep_def span_fits_def)
    from Cons.IH [OF this, of k] Cons.prems(2) push True show ?thesis
      by (simp add: span_fits_def split: unit.splits)
  next
    case False
    from Cons.IH [OF Cons.prems(1), of "k + 1"] Cons.prems(2) push False show ?thesis
      by (simp add: span_fits_def)
  qed
qed simp

text \<open>A drain whose budget covers the queue takes all of it.\<close>

lemma drain_take_all: "t + length (stream ps) \<le> m \<Longrightarrow> drain_take m t n ps = length ps"
  by (induction m t n ps rule: drain_take.induct) auto

lemma encode_batch_rep:
  assumes "list_all span_typed spans"
  shows "\<exists>b. encode_batch spans = (b, length (filter (\<lambda>s. \<not> span_fits s) spans)) \<and>
    batch_rep b (map span_bytes (filter span_fits spans))"
  using encode_batch_loop_rep [OF batch_rep_new assms, of 0] by (simp add: encode_batch_def)

text \<open>The decodable spans of a list of payloads.\<close>

definition decodable :: "bytes list \<Rightarrow> span_record list" where
  "decodable ps = map projr (filter (\<lambda>r. \<not> isl r) (map decode_span ps))"

lemma decodable_simps [simp]:
  "decodable [] = []"
  "decodable (p # ps) = (case decode_span p of Inl _ \<Rightarrow> decodable ps | Inr s \<Rightarrow> s # decodable ps)"
  by (simp_all add: decodable_def split: sum.splits)

lemma decodable_length: "length (decodable ps) \<le> length ps"
  by (induction ps) (auto split: sum.splits)

lemma decode_items_payloads:
  "decode_items (acc, k) (map Inr ps @ items) =
   decode_items (acc @ decodable ps, k + (length ps - length (decodable ps))) items"
proof (induction ps arbitrary: acc k)
  case (Cons p ps)
  then show ?case
    using decodable_length [of ps] by (simp add: Suc_diff_le split: sum.splits)
qed simp

lemma decodable_spans: "list_all span_typed spans \<Longrightarrow> decodable (map span_bytes spans) = map clamp_span spans"
proof (induction spans)
  case (Cons s spans)
  have "decode_span (span_bytes s) = Inr (clamp_span s)"
    using Cons.prems clamp_span_ok [of s] by (simp add: decode_span_iff span_bytes_clamp)
  with Cons show ?case by simp
qed simp

lemma decode_records_stream:
  assumes "list_all payload_ok ps"
  shows "decode_records (stream ps) = (decodable ps, length ps - length (decodable ps))"
  using records_stream [OF assms, of "[]"] decode_items_payloads [of "[]" 0 ps "[]"]
  by (simp add: decode_records_def)

section \<open>Properties\<close>

definition demo_query_span :: span_record where
  "demo_query_span =
     \<lparr>sp_trace_id = replicate 16 0x11, sp_span_id = [0, 0, 0, 0, 0, 0, 0, 7], sp_parent_id = SPAN_ID_INVALID,
      sp_name = lit ''SELECT public.t'', sp_start_time = - 5, sp_end_time = 1700000000123456789,
      sp_attributes = Query \<lparr>parent_is_remote = True, operation = lit ''SELECT'',
        query_text = Some (lit ''SELECT $1''), query_id = - 42, exec_total_time_ns = 100000000,
        plan_spans_omitted = 17\<rparr>\<rparr>"

definition demo_plan_span :: span_record where
  "demo_plan_span =
     \<lparr>sp_trace_id = replicate 16 5, sp_span_id = replicate 8 9, sp_parent_id = replicate 8 7,
      sp_name = lit ''T_SeqScanState'', sp_start_time = 5000000000, sp_end_time = 6000000000,
      sp_attributes = PlanNode \<lparr>node_type = lit ''T_SeqScanState'', node_relation = Some (lit ''public.t''),
        parent_relationship = None, subplan_name = Some (lit ''InitPlan 1''), subplans_removed = 2,
        workers_launched = Some 3, never_executed = True, instrumentation_incomplete = False,
        startup_cost = 0, total_cost = 0x4041C00000000000, plan_rows = 0x40A3EC0000000000,
        width_bytes = - 4, parallel_aware = True, parallel_safe = False, async_capable = True,
        instr_startup_time_ns = 11, instr_total_time_ns = 22, instr_rows = 0x4024000000000000,
        instr_secondary_rows = 0x3FE0000000000000, instr_loops = 0x4008000000000000,
        instr_rows_removed_by_scan_or_join_filter = 0x3FF0000000000000,
        instr_rows_removed_by_other_filter = 0x7FEFFFFFFFFFFFFF\<rparr>\<rparr>"

lemma pred_option_code [code]: "pred_option P None \<longleftrightarrow> True" "pred_option P (Some x) \<longleftrightarrow> P x"
  by simp_all

lemma demo_spans_typed: "span_typed demo_query_span" "span_typed demo_plan_span"
  by code_simp+

lemma demo_spans_length: "length (span_bytes demo_query_span) = 118" "length (span_bytes demo_plan_span) = 221"
  by (simp_all add: span_bytes_def encode_attributes_def encode_query_def encode_plan_node_def
      put_str_def put_opt_str_def put_opt_i64_def put_i64_def put_u64_def put_f64_def put_i32_def
      put_bool_def put_time_def Let_def lit_def demo_query_span_def demo_plan_span_def
      SPAN_ID_INVALID_def)

lemma demo_spans_fit: "span_fits demo_query_span" "span_fits demo_plan_span"
  by (simp_all add: span_fits_def payload_ok_def MAX_RECORD_BYTES_def demo_spans_length)

text \<open>
  C5 (roundtrip). Every span of the code's types decodes to itself from its encoding, with its two
  times clamped to the range of unsigned 64-bit nanoseconds since the epoch; the encoding appends to
  what the buffer already holds.
\<close>

theorem span_round_trip:
  assumes "span_typed s"
  shows "\<exists>bs. encode_span s out = out @ bs \<and> decode_span bs = Inr (clamp_span s) \<and>
    (span_ok s \<longrightarrow> clamp_span s = s)"
  using clamp_span_ok [OF assms] span_ok_typed [of s]
  by (auto simp: encode_span_def decode_span_iff span_bytes_clamp)

theorem span_round_trip_witness:
  "\<exists>bs. encode_span demo_query_span [1] = [1] @ bs \<and>
     decode_span bs = Inr (demo_query_span\<lparr>sp_start_time := 0\<rparr>)"
proof -
  have "clamp_span demo_query_span = demo_query_span\<lparr>sp_start_time := 0\<rparr>"
    by (simp add: clamp_span_def clamp_time_def demo_query_span_def)
  with span_round_trip [OF demo_spans_typed(1), of "[1]"] show ?thesis by auto
qed

text \<open>
  C6 (functional). The decoder accepts exactly the encodings: a byte string decodes to a span iff
  that span is well formed and the bytes are what the encoder writes for it. So no two byte strings
  decode to the same span, and every decoded string is valid UTF-8.
\<close>

theorem decode_span_exact:
  "decode_span bs = Inr s \<longleftrightarrow> span_ok s \<and> bs = encode_span s []"
  by (simp add: decode_span_iff encode_span_def)

text \<open>
  C7 (error). Damaged records are told apart: every strict prefix of an encoding is \<open>Truncated\<close>,
  every strict extension has \<open>TrailingBytes\<close>.
\<close>

theorem decode_span_damaged:
  assumes "span_typed s"
  shows "(\<forall>n < length (span_bytes s). decode_span (take n (span_bytes s)) = Inl Truncated) \<and>
    (\<forall>ys. ys \<noteq> [] \<longrightarrow> decode_span (span_bytes s @ ys) = Inl TrailingBytes)"
proof (intro conjI allI impI)
  note ok = clamp_span_ok [OF assms]
  fix n
  assume n: "n < length (span_bytes s)"
  have "decode_span_fields (take n (span_bytes s)) = Inl Truncated"
    using n by (intro span_f.get_prefix [OF ok, of _ "drop n (span_bytes s)"]) (simp_all add: span_bytes_clamp)
  then show "decode_span (take n (span_bytes s)) = Inl Truncated" by (simp add: decode_span_def)
next
  fix ys :: bytes
  assume "ys \<noteq> []"
  then show "decode_span (span_bytes s @ ys) = Inl TrailingBytes"
    using span_f.get_put [OF clamp_span_ok [OF assms], of ys]
    by (simp add: decode_span_def span_bytes_clamp)
qed

theorem decode_span_damaged_witness:
  "decode_span (take 40 (span_bytes demo_plan_span)) = Inl Truncated \<and>
   decode_span (span_bytes demo_plan_span @ [0]) = Inl TrailingBytes"
proof -
  have "40 < length (span_bytes demo_plan_span)" by (simp add: demo_spans_length)
  with decode_span_damaged [OF demo_spans_typed(2)] show ?thesis by simp
qed

text \<open>
  C8 (roundtrip). From backend to exporter: the batch made of a list of spans, pushed on an empty
  ring where it fits and drained with a budget that covers it, decodes to exactly the spans whose
  encoding is within the record limit, in order; the other ones were counted as skipped.
\<close>

theorem spans_cross_the_ring:
  assumes "list_all span_typed spans" and "encode_batch spans = (b, skipped)"
    and "ring_rep r []" and "tail_room r (length (batch_bytes b))"
    and "length (batch_bytes b) \<le> free r" and "length (batch_bytes b) \<le> max_bytes"
  shows "\<exists>r1 r2 bytes. push_batch r b = Some (Inr (), r1) \<and>
    drain_into r1 [] max_bytes = Some (Inr (length (filter span_fits spans)), bytes, r2) \<and>
    ring_rep r2 [] \<and> decode_records bytes = (map clamp_span (filter span_fits spans), 0) \<and>
    skipped = length spans - length (filter span_fits spans)"
proof -
  let ?kept = "filter span_fits spans"
  let ?ps = "map span_bytes ?kept"
  have b: "batch_rep b ?ps" and sk: "skipped = length (filter (\<lambda>s. \<not> span_fits s) spans)"
    using encode_batch_rep [OF assms(1)] assms(2) by auto
  obtain r1 where r1: "push_batch r b = Some (Inr (), r1)" "ring_rep r1 ?ps"
    using push_batch_rep [OF assms(3) b assms(4)] assms(5) by auto
  let ?k = "drain_take max_bytes 0 0 ?ps"
  have all: "?k = length ?ps"
    using drain_take_all [of 0 ?ps max_bytes 0] assms(6) b by (simp add: batch_rep_def)
  obtain r2 where r2: "drain_into r1 [] max_bytes = Some (Inr (length ?ps), stream ?ps, r2)" "ring_rep r2 []"
    using drain_into_rep [OF r1(2), of "[]" max_bytes] unfolding all by auto
  have ok: "list_all payload_ok ?ps" by (auto simp: list_all_iff span_fits_def)
  have typed: "list_all span_typed ?kept" using assms(1) by (auto simp: list_all_iff)
  have "decode_records (stream ?ps) = (map clamp_span ?kept, 0)"
    using decode_records_stream [OF ok] decodable_spans [OF typed] by simp
  moreover have "skipped = length spans - length ?kept"
    using sk sum_length_filter_compl [of span_fits spans] by simp
  ultimately show ?thesis using r1 r2 by auto
qed

theorem spans_cross_the_ring_witness:
  "\<exists>r1 r2 bytes.
     push_batch \<lparr>rstate = ring_state_new, rdata = replicate 500 0\<rparr>
       (fst (encode_batch [demo_query_span, demo_plan_span])) = Some (Inr (), r1) \<and>
     drain_into r1 [] 1000 = Some (Inr 2, bytes, r2) \<and> ring_rep r2 [] \<and>
     decode_records bytes = ([clamp_span demo_query_span, demo_plan_span], 0)"
proof -
  let ?spans = "[demo_query_span, demo_plan_span]"
  let ?r = "\<lparr>rstate = ring_state_new, rdata = replicate 500 (0 :: byte)\<rparr>"
  let ?b = "fst (encode_batch ?spans)"
  have typed: "list_all span_typed ?spans" using demo_spans_typed by simp
  have e: "encode_batch ?spans = (?b, snd (encode_batch ?spans))" by simp
  have r: "ring_rep ?r []" by (rule ring_new_rep) (simp add: slice_sized_def)
  have len: "length (batch_bytes ?b) = 347"
    using encode_batch_rep [OF typed] demo_spans_fit
    by (auto simp: batch_rep_def demo_spans_length LEN_PREFIX_BYTES_def)
  have room: "tail_room ?r (length (batch_bytes ?b))"
    unfolding len by (simp add: tail_room_def ring_state_new_def)
  have fits: "length (batch_bytes ?b) \<le> free ?r"
    unfolding len by (simp add: free_def capacity_def used_def is_consistent_def ring_state_new_def)
  have budget: "length (batch_bytes ?b) \<le> 1000" by (simp only: len)
  have clamp: "clamp_span demo_plan_span = demo_plan_span"
    by (simp add: clamp_span_def clamp_time_def demo_plan_span_def)
  from spans_cross_the_ring [OF typed e r room fits budget] demo_spans_fit clamp show ?thesis by auto
qed

text \<open>
  C14 (error). \<open>decode_records\<close> on any bytes: the stream is a run of whole records and a damaged rest
  that is empty or has a bad length prefix. Every decodable record is returned, in order, whatever
  stands before it, and every other record is counted, the damaged rest as one.
\<close>

theorem decode_records_any_bytes:
  "\<exists>ps rest. bs = stream ps @ rest \<and> list_all payload_ok ps \<and> (rest = [] \<or> isl (split_record rest)) \<and>
     decode_records bs =
       (decodable ps, length ps - length (decodable ps) + (if rest = [] then 0 else 1))"
proof -
  obtain ps rest where s: "bs = stream ps @ rest" "list_all payload_ok ps"
    "(rest = [] \<and> records bs = map Inr ps) \<or>
     (\<exists>c. split_record rest = Inl c \<and> rest \<noteq> [] \<and> records bs = map Inr ps @ [Inl c])"
    using records_shape by blast
  from s(3) show ?thesis
  proof
    assume "rest = [] \<and> records bs = map Inr ps"
    then show ?thesis
      using s decode_items_payloads [of "[]" 0 ps "[]"]
      by (intro exI [of _ ps] exI [of _ rest]) (simp add: decode_records_def)
  next
    assume "\<exists>c. split_record rest = Inl c \<and> rest \<noteq> [] \<and> records bs = map Inr ps @ [Inl c]"
    then obtain c where "split_record rest = Inl c" "rest \<noteq> []" "records bs = map Inr ps @ [Inl c]" by blast
    then show ?thesis
      using s decode_items_payloads [of "[]" 0 ps "[Inl c]"]
      by (intro exI [of _ ps] exI [of _ rest]) (simp add: decode_records_def)
  qed
qed

end
