(* ===== verification/Plan_Spans.thy ===== *)
theory Plan_Spans
  imports Plan_Tree Traceparent Sanitize Config Codec "HOL-Library.List_Lexorder"
begin

text \<open>
  The spans of a statement: one for each plan node (\<open>SpanRecord::from_plan\<close>), one for the statement
  (\<open>SpanRecord::from_query\<close>, \<open>src/span.rs\<close>), and the collection over the plan
  (\<open>collect_plan_spans\<close>, \<open>src/postgres.rs\<close>).

  Parameters: the version layer, the system catalogs (\<open>catalog\<close>) and Postgres' text functions
  (\<open>pg_text\<close>). A \<open>BTreeSet\<close> of strings is its sorted list. A result's outer \<open>None\<close> stands for a
  call that does not come back: \<open>InstrEndLoop\<close> raises an error, the generator's values do not suffice,
  or a slice panics.
\<close>

section \<open>Names\<close>

definition QUERY_TEXT_MAX_LEN :: nat where "QUERY_TEXT_MAX_LEN = 4096"
definition NAME_MAX_LEN :: nat where "NAME_MAX_LEN = 256"

record catalog =
  get_rel_name :: "u32 \<Rightarrow> bytes option"
  get_rel_namespace :: "u32 \<Rightarrow> u32"
  get_namespace_name_or_temp :: "u32 \<Rightarrow> bytes option"

definition plan_table_identifier :: "catalog \<Rightarrow> u32 \<Rightarrow> str option" where
  "plan_table_identifier cat oid =
     (let namespace_oid = get_rel_namespace cat oid in
      case pg_str (get_rel_name cat oid) of
        None \<Rightarrow> None
      | Some relation_name \<Rightarrow>
          Some (case pg_str (get_namespace_name_or_temp cat namespace_oid) of
                  Some namespace_name \<Rightarrow> namespace_name @ lit ''.'' @ relation_name
                | None \<Rightarrow> relation_name))"

definition is_scan :: "plan_tag \<Rightarrow> bool" where
  "is_scan t \<longleftrightarrow>
     t \<in> {T_SeqScan, T_SampleScan, T_IndexScan, T_IndexOnlyScan, T_BitmapIndexScan, T_BitmapHeapScan, T_TidScan,
          T_TidRangeScan, T_SubqueryScan, T_FunctionScan, T_ValuesScan, T_TableFuncScan, T_CteScan,
          T_NamedTuplestoreScan, T_WorkTableScan, T_ForeignScan, T_CustomScan}"

definition plan_table_name :: "catalog \<Rightarrow> 'i state_info \<Rightarrow> str option" where
  "plan_table_name cat state =
     (case si_plan state of
        None \<Rightarrow> None
      | Some plan \<Rightarrow>
          if \<not> is_scan (pl_type plan) then None
          else (case si_current_relation state of
                  None \<Rightarrow> None
                | Some oid \<Rightarrow> plan_table_identifier cat oid))"

text \<open>An arrow, U+2192.\<close>

definition ARROW :: bytes where
  "ARROW = [0xE2, 0x86, 0x92]"

definition plan_span_name :: "str option \<Rightarrow> str \<Rightarrow> str \<Rightarrow> str" where
  "plan_span_name sub type_name suffix =
     (case sub of
        Some subplan \<Rightarrow> subplan @ lit '' '' @ ARROW @ lit '' postgresql.operation.'' @ type_name @ suffix
      | None \<Rightarrow> lit ''postgresql.operation.'' @ type_name @ suffix)"

section \<open>The span of a plan node\<close>

definition list_length_or_0 :: "i32 option \<Rightarrow> i32" where
  "list_length_or_0 l = (case l of None \<Rightarrow> 0 | Some n \<Rightarrow> n)"

text \<open>\<open>i32::saturating_sub\<close>, then \<open>u64::try_from\<close> with 0 for a negative number.\<close>

definition removed_members :: "i32 \<Rightarrow> i32 \<Rightarrow> u64" where
  "removed_members planned live =
     (let d = max (- (2 ^ 31)) (min (2 ^ 31 - 1) (sint planned - sint live)) in if d < 0 then 0 else word_of_int d)"

definition pruned_member_count :: "'i state_info \<Rightarrow> plan \<Rightarrow> u64" where
  "pruned_member_count state plan =
     (case pl_type plan of
        T_Append \<Rightarrow> removed_members (list_length_or_0 (pl_members plan)) (si_nplans state)
      | T_MergeAppend \<Rightarrow> removed_members (list_length_or_0 (pl_members plan)) (si_nplans state)
      | _ \<Rightarrow> 0)"

definition launched_workers :: "'i state_info \<Rightarrow> plan \<Rightarrow> i64 option" where
  "launched_workers state plan =
     (case pl_type plan of
        T_Gather \<Rightarrow> Some (word_of_int (sint (si_nworkers_launched state)))
      | T_GatherMerge \<Rightarrow> Some (word_of_int (sint (si_nworkers_launched state)))
      | _ \<Rightarrow> None)"

text \<open>\<open>wall_start + Duration::from_nanos(ns as u64)\<close>.\<close>

definition after_ns :: "system_time \<Rightarrow> i64 \<Rightarrow> system_time" where
  "after_ns t ns = t + int (unat ns)"

definition from_plan ::
    "('i, 'q) compat \<Rightarrow> catalog \<Rightarrow> 'i plan_state \<Rightarrow> system_time \<Rightarrow> span_link \<Rightarrow> child_edge option \<Rightarrow> rng \<Rightarrow>
     (span_record option \<times> rng) option" where
  "from_plan co cat plan_node wall_start parent edge r =
     (let state = ps_info plan_node in
      case si_plan state of
        None \<Rightarrow> Some (None, r)
      | Some plan \<Rightarrow>
          (case co_node_instrument co (si_instrument state) of
             None \<Rightarrow> None
           | Some instrument \<Rightarrow>
               let (timings, never, incomplete) =
                     (case instrument of
                        Measured stats \<Rightarrow> (stats, f64_is_zero (st_loops stats), False)
                      | Incomplete \<Rightarrow> (node_stats_default, False, True));
                   end_time = min (after_ns wall_start (st_total_ns timings)) (ln_end_time parent);
                   rel = map_option (\<lambda>table. truncate_utf8 table NAME_MAX_LEN) (plan_table_name cat state);
                   table_suffix = (case rel of Some table \<Rightarrow> lit '' ['' @ table @ lit '']'' | None \<Rightarrow> []);
                   type_name = si_type_name state;
                   sub_name = Option.bind edge ed_subplan_name;
                   name = plan_span_name sub_name type_name table_suffix
               in map_option (\<lambda>(span_id, r).
                    (Some
                      \<lparr>sp_trace_id = ln_trace_id parent, sp_span_id = span_id, sp_parent_id = ln_span_id parent,
                       sp_name = truncate_utf8 name NAME_MAX_LEN,
                       sp_start_time = wall_start, sp_end_time = end_time,
                       sp_attributes = PlanNode
                         \<lparr>node_type = type_name, node_relation = rel,
                          parent_relationship = map_option (\<lambda>e. relationship_str (ed_relationship e)) edge,
                          subplan_name = sub_name,
                          subplans_removed = pruned_member_count state plan,
                          workers_launched = launched_workers state plan,
                          never_executed = never, instrumentation_incomplete = incomplete,
                          startup_cost = pl_startup_cost plan, total_cost = pl_total_cost plan,
                          plan_rows = pl_plan_rows plan, width_bytes = pl_plan_width plan,
                          parallel_aware = pl_parallel_aware plan, parallel_safe = pl_parallel_safe plan,
                          async_capable = pl_async_capable plan,
                          instr_startup_time_ns = st_startup_ns timings, instr_total_time_ns = st_total_ns timings,
                          instr_rows = st_rows timings, instr_secondary_rows = st_secondary_rows timings,
                          instr_loops = st_loops timings,
                          instr_rows_removed_by_scan_or_join_filter = st_filtered_by_scan_or_join timings,
                          instr_rows_removed_by_other_filter = st_filtered_by_other timings\<rparr>\<rparr>, r))
                  (random_span_id r)))"

section \<open>The span of a statement\<close>

datatype cmd_type =
    CMD_UNKNOWN | CMD_SELECT | CMD_UPDATE | CMD_INSERT | CMD_DELETE | CMD_MERGE | CMD_UTILITY | CMD_NOTHING

definition query_name :: "cmd_type \<Rightarrow> str" where
  "query_name command =
     (case command of
        CMD_SELECT \<Rightarrow> lit ''SELECT'' | CMD_UPDATE \<Rightarrow> lit ''UPDATE'' | CMD_INSERT \<Rightarrow> lit ''INSERT''
      | CMD_DELETE \<Rightarrow> lit ''DELETE'' | CMD_MERGE \<Rightarrow> lit ''MERGE'' | CMD_UTILITY \<Rightarrow> lit ''UTILITY''
      | CMD_NOTHING \<Rightarrow> lit ''NOTHING'' | _ \<Rightarrow> lit ''UNKNOWN'')"

record planned_stmt =
  stmt_location :: i32
  stmt_len :: i32
  stmt_query_id :: i64

text \<open>\<open>qd_timer\<close>: \<open>totaltime\<close> or \<open>query_instr\<close>; \<open>qd_top_eflags\<close>: the flags of \<open>estate\<close>, if there is one.\<close>

record ('i, 'q) query_desc =
  qd_operation :: cmd_type
  qd_plannedstmt :: "planned_stmt option"
  qd_source_text :: "bytes option"
  qd_top_eflags :: "i32 option"
  qd_planstate :: "'i plan_state option"
  qd_timer :: "'q option"

definition normalize_for :: "query_text_mode \<Rightarrow> bool option" where
  "normalize_for mode =
     (case mode of QueryTextOff \<Rightarrow> None | QueryTextNormalized \<Rightarrow> Some True | QueryTextRaw \<Rightarrow> Some False)"

definition exported_query_text_and_id ::
    "pg_text \<Rightarrow> ('i, 'q) query_desc \<Rightarrow> query_text_mode \<Rightarrow> levels \<Rightarrow> ((str option \<times> i64) \<times> levels) option" where
  "exported_query_text_and_id pg q mode l =
     (let (loc, len, id) =
            (case qd_plannedstmt q of
               Some stmt \<Rightarrow> (sint (stmt_location stmt), sint (stmt_len stmt), stmt_query_id stmt)
             | None \<Rightarrow> (- 1, 0, 0))
      in case normalize_for mode of
           None \<Rightarrow> Some ((None, id), l)
         | Some norm \<Rightarrow>
             map_option (\<lambda>(text, l). ((text, id), l)) (sanitize pg (qd_source_text q) loc len norm QUERY_TEXT_MAX_LEN l))"

fun join_comma :: "str list \<Rightarrow> str" where
  "join_comma [] = []"
| "join_comma [x] = x"
| "join_comma (x # xs) = x @ lit '', '' @ join_comma xs"

text \<open>\<open>from_query\<close> for a descriptor that is not null; reading the timer may change the descriptor.\<close>

definition from_query ::
    "('i, 'q) compat \<Rightarrow> pg_text \<Rightarrow> ('i, 'q) query_desc \<Rightarrow> system_time \<Rightarrow> parent_context \<Rightarrow> query_text_mode \<Rightarrow> span_id \<Rightarrow>
     str list \<Rightarrow> nat \<Rightarrow> levels \<Rightarrow> (span_record option \<times> ('i, 'q) query_desc \<times> levels) option" where
  "from_query co pg q wall_start parent mode span_id tables omitted l =
     (case co_query_total_ns co (qd_timer q) of
        None \<Rightarrow> None
      | Some (None, timer) \<Rightarrow> Some (None, q\<lparr>qd_timer := timer\<rparr>, l)
      | Some (Some total_ns, timer) \<Rightarrow>
          let op = query_name (qd_operation q);
              name = op @ lit '' '' @ join_comma tables;
              end_time = after_ns wall_start total_ns
          in map_option (\<lambda>((text, id), l).
               (Some
                 \<lparr>sp_trace_id = pc_trace_id parent, sp_span_id = span_id, sp_parent_id = pc_span_id parent,
                  sp_name = truncate_utf8 name NAME_MAX_LEN, sp_start_time = wall_start, sp_end_time = end_time,
                  sp_attributes = Query
                    \<lparr>parent_is_remote = pc_is_remote parent, operation = op, query_text = text, query_id = id,
                     exec_total_time_ns = total_ns, plan_spans_omitted = word_of_nat omitted\<rparr>\<rparr>,
                q\<lparr>qd_timer := timer\<rparr>, l))
             (exported_query_text_and_id pg (q\<lparr>qd_timer := timer\<rparr>) mode l))"

section \<open>Collecting\<close>

record plan_spans =
  psn_spans :: "span_record list"
  psn_tables :: "str list"
  psn_omitted :: nat

text \<open>Inserting into a \<open>BTreeSet\<close>.\<close>

definition btree_insert :: "str \<Rightarrow> str list \<Rightarrow> str list" where
  "btree_insert x xs = (if x \<in> set xs then xs else insort x xs)"

text \<open>The visitor closure; it captures the result so far and the generator.\<close>

definition visit_plan_node ::
    "('i, 'q) compat \<Rightarrow> catalog \<Rightarrow> system_time \<Rightarrow> span_link \<Rightarrow> (plan_spans \<times> rng, 'i plan_state, span_link) visitor" where
  "visit_plan_node co cat wall_start query v node edge parent =
     (case v of (res, r) \<Rightarrow>
        (case from_plan co cat node wall_start (case parent of Some p \<Rightarrow> p | None \<Rightarrow> query) edge r of
           None \<Rightarrow> None
         | Some (None, r) \<Rightarrow> Some (None, (res, r))
         | Some (Some span, r) \<Rightarrow>
             let res = (case span_relation span of
                          Some rel \<Rightarrow> res\<lparr>psn_tables := btree_insert rel (psn_tables res)\<rparr>
                        | None \<Rightarrow> res)
             in Some (Some (span_link_of span), (res\<lparr>psn_spans := psn_spans res @ [span]\<rparr>, r))))"

definition collect_plan_spans ::
    "('i, 'q) compat \<Rightarrow> catalog \<Rightarrow> 'i plan_state option \<Rightarrow> system_time \<Rightarrow> span_link \<Rightarrow> nat \<Rightarrow> rng \<Rightarrow> (plan_spans \<times> rng) option" where
  "collect_plan_spans co cat planstate wall_start query max_spans r =
     (let res = \<lparr>psn_spans = [], psn_tables = [], psn_omitted = 0\<rparr> in
      case planstate of
        None \<Rightarrow> Some (res, r)
      | Some root \<Rightarrow>
          map_option (\<lambda>(summary, printed, res, r). (res\<lparr>psn_omitted := ws_omitted summary\<rparr>, r))
            (walk_plan root max_spans (plan_state_children (co_subplan_display_name co))
              (visit_plan_node co cat wall_start query) {} (res, r)))"

section \<open>The tree of the spans\<close>

lemma pg_str_valid: "pg_str s = Some t \<Longrightarrow> utf8_valid t"
  by (auto simp: pg_str_def valid_lossy)

lemma plan_table_name_valid: "plan_table_name cat state = Some t \<Longrightarrow> utf8_valid t"
proof -
  assume "plan_table_name cat state = Some t"
  then obtain oid where "plan_table_identifier cat oid = Some t"
    by (auto simp: plan_table_name_def split: option.splits if_splits)
  moreover have "utf8_valid (lit ''.'')" by (rule ascii_valid) (simp add: lit_def)
  ultimately show ?thesis
    by (auto simp: plan_table_identifier_def valid_append split: option.splits dest!: pg_str_valid)
qed

text \<open>The instrumentation of a span as \<open>from_plan\<close> reports it.\<close>

definition reported_instrument :: "node_instrument \<Rightarrow> plan_node_attributes \<Rightarrow> bool" where
  "reported_instrument i a \<longleftrightarrow>
     (let st = (case i of Measured st \<Rightarrow> st | Incomplete \<Rightarrow> node_stats_default) in
      instr_startup_time_ns a = st_startup_ns st \<and> instr_total_time_ns a = st_total_ns st \<and>
      instr_rows a = st_rows st \<and> instr_secondary_rows a = st_secondary_rows st \<and> instr_loops a = st_loops st \<and>
      instr_rows_removed_by_scan_or_join_filter a = st_filtered_by_scan_or_join st \<and>
      instr_rows_removed_by_other_filter a = st_filtered_by_other st \<and>
      instrumentation_incomplete a = (i = Incomplete) \<and>
      never_executed a = (i \<noteq> Incomplete \<and> f64_is_zero (st_loops st)))"

lemma from_plan_Some:
  assumes "from_plan co cat node wall_start parent edge r = Some (Some s, r')"
  obtains p i a where "si_plan (ps_info node) = Some p" and "co_node_instrument co (si_instrument (ps_info node)) = Some i"
    and "random_span_id r = Some (sp_span_id s, r')" and "sp_attributes s = PlanNode a" and "reported_instrument i a"
    and "sp_trace_id s = ln_trace_id parent" and "sp_parent_id s = ln_span_id parent" and "sp_start_time s = wall_start"
    and "sp_end_time s = min (wall_start + int (unat (instr_total_time_ns a))) (ln_end_time parent)"
    and "node_type a = si_type_name (ps_info node)"
    and "node_relation a = map_option (\<lambda>t. truncate_utf8 t NAME_MAX_LEN) (plan_table_name cat (ps_info node))"
    and "parent_relationship a = map_option (\<lambda>e. relationship_str (ed_relationship e)) edge"
    and "subplan_name a = Option.bind edge ed_subplan_name"
    and "sp_name s = truncate_utf8 (plan_span_name (subplan_name a) (node_type a)
      (case node_relation a of Some t \<Rightarrow> lit '' ['' @ t @ lit '']'' | None \<Rightarrow> [])) NAME_MAX_LEN"
  using assms
  by (auto simp: from_plan_def Let_def after_ns_def reported_instrument_def split: option.splits node_instrument.splits)

text \<open>A span below the query's span or below one of the \<open>earlier\<close> spans, within its parent's time.\<close>

definition span_below :: "span_link \<Rightarrow> span_record list \<Rightarrow> span_record \<Rightarrow> bool" where
  "span_below q earlier s \<longleftrightarrow>
     (\<exists>l \<in> insert q (set (map span_link_of earlier)). sp_parent_id s = ln_span_id l \<and> sp_end_time s \<le> ln_end_time l)"

definition plan_span_ok :: "span_link \<Rightarrow> system_time \<Rightarrow> span_record list \<Rightarrow> span_record \<Rightarrow> bool" where
  "plan_span_ok q wall_start earlier s \<longleftrightarrow>
     span_below q earlier s \<and> sp_trace_id s = ln_trace_id q \<and> sp_span_id s \<noteq> SPAN_ID_INVALID \<and>
     sp_start_time s = wall_start \<and> wall_start \<le> sp_end_time s \<and> sp_end_time s \<le> ln_end_time q \<and>
     length (sp_name s) \<le> 256"

lemma prefixes_snoc:
  "(\<forall>k < length (xs @ [x]). P (take k (xs @ [x])) ((xs @ [x]) ! k)) \<longleftrightarrow>
   (\<forall>k < length xs. P (take k xs) (xs ! k)) \<and> P xs x"
  by (auto simp: less_Suc_eq nth_append)

definition tables_of :: "span_record list \<Rightarrow> str list \<Rightarrow> bool" where
  "tables_of spans tables \<longleftrightarrow>
     sorted tables \<and> distinct tables \<and> set tables = {t. \<exists>s \<in> set spans. span_relation s = Some t}"

lemma btree_insert_tables:
  "tables_of spans tables \<Longrightarrow>
   tables_of (spans @ [s]) (case span_relation s of Some t \<Rightarrow> btree_insert t tables | None \<Rightarrow> tables)"
  by (cases "span_relation s") (auto simp: tables_of_def btree_insert_def sorted_insort distinct_insort set_insort_key)

text \<open>What holds of the spans so far, and which links the walk hands on.\<close>

definition spans_inv :: "(span_record list \<Rightarrow> span_record \<Rightarrow> bool) \<Rightarrow> plan_spans \<times> rng \<Rightarrow> bool" where
  "spans_inv P v \<longleftrightarrow>
     (\<forall>k < length (psn_spans (fst v)). P (take k (psn_spans (fst v))) (psn_spans (fst v) ! k)) \<and>
     tables_of (psn_spans (fst v)) (psn_tables (fst v))"

definition known_link :: "plan_spans \<times> rng \<Rightarrow> span_link option \<Rightarrow> bool" where
  "known_link v p \<longleftrightarrow> (case p of None \<Rightarrow> True | Some l \<Rightarrow> l \<in> span_link_of ` set (psn_spans (fst v)))"

lemma visit_plan_nodeE:
  assumes "visit_plan_node co cat wall_start q v node edge parent = Some (link, v')"
  obtains (skipped) r' where "link = None" and "v' = (fst v, r')" and "si_plan (ps_info node) = None"
  | (span) s r' where "link = Some (span_link_of s)"
    and "from_plan co cat node wall_start (case parent of Some p \<Rightarrow> p | None \<Rightarrow> q) edge (snd v) = Some (Some s, r')"
    and "snd v' = r'" and "psn_spans (fst v') = psn_spans (fst v) @ [s]"
    and "psn_tables (fst v') = (case span_relation s of Some t \<Rightarrow> btree_insert t (psn_tables (fst v)) | None \<Rightarrow> psn_tables (fst v))"
    and "psn_omitted (fst v') = psn_omitted (fst v)"
proof (cases "from_plan co cat node wall_start (case parent of Some p \<Rightarrow> p | None \<Rightarrow> q) edge (snd v)")
  case (Some sr)
  obtain so r' where sr: "sr = (so, r')" by (cases sr)
  show ?thesis
  proof (cases so)
    case None
    have "si_plan (ps_info node) = None"
      using Some sr None by (auto simp: from_plan_def Let_def split: option.splits prod.splits)
    then show ?thesis using assms Some sr None by (intro skipped) (auto simp: visit_plan_node_def split: prod.splits)
  next
    case (Some s)
    show ?thesis
      using assms \<open>from_plan _ _ _ _ _ _ _ = _\<close> sr Some
      by (intro span [of s r']) (auto simp: visit_plan_node_def split: prod.splits option.splits)
  qed
qed (use assms in \<open>auto simp: visit_plan_node_def split: prod.splits\<close>)

lemma visit_plan_node_inv:
  assumes v: "spans_inv P v" and p: "known_link v parent"
    and visit: "visit_plan_node co cat wall_start q v node edge parent = Some (link, v')"
    and span: "\<And>s r'. from_plan co cat node wall_start (case parent of Some p \<Rightarrow> p | None \<Rightarrow> q) edge (snd v) = Some (Some s, r') \<Longrightarrow>
      P (psn_spans (fst v)) s"
  shows "spans_inv P v' \<and> (link \<noteq> None \<longrightarrow> known_link v' link) \<and> (\<forall>l. known_link v l \<longrightarrow> known_link v' l)"
  using visit
proof (cases rule: visit_plan_nodeE)
  case skipped
  then have "fst v' = fst v" by simp
  then have "spans_inv P v' = spans_inv P v" "known_link v' l = known_link v l" for l
    by (simp_all add: spans_inv_def known_link_def split: option.split)
  with v skipped(1) show ?thesis by simp
next
  case (span s r')
  have "P (psn_spans (fst v)) s" using span(2) by (rule assms(4))
  then have "spans_inv P v'"
    using v btree_insert_tables [of "psn_spans (fst v)" "psn_tables (fst v)" s]
    unfolding spans_inv_def span(4,5) prefixes_snoc by blast
  then show ?thesis using span(1,4) by (auto simp: known_link_def split: option.splits)
qed

lemma from_plan_span_ok:
  assumes v: "spans_inv (plan_span_ok q wall_start) v" and p: "known_link v parent" and wall: "wall_start \<le> ln_end_time q"
    and s: "from_plan co cat node wall_start (case parent of Some p \<Rightarrow> p | None \<Rightarrow> q) edge r = Some (Some s, r')"
  shows "plan_span_ok q wall_start (psn_spans (fst v)) s"
proof -
  let ?l = "case parent of Some p \<Rightarrow> p | None \<Rightarrow> q"
  have l: "?l \<in> insert q (set (map span_link_of (psn_spans (fst v))))"
    using p by (auto simp: known_link_def split: option.splits)
  have "plan_span_ok q wall_start (take k (psn_spans (fst v))) (psn_spans (fst v) ! k)" if "k < length (psn_spans (fst v))" for k
    using v that by (simp add: spans_inv_def)
  then have "ln_trace_id ?l = ln_trace_id q \<and> wall_start \<le> ln_end_time ?l \<and> ln_end_time ?l \<le> ln_end_time q"
    using p wall by (auto simp: known_link_def in_set_conv_nth span_link_of_def plan_span_ok_def split: option.splits)
  moreover have "sp_trace_id s = ln_trace_id ?l \<and> sp_parent_id s = ln_span_id ?l \<and> sp_start_time s = wall_start \<and>
      (\<exists>n. sp_end_time s = min (wall_start + int n) (ln_end_time ?l)) \<and> random_span_id r = Some (sp_span_id s, r') \<and>
      length (sp_name s) \<le> 256"
    using s by (rule from_plan_Some) (intro conjI exI; (assumption | simp add: NAME_MAX_LEN_def truncate_length))
  ultimately show ?thesis
    using l random_span_id_valid [of r "sp_span_id s" r'] unfolding plan_span_ok_def span_below_def by auto
qed

section \<open>The whole plan\<close>

text \<open>The nodes that the walk reaches, under their edges and in its order.\<close>

definition shown_nodes :: "('i, 'q) compat \<Rightarrow> 'i plan_state option \<Rightarrow> (child_edge option \<times> 'i plan_state) list" where
  "shown_nodes co planstate =
     (case planstate of
        None \<Rightarrow> []
      | Some root \<Rightarrow> preorder [(None, fst (explain_tree (co_subplan_display_name co) {} root))])"

abbreviation no_spans :: plan_spans where
  "no_spans \<equiv> \<lparr>psn_spans = [], psn_tables = [], psn_omitted = 0\<rparr>"

lemma collect_plan_spans_forest:
  "collect_plan_spans co cat (Some root) wall_start q max_spans r =
   map_option (\<lambda>(summary, res, r). (res\<lparr>psn_omitted := ws_omitted summary\<rparr>, r))
     (visit_forest (visit_plan_node co cat wall_start q) max_spans None
       [(None, fst (explain_tree (co_subplan_display_name co) {} root))] walk_summary_default (no_spans, r))"
  by (simp add: collect_plan_spans_def walk_explain_tree option.map_comp o_def split_def)

lemma collect_plan_spans_inv:
  assumes c: "collect_plan_spans co cat planstate wall_start q max_spans r = Some (res, r')"
    and span: "\<And>v parent e node s r'. spans_inv P v \<Longrightarrow> known_link v parent \<Longrightarrow> (e, node) \<in> set (shown_nodes co planstate) \<Longrightarrow>
      from_plan co cat node wall_start (case parent of Some p \<Rightarrow> p | None \<Rightarrow> q) e (snd v) = Some (Some s, r') \<Longrightarrow>
      P (psn_spans (fst v)) s"
  shows "spans_inv P (res, r')"
proof (cases planstate)
  case None
  with c show ?thesis by (auto simp: collect_plan_spans_def spans_inv_def tables_of_def Let_def)
next
  case (Some root)
  with c obtain summary res0 where w: "visit_forest (visit_plan_node co cat wall_start q) max_spans None
      [(None, fst (explain_tree (co_subplan_display_name co) {} root))] walk_summary_default (no_spans, r) =
      Some (summary, res0, r')" and res: "res = res0\<lparr>psn_omitted := ws_omitted summary\<rparr>"
    by (auto simp: collect_plan_spans_forest)
  have "spans_inv P (res0, r')"
  proof (rule visit_forest_invariant [where I = "spans_inv P" and K = known_link, OF w, THEN conjunct1])
    show "spans_inv P (no_spans, r)" "known_link (no_spans, r) None"
      by (simp_all add: spans_inv_def tables_of_def known_link_def)
  qed (rule visit_plan_node_inv, assumption, assumption, assumption, rule span, auto simp: shown_nodes_def Some)
  then show ?thesis by (simp add: spans_inv_def res)
qed

lemma collect_plan_spans_limit:
  assumes c: "collect_plan_spans co cat planstate wall_start q max_spans r = Some (res, r')"
  shows "length (psn_spans res) \<le> max_spans \<and> (psn_omitted res = 0 \<or> length (psn_spans res) = max_spans)"
proof (cases planstate)
  case None
  with c show ?thesis by (auto simp: collect_plan_spans_def Let_def)
next
  case (Some root)
  with c obtain summary res0 where w: "visit_forest (visit_plan_node co cat wall_start q) max_spans None
      [(None, fst (explain_tree (co_subplan_display_name co) {} root))] walk_summary_default (no_spans, r) =
      Some (summary, res0, r')" and res: "res = res0\<lparr>psn_omitted := ws_omitted summary\<rparr>"
    by (auto simp: collect_plan_spans_forest)
  have "length (psn_spans (fst (res0, r'))) + ws_emitted walk_summary_default = length (psn_spans (fst (no_spans, r))) + ws_emitted summary"
  proof (rule visit_forest_emitted [OF w, where f = "\<lambda>v. length (psn_spans (fst v))"])
    show "length (psn_spans (fst v')) = length (psn_spans (fst v)) + (if link = None then 0 else 1)"
      if "visit_plan_node co cat wall_start q v n e p = Some (link, v')" for v n e p link v'
      using that by (cases rule: visit_plan_nodeE) auto
  qed
  with visit_forest_limit [OF w] res show ?thesis by (simp add: walk_summary_default_def)
qed

text \<open>
  The span \<open>s\<close> tells what the executor knows of the node \<open>n\<close> under its edge \<open>e\<close>: its type, relation and
  place in the plan, the planner's estimates and the instrumentation.
\<close>

definition span_of_node :: "('i, 'q) compat \<Rightarrow> catalog \<Rightarrow> child_edge option \<times> 'i plan_state \<Rightarrow> span_record \<Rightarrow> bool" where
  "span_of_node co cat en s \<longleftrightarrow>
     (case en of (e, n) \<Rightarrow>
        \<exists>p i a. si_plan (ps_info n) = Some p \<and> co_node_instrument co (si_instrument (ps_info n)) = Some i \<and>
          sp_attributes s = PlanNode a \<and> reported_instrument i a \<and>
          node_type a = si_type_name (ps_info n) \<and>
          node_relation a = map_option (\<lambda>t. truncate_utf8 t NAME_MAX_LEN) (plan_table_name cat (ps_info n)) \<and>
          parent_relationship a = map_option (\<lambda>e. relationship_str (ed_relationship e)) e \<and>
          subplan_name a = Option.bind e ed_subplan_name \<and>
          startup_cost a = pl_startup_cost p \<and> total_cost a = pl_total_cost p \<and> plan_rows a = pl_plan_rows p \<and>
          width_bytes a = pl_plan_width p)"

definition has_plan :: "child_edge option \<times> 'i plan_state \<Rightarrow> bool" where
  "has_plan en \<longleftrightarrow> si_plan (ps_info (snd en)) \<noteq> None"

text \<open>
  \<open>spans\<close> are the spans of a plan: one for each node that EXPLAIN shows, in its order and none left out,
  up to where \<open>max_spans\<close> is reached; \<open>omitted\<close> nodes come after that. (A node has its plan.)
\<close>

definition spans_of_plan ::
    "('i, 'q) compat \<Rightarrow> catalog \<Rightarrow> 'i plan_state option \<Rightarrow> nat \<Rightarrow> span_record list \<Rightarrow> nat \<Rightarrow> bool" where
  "spans_of_plan co cat planstate max_spans spans omitted \<longleftrightarrow>
     (\<exists>seen rest. shown_nodes co planstate = seen @ rest \<and> list_all2 (span_of_node co cat) (filter has_plan seen) spans \<and>
        length rest = omitted \<and> length spans \<le> max_spans \<and> (rest \<noteq> [] \<longrightarrow> length spans = max_spans))"

lemma from_plan_of_node:
  assumes "from_plan co cat node wall_start parent edge r = Some (Some s, r')"
  shows "span_of_node co cat (edge, node) s"
  using assms
  by (auto simp: from_plan_def span_of_node_def Let_def reported_instrument_def split: option.splits node_instrument.splits)

lemma collect_plan_spans_of_plan:
  assumes c: "collect_plan_spans co cat planstate wall_start q max_spans r = Some (res, r')"
  shows "spans_of_plan co cat planstate max_spans (psn_spans res) (psn_omitted res)"
proof (cases planstate)
  case None
  with c show ?thesis by (auto simp: collect_plan_spans_def Let_def spans_of_plan_def shown_nodes_def)
next
  case (Some root)
  let ?ts = "[(None, fst (explain_tree (co_subplan_display_name co) {} root))]"
  obtain summary res0 where w: "visit_forest (visit_plan_node co cat wall_start q) max_spans None ?ts walk_summary_default (no_spans, r) =
      Some (summary, res0, r')" and res: "res = res0\<lparr>psn_omitted := ws_omitted summary\<rparr>"
    using c Some by (auto simp: collect_plan_spans_forest)
  have "\<exists>seen rest new. preorder ?ts = seen @ rest \<and> psn_spans (fst (res0, r')) = psn_spans (fst (no_spans, r)) @ new \<and>
      list_all2 (span_of_node co cat) (filter has_plan seen) new \<and>
      ws_emitted summary = ws_emitted walk_summary_default + length new \<and>
      ws_omitted summary = ws_omitted walk_summary_default + length rest \<and>
      (rest \<noteq> [] \<longrightarrow> max_spans \<le> ws_emitted summary) \<and> (max_spans \<le> ws_emitted walk_summary_default \<longrightarrow> seen = [])"
  proof (rule visit_forest_seen [OF w, where out = "\<lambda>v. psn_spans (fst v)"])
    fix v n e p link v'
    assume "visit_plan_node co cat wall_start q v n e p = Some (link, v')"
    then show "case link of None \<Rightarrow> psn_spans (fst v') = psn_spans (fst v) \<and> \<not> has_plan (e, n)
      | Some l \<Rightarrow> \<exists>x. psn_spans (fst v') = psn_spans (fst v) @ [x] \<and> has_plan (e, n) \<and> span_of_node co cat (e, n) x"
    proof (cases rule: visit_plan_nodeE)
      case skipped
      then show ?thesis by (simp add: has_plan_def)
    next
      case (span s r')
      from from_plan_of_node [OF span(2)] span(1,4) show ?thesis by (auto simp: has_plan_def span_of_node_def)
    qed
  qed
  moreover have "length (psn_spans res) \<le> max_spans" using collect_plan_spans_limit [OF c] by simp
  ultimately show ?thesis
    unfolding spans_of_plan_def res by (fastforce simp: shown_nodes_def Some walk_summary_default_def)
qed

text \<open>Values of the generator that are not the invalid identifier.\<close>

definition span_ids_left :: "rng \<Rightarrow> nat" where
  "span_ids_left r = length (filter (\<lambda>w. w \<noteq> 0) (draws64 r))"

lemma random_span_id_total:
  assumes "0 < span_ids_left r"
  obtains i r' where "random_span_id r = Some (i, r')" and "span_ids_left r = span_ids_left r' + 1"
proof -
  have "\<exists>i vs. random_id_loop SPAN_ID_INVALID ws = Some (i, vs) \<and>
      length (filter (\<lambda>w. w \<noteq> 0) ws) = length (filter (\<lambda>w. w \<noteq> 0) vs) + 1"
    if "0 < length (filter (\<lambda>w. w \<noteq> 0) ws)" for ws :: "u64 list"
    using that by (induction ws) (auto simp: be_bytes_ids Let_def split: if_splits)
  from this [of "draws64 r"] assms show ?thesis
    by (auto simp: random_span_id_def span_ids_left_def intro!: that)
qed

lemma visit_plan_node_total:
  assumes layer: "version_layer co" and node: "si_plan (ps_info node) \<noteq> None" and left: "0 < span_ids_left (snd v)"
  shows "\<exists>l v'. visit_plan_node co cat wall_start q v node edge parent = Some (Some l, v') \<and>
    span_ids_left (snd v) \<le> span_ids_left (snd v') + 1"
proof -
  obtain res r where v: "v = (res, r)" by (cases v)
  obtain i r' where i: "random_span_id r = Some (i, r')" "span_ids_left r = span_ids_left r' + 1"
    using left v by (auto elim: random_span_id_total)
  obtain k where k: "co_node_instrument co (si_instrument (ps_info node)) = Some k"
    using version_layer.node_returns [OF layer] by blast
  obtain p where p: "si_plan (ps_info node) = Some p" using node by blast
  obtain s where "from_plan co cat node wall_start (case parent of Some p \<Rightarrow> p | None \<Rightarrow> q) edge r = Some (Some s, r')"
    using i(1) k p by (cases k) (simp_all add: from_plan_def Let_def)
  with i(2) show ?thesis by (simp add: visit_plan_node_def v Let_def)
qed

lemma visit_plan_node_counts:
  "visit_plan_node co cat wall_start q v n e p = Some (link, v') \<Longrightarrow>
   length (psn_spans (fst v')) = length (psn_spans (fst v)) + (if link = None then 0 else 1)"
  by (erule visit_plan_nodeE) simp_all

section \<open>Well-typed spans\<close>

lemma str_ok_append: "str_ok s \<Longrightarrow> utf8_valid s" "utf8_valid s \<Longrightarrow> utf8_valid t \<Longrightarrow> utf8_valid (s @ t)"
  by (simp_all add: str_ok_def valid_append)

lemma str_ok_truncated: "utf8_valid s \<Longrightarrow> n < 2 ^ 32 \<Longrightarrow> str_ok (truncate_utf8 s n)"
  using truncate_length [of s n] by (simp add: str_ok_def truncate_valid)

lemma str_ok_lit: "list_all (\<lambda>c. of_char c < (0x80 :: byte)) s \<Longrightarrow> length s < 2 ^ 32 \<Longrightarrow> str_ok (lit s)"
  by (simp add: str_ok_def ascii_valid lit_ascii) (simp add: lit_def)

lemma relationship_str_ok: "str_ok (relationship_str e)"
  by (cases e) (auto simp: relationship_str_def intro!: str_ok_lit)

lemma query_name_ok: "str_ok (query_name op)"
  by (cases op) (auto simp: query_name_def intro!: str_ok_lit)

lemma plan_span_name_valid:
  assumes "pred_option utf8_valid sub" and "utf8_valid name" and "utf8_valid suffix"
  shows "utf8_valid (plan_span_name sub name suffix)"
proof -
  have "utf8_valid (lit '' '')" "utf8_valid (lit '' postgresql.operation.'')" "utf8_valid (lit ''postgresql.operation.'')"
    by (rule ascii_valid, simp add: lit_def)+
  moreover have "utf8_valid ARROW" by code_simp
  ultimately show ?thesis using assms by (auto simp: plan_span_name_def valid_append split: option.splits)
qed

text \<open>A plan node's span; its relation, if any, is a string too.\<close>

definition plan_span_typed :: "span_record \<Rightarrow> bool" where
  "plan_span_typed s \<longleftrightarrow> span_typed s \<and> pred_option str_ok (span_relation s)"

lemma from_plan_typed:
  assumes v: "spans_inv (\<lambda>earlier s. plan_span_typed s) v" and p: "known_link v parent"
    and ids: "length (ln_trace_id q) = 16" "length (ln_span_id q) = 8"
    and s: "from_plan co cat node wall_start (case parent of Some p \<Rightarrow> p | None \<Rightarrow> q) edge r = Some (Some s, r')"
    and names: "str_ok (si_type_name (ps_info node)) \<and> pred_option str_ok (Option.bind edge ed_subplan_name)"
  shows "plan_span_typed s"
proof -
  have "span_typed t" if "t \<in> set (psn_spans (fst v))" for t
    using v that by (auto simp: spans_inv_def plan_span_typed_def in_set_conv_nth)
  then have l: "length (ln_trace_id (case parent of Some p \<Rightarrow> p | None \<Rightarrow> q)) = 16"
    "length (ln_span_id (case parent of Some p \<Rightarrow> p | None \<Rightarrow> q)) = 8"
    using p ids by (auto simp: known_link_def span_link_of_def span_typed_def split: option.splits)
  from s show ?thesis
  proof (rule from_plan_Some)
    fix a assume a: "sp_attributes s = PlanNode a" "random_span_id r = Some (sp_span_id s, r')"
      "sp_trace_id s = ln_trace_id (case parent of Some p \<Rightarrow> p | None \<Rightarrow> q)"
      "sp_parent_id s = ln_span_id (case parent of Some p \<Rightarrow> p | None \<Rightarrow> q)"
      "node_type a = si_type_name (ps_info node)"
      "node_relation a = map_option (\<lambda>t. truncate_utf8 t NAME_MAX_LEN) (plan_table_name cat (ps_info node))"
      "parent_relationship a = map_option (\<lambda>e. relationship_str (ed_relationship e)) edge"
      "subplan_name a = Option.bind edge ed_subplan_name"
      "sp_name s = truncate_utf8 (plan_span_name (subplan_name a) (node_type a)
        (case node_relation a of Some t \<Rightarrow> lit '' ['' @ t @ lit '']'' | None \<Rightarrow> [])) NAME_MAX_LEN"
    have rel: "pred_option str_ok (node_relation a)"
      by (cases "plan_table_name cat (ps_info node)")
        (auto simp: a(6) NAME_MAX_LEN_def intro!: str_ok_truncated dest: plan_table_name_valid)
    have "utf8_valid (lit '' ['')" "utf8_valid (lit '']'')" by (rule ascii_valid, simp add: lit_def)+
    with rel have "utf8_valid (case node_relation a of Some t \<Rightarrow> lit '' ['' @ t @ lit '']'' | None \<Rightarrow> [])"
      by (auto simp: valid_append str_ok_def split: option.splits)
    then have "utf8_valid (plan_span_name (subplan_name a) (node_type a)
        (case node_relation a of Some t \<Rightarrow> lit '' ['' @ t @ lit '']'' | None \<Rightarrow> []))"
      using names by (intro plan_span_name_valid) (auto simp: a(5,8) str_ok_def option.pred_set)
    then have "str_ok (sp_name s)" unfolding a(9) by (rule str_ok_truncated) (simp add: NAME_MAX_LEN_def)
    moreover have "pred_option str_ok (parent_relationship a)"
      by (cases edge) (simp_all add: a(7) relationship_str_ok)
    ultimately show ?thesis
      using l rel names random_span_id_valid [OF a(2)] a(1,3,4,5,8)
      by (simp add: plan_span_typed_def span_typed_def span_relation_def attributes_ok_def plan_node_ok_def)
  qed
qed

lemma sanitize_text_ok: "sanitize pg src a b n QUERY_TEXT_MAX_LEN l = Some (Some t, l') \<Longrightarrow> str_ok t"
  by (auto simp: sanitize_is_full QUERY_TEXT_MAX_LEN_def intro!: str_ok_truncated dest: full_text_valid)

lemma exported_text_ok: "exported_query_text_and_id pg desc mode l = Some ((t, i), l') \<Longrightarrow> pred_option str_ok t"
  by (cases t) (auto simp: exported_query_text_and_id_def Let_def dest: sanitize_text_ok split: option.splits)

lemma join_comma_valid: "\<forall>x \<in> set xs. utf8_valid x \<Longrightarrow> utf8_valid (join_comma xs)"
proof (induction xs rule: join_comma.induct)
  case (3 x y xs)
  have "utf8_valid (lit '', '')" by (rule ascii_valid) (simp add: lit_def)
  with 3 show ?case by (simp add: valid_append)
qed simp_all

lemma from_query_Some:
  assumes "from_query co pg desc wall_start parent mode span_id tables omitted l = Some (Some s, desc', l')"
  obtains total_ns timer t i where "co_query_total_ns co (qd_timer desc) = Some (Some total_ns, timer)"
    and "desc' = desc\<lparr>qd_timer := timer\<rparr>" and "exported_query_text_and_id pg desc' mode l = Some ((t, i), l')"
    and "s = \<lparr>sp_trace_id = pc_trace_id parent, sp_span_id = span_id, sp_parent_id = pc_span_id parent,
       sp_name = truncate_utf8 (query_name (qd_operation desc) @ lit '' '' @ join_comma tables) NAME_MAX_LEN,
       sp_start_time = wall_start, sp_end_time = after_ns wall_start total_ns,
       sp_attributes = Query \<lparr>parent_is_remote = pc_is_remote parent, operation = query_name (qd_operation desc),
         query_text = t, query_id = i, exec_total_time_ns = total_ns, plan_spans_omitted = word_of_nat omitted\<rparr>\<rparr>"
  using assms by (auto simp: from_query_def Let_def split: option.splits)

lemma from_query_typed:
  assumes "from_query co pg desc wall_start parent mode span_id tables omitted l = Some (Some s, desc', l')"
    and tables: "\<forall>t \<in> set tables. utf8_valid t"
    and ids: "length (pc_trace_id parent) = 16" "length (pc_span_id parent) = 8" "length span_id = 8"
  shows "span_typed s"
  using assms(1)
proof (rule from_query_Some)
  fix total_ns t i
  assume t: "exported_query_text_and_id pg desc' mode l = Some ((t, i), l')"
    and s: "s = \<lparr>sp_trace_id = pc_trace_id parent, sp_span_id = span_id, sp_parent_id = pc_span_id parent,
       sp_name = truncate_utf8 (query_name (qd_operation desc) @ lit '' '' @ join_comma tables) NAME_MAX_LEN,
       sp_start_time = wall_start, sp_end_time = after_ns wall_start total_ns,
       sp_attributes = Query \<lparr>parent_is_remote = pc_is_remote parent, operation = query_name (qd_operation desc),
         query_text = t, query_id = i, exec_total_time_ns = total_ns, plan_spans_omitted = word_of_nat omitted\<rparr>\<rparr>"
  have "utf8_valid (lit '' '')" by (rule ascii_valid) (simp add: lit_def)
  then have "utf8_valid (query_name (qd_operation desc) @ lit '' '' @ join_comma tables)"
    using join_comma_valid [OF tables] query_name_ok [of "qd_operation desc"] by (simp add: valid_append str_ok_def)
  then have "str_ok (sp_name s)" unfolding s by (simp add: NAME_MAX_LEN_def str_ok_truncated)
  with ids exported_text_ok [OF t] query_name_ok [of "qd_operation desc"] show ?thesis
    by (simp add: span_typed_def attributes_ok_def query_ok_def s)
qed

lemma collect_plan_spans_complete:
  assumes layer: "version_layer co" and plans: "\<forall>(e, n) \<in> set (shown_nodes co planstate). si_plan (ps_info n) \<noteq> None"
    and left: "max_spans \<le> span_ids_left r"
  shows "\<exists>res r'. collect_plan_spans co cat planstate wall_start q max_spans r = Some (res, r') \<and>
    length (psn_spans res) = min max_spans (length (shown_nodes co planstate)) \<and>
    psn_omitted res = length (shown_nodes co planstate) - max_spans"
proof (cases planstate)
  case None
  then show ?thesis by (simp add: collect_plan_spans_def shown_nodes_def)
next
  case (Some root)
  let ?ts = "[(None, fst (explain_tree (co_subplan_display_name co) {} root))]"
  let ?visit = "visit_plan_node co cat wall_start q"
  have n: "preorder ?ts = shown_nodes co planstate" by (simp add: shown_nodes_def Some)
  have "\<exists>summary v. visit_forest ?visit max_spans None ?ts walk_summary_default (no_spans, r) = Some (summary, v) \<and>
      ws_emitted summary = min max_spans (ws_emitted walk_summary_default + length (preorder ?ts)) \<and>
      ws_emitted summary + ws_omitted summary =
        ws_emitted walk_summary_default + ws_omitted walk_summary_default + length (preorder ?ts) \<and>
      max_spans - ws_emitted summary \<le> span_ids_left (snd v)"
  proof (rule visit_forest_total)
    show "max_spans - ws_emitted walk_summary_default \<le> span_ids_left (snd (no_spans, r))" using left by simp
    show "ws_emitted walk_summary_default \<le> max_spans" by (simp add: walk_summary_default_def)
    show "\<exists>l v'. ?visit v n e p = Some (Some l, v') \<and> span_ids_left (snd v) \<le> span_ids_left (snd v') + 1"
      if "0 < span_ids_left (snd v)" "(e, n) \<in> set (preorder ?ts)" for v n e p
    proof (rule visit_plan_node_total [OF layer _ that(1)])
      show "si_plan (ps_info n) \<noteq> None" using plans that(2) unfolding n by blast
    qed
  qed
  then obtain summary res r' where w: "visit_forest ?visit max_spans None ?ts walk_summary_default (no_spans, r) = Some (summary, res, r')"
    and s: "ws_emitted summary = min max_spans (length (shown_nodes co planstate))"
      "ws_emitted summary + ws_omitted summary = length (shown_nodes co planstate)"
    unfolding n by (auto simp: walk_summary_default_def)
  have "length (psn_spans (fst (res, r'))) + ws_emitted walk_summary_default = length (psn_spans (fst (no_spans, r))) + ws_emitted summary"
  proof (rule visit_forest_emitted [OF w, where f = "\<lambda>v. length (psn_spans (fst v))"])
    show "length (psn_spans (fst v')) = length (psn_spans (fst v)) + (if link = None then 0 else 1)"
      if "?visit v n e p = Some (link, v')" for v n e p link v'
      using that by (rule visit_plan_node_counts)
  qed
  then have "length (psn_spans res) = ws_emitted summary" by (simp add: walk_summary_default_def)
  moreover have "collect_plan_spans co cat planstate wall_start q max_spans r = Some (res\<lparr>psn_omitted := ws_omitted summary\<rparr>, r')"
    by (simp add: Some collect_plan_spans_forest w)
  ultimately show ?thesis using s by (intro exI [of _ "res\<lparr>psn_omitted := ws_omitted summary\<rparr>"] exI [of _ r']) auto
qed

lemma spans_typed:
  assumes plan: "collect_plan_spans co cat planstate wall_start q max_spans r = Some (res, r')"
    and query: "from_query co pg desc wall_start parent mode (ln_span_id q) (psn_tables res) (psn_omitted res) l = Some (Some s, desc', l')"
    and ids: "length (ln_trace_id q) = 16" "length (ln_span_id q) = 8" "length (pc_trace_id parent) = 16" "length (pc_span_id parent) = 8"
    and names: "\<forall>(e, n) \<in> set (shown_nodes co planstate).
      str_ok (si_type_name (ps_info n)) \<and> pred_option str_ok (Option.bind e ed_subplan_name)"
  shows "list_all span_typed (psn_spans res @ [s])"
proof -
  have spans: "spans_inv (\<lambda>earlier s. plan_span_typed s) (res, r')"
    by (rule collect_plan_spans_inv [OF plan]) (rule from_plan_typed [OF _ _ ids(1,2)], assumption+, use names in blast)
  then have all: "s \<in> set (psn_spans res) \<Longrightarrow> plan_span_typed s" for s by (auto simp: spans_inv_def in_set_conv_nth)
  then have "\<forall>t \<in> set (psn_tables res). utf8_valid t"
    using spans by (fastforce simp: spans_inv_def tables_of_def plan_span_typed_def str_ok_def option.pred_set)
  from from_query_typed [OF query this ids(3,4,2)] all show ?thesis by (auto simp: list_all_iff plan_span_typed_def)
qed

section \<open>A plan to evaluate\<close>

definition demo_node :: node_instrumentation where
  "demo_node =
     \<lparr>ni_running = False, ni_starttime = 0, ni_startup = 10, ni_total = 90, ni_ntuples = 0, ni_ntuples2 = 0,
      ni_nloops = 0x3FF0000000000000, ni_nfiltered1 = 0, ni_nfiltered2 = 0\<rparr>"

definition demo_compat :: "(node_instrumentation, i64) compat" where
  "demo_compat = pg19_compat end_loop19 \<lparr>ticks_per_ns_scaled = 0, max_ticks_no_overflow = 0\<rparr>"

definition demo_catalog :: catalog where
  "demo_catalog =
     \<lparr>get_rel_name = (\<lambda>oid. Some (lit ''t'')), get_rel_namespace = (\<lambda>oid. 11),
      get_namespace_name_or_temp = (\<lambda>oid. Some (lit ''public''))\<rparr>"

definition demo_query_link :: span_link where
  "demo_query_link = \<lparr>ln_trace_id = replicate 16 1, ln_span_id = replicate 8 2, ln_end_time = 1050\<rparr>"

definition demo_rng :: rng where
  "demo_rng = \<lparr>draws128 = [1], draws64 = [0, 5, 6, 7]\<rparr>"

text \<open>The tree of \<open>demo_tree\<close> over a table scan.\<close>

definition demo_plan :: "node_instrumentation plan_state" where
  "demo_plan =
     PlanState (demo_info demo_node T_Append) [] 
       (Some (PlanState ((demo_info demo_node T_SeqScan)\<lparr>si_current_relation := Some 7\<rparr>) [] None None None None [] []))
       None (Some [Some (demo_leaf demo_node)]) None [] []"

definition demo_collected :: "(plan_spans \<times> rng) option" where
  "demo_collected =
     map_option (\<lambda>(summary, res, r). (res\<lparr>psn_omitted := ws_omitted summary\<rparr>, r))
       (visit_forest (visit_plan_node demo_compat demo_catalog 1000 demo_query_link) 2 None
         [(None, fst (explain_tree (co_subplan_display_name demo_compat) {} demo_plan))] walk_summary_default (no_spans, demo_rng))"

lemma demo_layer: "version_layer demo_compat"
  unfolding demo_compat_def by (rule pg19_layer [OF pg19.settles])

lemma demo_collect: "collect_plan_spans demo_compat demo_catalog (Some demo_plan) 1000 demo_query_link 2 demo_rng = demo_collected"
  by (simp add: collect_plan_spans_forest demo_collected_def)

section \<open>Properties\<close>

text \<open>
  C13 (invariant). The spans of a plan form a tree in its order: each is below the statement's span or below
  a span before it, ends within its parent, starts when the statement started, has the statement's
  trace id and a valid id of its own and a bounded name. The limit holds, and a span is missing only
  when it is reached. The table names are exactly the relations of these spans, sorted.
\<close>

theorem plan_spans_nested:
  assumes "collect_plan_spans co cat planstate wall_start q max_spans r = Some (res, r')"
    and "wall_start \<le> ln_end_time q"
  shows "(\<forall>k < length (psn_spans res). plan_span_ok q wall_start (take k (psn_spans res)) (psn_spans res ! k)) \<and>
    length (psn_spans res) \<le> max_spans \<and> (psn_omitted res = 0 \<or> length (psn_spans res) = max_spans) \<and>
    tables_of (psn_spans res) (psn_tables res)"
proof -
  have "spans_inv (plan_span_ok q wall_start) (res, r')"
    by (rule collect_plan_spans_inv [OF assms(1)]) (rule from_plan_span_ok [OF _ _ assms(2)])
  with collect_plan_spans_limit [OF assms(1)] show ?thesis by (simp add: spans_inv_def)
qed

lemma demo_collected_Some: "demo_collected = Some (fst (the demo_collected), snd (the demo_collected))"
proof -
  have "demo_collected \<noteq> None" by code_simp
  then show ?thesis by auto
qed

lemma plan_spans_nested_witness:
  "length (psn_spans (fst (the demo_collected))) = 2 \<and> psn_omitted (fst (the demo_collected)) = 1 \<and>
    plan_span_ok demo_query_link 1000 (take 1 (psn_spans (fst (the demo_collected)))) (psn_spans (fst (the demo_collected)) ! 1) \<and>
    tables_of (psn_spans (fst (the demo_collected))) (psn_tables (fst (the demo_collected)))"
proof -
  have "length (psn_spans (fst (the demo_collected))) = 2" "psn_omitted (fst (the demo_collected)) = 1" by code_simp+
  moreover have "1000 \<le> ln_end_time demo_query_link" by (simp add: demo_query_link_def)
  note plan_spans_nested [OF trans [OF demo_collect demo_collected_Some] this]
  ultimately show ?thesis by simp
qed

text \<open>
  Collecting always comes back on a plan whose nodes have a plan, with enough random
  values: there is a span for each of the first \<open>max_spans\<close> nodes that EXPLAIN shows, and the count
  of the others.
\<close>

theorem plan_spans_complete:
  assumes "version_layer co" and "\<forall>(e, n) \<in> set (shown_nodes co planstate). si_plan (ps_info n) \<noteq> None"
    and "max_spans \<le> span_ids_left r"
  shows "\<exists>res r'. collect_plan_spans co cat planstate wall_start q max_spans r = Some (res, r') \<and>
    length (psn_spans res) = min max_spans (length (shown_nodes co planstate)) \<and>
    psn_omitted res = length (shown_nodes co planstate) - max_spans"
  using assms by (rule collect_plan_spans_complete)

lemma plan_spans_complete_witness:
  "\<exists>res r'. collect_plan_spans demo_compat demo_catalog (Some demo_plan) 1000 demo_query_link 3 demo_rng = Some (res, r') \<and>
    length (psn_spans res) = min 3 (length (shown_nodes demo_compat (Some demo_plan))) \<and>
    psn_omitted res = length (shown_nodes demo_compat (Some demo_plan)) - 3"
proof (rule plan_spans_complete [OF demo_layer])
  show "\<forall>(e, n) \<in> set (shown_nodes demo_compat (Some demo_plan)). si_plan (ps_info n) \<noteq> None" by code_simp
  show "3 \<le> span_ids_left demo_rng" by code_simp
qed

text \<open>
  C20 (type). Every span of a statement is well typed, so that the codec carries it: identifiers of their
  fixed lengths, every string valid UTF-8. Given are the lengths of the statement's identifiers and that
  the names of the nodes and sub-plans are strings of less than \<open>2 ^ 32\<close> bytes.
\<close>

theorem statement_spans_typed:
  assumes plan: "collect_plan_spans co cat planstate wall_start q max_spans r = Some (res, r')"
    and query: "from_query co pg desc wall_start parent mode (ln_span_id q) (psn_tables res) (psn_omitted res) l = Some (Some s, desc', l')"
    and ids: "length (ln_trace_id q) = 16" "length (ln_span_id q) = 8" "length (pc_trace_id parent) = 16" "length (pc_span_id parent) = 8"
    and names: "\<forall>(e, n) \<in> set (shown_nodes co planstate).
      str_ok (si_type_name (ps_info n)) \<and> pred_option str_ok (Option.bind e ed_subplan_name)"
  shows "list_all span_typed (psn_spans res @ [s])"
  by (rule spans_typed [OF plan query ids names])

text \<open>A statement with that plan and with 50 nanoseconds on its timer, traced below another process.\<close>

definition demo_desc :: "(node_instrumentation, i64) query_desc" where
  "demo_desc =
     \<lparr>qd_operation = CMD_SELECT, qd_plannedstmt = None, qd_source_text = Some demo_sql, qd_top_eflags = Some 0,
      qd_planstate = Some demo_plan, qd_timer = Some 50\<rparr>"

definition demo_parent :: parent_context where
  "demo_parent = \<lparr>pc_trace_id = replicate 16 1, pc_span_id = replicate 8 3, pc_is_remote = True\<rparr>"

definition demo_statement_span :: span_record where
  "demo_statement_span =
     \<lparr>sp_trace_id = replicate 16 1, sp_span_id = replicate 8 2, sp_parent_id = replicate 8 3,
      sp_name = lit ''SELECT public.t'', sp_start_time = 1000, sp_end_time = 1050,
      sp_attributes = Query \<lparr>parent_is_remote = True, operation = lit ''SELECT'', query_text = Some (lit ''SELECT $1''),
        query_id = 0, exec_total_time_ns = 50, plan_spans_omitted = 1\<rparr>\<rparr>"

lemma demo_from_query:
  "from_query demo_compat demo_pg demo_desc 1000 demo_parent QueryTextNormalized (ln_span_id demo_query_link)
     (psn_tables (fst (the demo_collected))) (psn_omitted (fst (the demo_collected))) demo_levels =
   Some (Some demo_statement_span, demo_desc, demo_levels)"
proof -
  have t: "psn_tables (fst (the demo_collected)) = [lit ''public.t'']" "psn_omitted (fst (the demo_collected)) = 1"
    by code_simp+
  have q: "co_query_total_ns demo_compat (Some 50) = Some (Some 50, Some 50)" by code_simp
  have n: "truncate_utf8 (lit ''SELECT'' @ lit '' '' @ lit ''public.t'') NAME_MAX_LEN = lit ''SELECT public.t''"
    by code_simp
  have x: "truncate_utf8 (lit ''SELECT $1'') QUERY_TEXT_MAX_LEN = lit ''SELECT $1''" by code_simp
  show ?thesis
    by (simp add: from_query_def t demo_desc_def q Let_def n exported_query_text_and_id_def normalize_for_def
        sanitize_is_full demo_full x demo_statement_span_def demo_parent_def demo_query_link_def after_ns_def query_name_def)
qed

lemma statement_spans_typed_witness:
  "list_all span_typed (psn_spans (fst (the demo_collected)) @ [demo_statement_span])"
proof (rule statement_spans_typed [OF trans [OF demo_collect demo_collected_Some] demo_from_query])
  show "\<forall>(e, n) \<in> set (shown_nodes demo_compat (Some demo_plan)).
      str_ok (si_type_name (ps_info n)) \<and> pred_option str_ok (Option.bind e ed_subplan_name)" by code_simp
qed (simp_all add: demo_query_link_def demo_parent_def)

end
