(* ===== verification/Shared.thy ===== *)
theory Shared
  imports Queue
begin

text \<open>
  The span queue in shared memory (\<open>src/shared.rs\<close>): the header in front of the ring's data area,
  its set-up in the shared memory hooks, the lock around every access to the ring, publishing with
  the count of dropped spans, and waking the worker.

  The state of a process is what it sees of shared memory and the calls it makes to Postgres, in
  order (\<open>calls\<close>); what those calls do is not modelled. Values that Postgres provides are arguments
  (\<open>pg_env\<close>). The atomics are accessed with the orderings the code names; each access is one step
  of the model.
\<close>

section \<open>Data\<close>

definition NO_WORKER :: i32 where
  "NO_WORKER = - 1"

definition ADDIN_SHMEM_INIT_LOCK :: nat where
  "ADDIN_SHMEM_INIT_LOCK = 21"

record shm_header =
  header_state :: ring_state
  header_capacity :: u64
  worker_proc_number :: i32
  dropped_spans :: u64

text \<open>The size of the \<open>repr(C)\<close> struct: 16 + 8 + 4, four bytes of padding, 8.\<close>

definition HEADER_BYTES :: nat where
  "HEADER_BYTES = 40"

text \<open>The functions that the program hands to \<open>before_shmem_exit\<close>.\<close>

datatype exit_callback = UnregisterWorkerOnExit

datatype pg_call =
    PrevHook
  | RequestAddinShmemSpace nat
  | RequestNamedLWLockTranche nat
  | LWLockAcquireInit nat
  | LWLockReleaseInit nat
  | LWLockAcquireQueue
  | LWLockReleaseQueue
  | BeforeShmemExit exit_callback
  | SetLatch nat

text \<open>
  \<open>my_proc_number\<close> is \<open>MyProcNumber\<close>; \<open>all_proc_count\<close> is \<open>ProcGlobal->allProcCount\<close>, \<open>None\<close> for a
  null \<open>ProcGlobal\<close>; \<open>holdoff_count\<close> is \<open>InterruptHoldoffCount\<close> when a lock guard is dropped.
\<close>

record pg_env =
  my_proc_number :: i32
  all_proc_count :: "u32 option"
  holdoff_count :: u32

text \<open>
  \<open>shm_hdr\<close> and \<open>shm_lock\<close> are the two pointers of this process, \<open>None\<close> and \<open>False\<close> for null.
\<close>

record shm =
  shm_hdr :: "shm_header option"
  shm_data :: bytes
  shm_lock :: bool
  calls :: "pg_call list"

definition shm_null :: shm where
  "shm_null = \<lparr>shm_hdr = None, shm_data = [], shm_lock = False, calls = []\<rparr>"

definition call :: "pg_call \<Rightarrow> shm \<Rightarrow> shm" where
  "call c s = s\<lparr>calls := calls s @ [c]\<rparr>"

section \<open>Set-up\<close>

definition shared_memory_size :: "i32 \<Rightarrow> nat" where
  "shared_memory_size queue_size_kb =
     HEADER_BYTES + (if sint queue_size_kb < 0 then 0 else nat (sint queue_size_kb)) * 1024"

text \<open>The hooks call the previously installed hook first; \<open>kb\<close> is \<open>get_queue_size_kb()\<close>.\<close>

definition on_shmem_request :: "bool \<Rightarrow> i32 \<Rightarrow> shm \<Rightarrow> shm" where
  "on_shmem_request prev kb s0 =
     (let s = (if prev then call PrevHook s0 else s0)
      in call (RequestNamedLWLockTranche 1)
           (call (RequestAddinShmemSpace (shared_memory_size kb)) s))"

text \<open>
  \<open>found\<close> is the header that \<open>ShmemInitStruct\<close> found in place, \<open>None\<close> for a new block, \<open>area\<close> the
  bytes behind it, \<open>aligned\<close> whether the block is aligned for the header. The assertion panics.
\<close>

definition init_shared_header :: "i32 \<Rightarrow> shm_header option \<Rightarrow> bytes \<Rightarrow> bool \<Rightarrow> shm \<Rightarrow> shm option" where
  "init_shared_header kb found area aligned s0 =
     (let size = shared_memory_size kb;
          s = call (LWLockAcquireInit ADDIN_SHMEM_INIT_LOCK) s0
      in if \<not> aligned then None
         else let hdr = (case found of
                     Some h \<Rightarrow> h
                   | None \<Rightarrow> \<lparr>header_state = ring_state_new,
                              header_capacity = word_of_nat (size - HEADER_BYTES),
                              worker_proc_number = NO_WORKER, dropped_spans = 0\<rparr>)
              in Some (call (LWLockReleaseInit ADDIN_SHMEM_INIT_LOCK)
                   (s\<lparr>shm_hdr := Some hdr, shm_data := area, shm_lock := True\<rparr>)))"

definition on_shmem_startup ::
    "bool \<Rightarrow> i32 \<Rightarrow> shm_header option \<Rightarrow> bytes \<Rightarrow> bool \<Rightarrow> shm \<Rightarrow> shm option" where
  "on_shmem_startup prev kb found area aligned s =
     init_shared_header kb found area aligned (if prev then call PrevHook s else s)"

section \<open>The lock and the ring\<close>

definition lock_acquire :: "shm \<Rightarrow> shm option" where
  "lock_acquire s = (if shm_lock s then Some (call LWLockAcquireQueue s) else None)"

text \<open>\<open>LockGuard::drop\<close>: after an error Postgres has already released the lock.\<close>

definition lock_drop :: "pg_env \<Rightarrow> shm \<Rightarrow> shm" where
  "lock_drop env s = (if holdoff_count env > 0 then call LWLockReleaseQueue s else s)"

text \<open>The ring over the header's state and the first \<open>capacity\<close> bytes behind the header.\<close>

definition shm_ring :: "shm_header \<Rightarrow> bytes \<Rightarrow> ring" where
  "shm_ring h d = \<lparr>rstate = header_state h, rdata = take (unat (header_capacity h)) d\<rparr>"

definition put_ring :: "ring \<Rightarrow> shm_header \<Rightarrow> shm \<Rightarrow> shm" where
  "put_ring r h s =
     s\<lparr>shm_hdr := Some (h\<lparr>header_state := rstate r\<rparr>),
       shm_data := rdata r @ drop (length (rdata r)) (shm_data s)\<rparr>"

text \<open>
  \<open>with_ring\<close>: the outer \<open>None\<close> is a panic of \<open>f\<close>, the inner one "never set up". The guard is dropped
  after \<open>f\<close>.
\<close>

definition with_ring :: "pg_env \<Rightarrow> (ring \<Rightarrow> ('a \<times> ring) option) \<Rightarrow> shm \<Rightarrow> ('a option \<times> shm) option" where
  "with_ring env f s =
     (case shm_hdr s of
        None \<Rightarrow> Some (None, s)
      | Some h \<Rightarrow>
          (case lock_acquire s of
             None \<Rightarrow> Some (None, s)
           | Some s1 \<Rightarrow>
               map_option (\<lambda>(x, r). (Some x, lock_drop env (put_ring r h s1)))
                 (f (shm_ring h (shm_data s1)))))"

section \<open>Publishing\<close>

datatype published = Queued | Dropped

definition count_dropped :: "nat \<Rightarrow> shm \<Rightarrow> shm" where
  "count_dropped spans s =
     (case shm_hdr s of
        Some h \<Rightarrow>
          if spans > 0
          then s\<lparr>shm_hdr := Some (h\<lparr>dropped_spans := dropped_spans h + word_of_nat spans\<rparr>)\<rparr>
          else s
      | None \<Rightarrow> s)"

definition dropped_spans_total :: "shm \<Rightarrow> u64" where
  "dropped_spans_total s = (case shm_hdr s of None \<Rightarrow> 0 | Some h \<Rightarrow> dropped_spans h)"

text \<open>A negative \<open>ProcNumber\<close>, no process array, or an index outside it: nothing to wake.\<close>

definition wake_worker :: "pg_env \<Rightarrow> shm \<Rightarrow> shm" where
  "wake_worker env s =
     (case shm_hdr s of
        None \<Rightarrow> s
      | Some h \<Rightarrow>
          (let proc_number = worker_proc_number h
           in case all_proc_count env of
                None \<Rightarrow> s
              | Some n \<Rightarrow>
                  if sint proc_number < 0 \<or> proc_number \<ge> n then s
                  else call (SetLatch (unat proc_number)) s))"

text \<open>The closure that \<open>publish\<close> runs on the ring, its critical section, and what follows it.\<close>

definition push_measured :: "batch \<Rightarrow> ring \<Rightarrow> (bool option \<times> ring) option" where
  "push_measured b r =
     (let used_before = used r
      in map_option
           (\<lambda>(res, r'). (case res of
                Inl _ \<Rightarrow> None
              | Inr () \<Rightarrow> Some (should_wake used_before (used r') (capacity r')), r'))
           (push_batch r b))"

definition publish_push :: "pg_env \<Rightarrow> batch \<Rightarrow> shm \<Rightarrow> (bool option option \<times> shm) option" where
  "publish_push env b = with_ring env (push_measured b)"

definition publish_finish :: "pg_env \<Rightarrow> batch \<Rightarrow> bool option option \<Rightarrow> shm \<Rightarrow> published \<times> shm" where
  "publish_finish env b pushed s =
     (case pushed of
        Some (Some wake) \<Rightarrow> (Queued, if wake then wake_worker env s else s)
      | _ \<Rightarrow> (Dropped, count_dropped (batch_records b) s))"

definition publish :: "pg_env \<Rightarrow> batch \<Rightarrow> nat \<Rightarrow> shm \<Rightarrow> (published \<times> shm) option" where
  "publish env b skipped s0 =
     (let s = count_dropped skipped s0
      in if batch_is_empty b then Some (Queued, s)
         else map_option (\<lambda>(pushed, s'). publish_finish env b pushed s') (publish_push env b s))"

text \<open>\<open>drain_into\<close> of this module: the result, the output vector and the new state.\<close>

definition shared_drain_into ::
    "pg_env \<Rightarrow> bytes \<Rightarrow> nat \<Rightarrow> shm \<Rightarrow> ((corrupted + nat) \<times> bytes \<times> shm) option" where
  "shared_drain_into env out max_bytes s =
     map_option
       (\<lambda>(res, s'). case res of
            None \<Rightarrow> (Inr 0, out, s')
          | Some (n, out') \<Rightarrow> (n, out', s'))
       (with_ring env
          (\<lambda>r. map_option (\<lambda>(n, out', r'). ((n, out'), r')) (drain_into r out max_bytes)) s)"

section \<open>The worker's registration\<close>

definition register_worker :: "pg_env \<Rightarrow> shm \<Rightarrow> shm" where
  "register_worker env s =
     (case shm_hdr s of
        None \<Rightarrow> s
      | Some h \<Rightarrow>
          call (BeforeShmemExit UnregisterWorkerOnExit)
            (s\<lparr>shm_hdr := Some (h\<lparr>worker_proc_number := my_proc_number env\<rparr>)\<rparr>))"

definition unregister_worker_on_exit :: "shm \<Rightarrow> shm" where
  "unregister_worker_on_exit s =
     (case shm_hdr s of
        Some h \<Rightarrow> s\<lparr>shm_hdr := Some (h\<lparr>worker_proc_number := NO_WORKER\<rparr>)\<rparr>
      | None \<Rightarrow> s)"

text \<open>
  What this process registered for its exit, the latest first, and the contract of Postgres'
  \<open>proc_exit\<close>: it runs those functions, in this order, whatever the exit code.
\<close>

definition exit_callbacks :: "shm \<Rightarrow> exit_callback list" where
  "exit_callbacks s = rev (concat (map (\<lambda>c. case c of BeforeShmemExit f \<Rightarrow> [f] | _ \<Rightarrow> []) (calls s)))"

definition run_exit_callback :: "exit_callback \<Rightarrow> shm \<Rightarrow> shm" where
  "run_exit_callback f = (case f of UnregisterWorkerOnExit \<Rightarrow> unregister_worker_on_exit)"

definition runs_exit_callbacks :: "(nat \<Rightarrow> shm \<Rightarrow> shm) \<Rightarrow> bool" where
  "runs_exit_callbacks proc_exit \<longleftrightarrow> (\<forall>code s. proc_exit code s = fold run_exit_callback (exit_callbacks s) s)"

section \<open>What shared memory represents\<close>

text \<open>
  Shared memory is set up, its header is \<open>h\<close> and the queued payloads are \<open>ps\<close>.
\<close>

definition shm_holds :: "shm \<Rightarrow> shm_header \<Rightarrow> bytes list \<Rightarrow> bool" where
  "shm_holds s h ps \<longleftrightarrow>
     shm_hdr s = Some h \<and> shm_lock s \<and> unat (header_capacity h) = length (shm_data s) \<and>
     ring_rep (shm_ring h (shm_data s)) ps"

lemma shm_ring_all:
  "unat (header_capacity h) = length d \<Longrightarrow> shm_ring h d = \<lparr>rstate = header_state h, rdata = d\<rparr>"
  by (simp add: shm_ring_def)

lemma call_simps [simp]:
  "shm_hdr (call c s) = shm_hdr s" "shm_data (call c s) = shm_data s" "shm_lock (call c s) = shm_lock s"
  "calls (call c s) = calls s @ [c]"
  by (simp_all add: call_def)

lemma lock_drop_simps [simp]:
  "shm_hdr (lock_drop env s) = shm_hdr s" "shm_data (lock_drop env s) = shm_data s"
  "shm_lock (lock_drop env s) = shm_lock s"
  by (simp_all add: lock_drop_def)

lemma shm_holds_call [simp]:
  "shm_holds (call c s) h ps = shm_holds s h ps" "shm_holds (lock_drop env s) h ps = shm_holds s h ps"
  by (simp_all add: shm_holds_def)

text \<open>Whether the guard was dropped normally shows only in the trace.\<close>

definition lock_calls :: "pg_env \<Rightarrow> pg_call list" where
  "lock_calls env =
     (if holdoff_count env > 0 then [LWLockAcquireQueue, LWLockReleaseQueue] else [LWLockAcquireQueue])"

lemma with_ring_holds:
  assumes s: "shm_holds s h ps"
    and f: "f (shm_ring h (shm_data s)) = Some (x, r)"
    and r: "ring_rep r qs" "capacity r = capacity (shm_ring h (shm_data s))"
  shows "\<exists>s'. with_ring env f s = Some (Some x, s') \<and>
    shm_holds s' (h\<lparr>header_state := rstate r\<rparr>) qs \<and> calls s' = calls s @ lock_calls env"
proof -
  have cap: "length (rdata r) = length (shm_data s)"
    using r(2) s by (simp add: capacity_def shm_ring_def shm_holds_def)
  let ?h = "h\<lparr>header_state := rstate r\<rparr>"
  let ?s' = "lock_drop env (put_ring r h (call LWLockAcquireQueue s))"
  have "with_ring env f s = Some (Some x, ?s')"
    using s f by (simp add: with_ring_def shm_holds_def lock_acquire_def)
  moreover have "shm_ring ?h (rdata r) = r"
    using cap s by (simp add: shm_ring_def shm_holds_def)
  then have "shm_holds ?s' ?h qs"
    using s cap r(1) by (simp add: shm_holds_def put_ring_def)
  moreover have "calls ?s' = calls s @ lock_calls env"
    by (simp add: lock_drop_def put_ring_def lock_calls_def call_def)
  ultimately show ?thesis by blast
qed

lemma count_dropped_holds:
  assumes "shm_holds s h ps"
  shows "shm_holds (count_dropped n s) (h\<lparr>dropped_spans := dropped_spans h + word_of_nat n\<rparr>) ps \<and>
    calls (count_dropped n s) = calls s"
  using assms by (auto simp: shm_holds_def count_dropped_def shm_ring_def)

lemma count_dropped_data [simp]: "shm_data (count_dropped n s) = shm_data s"
  by (simp add: count_dropped_def split: option.splits)

text \<open>The latch that is set for a registered worker whose process slot exists.\<close>

definition wake_calls :: "pg_env \<Rightarrow> i32 \<Rightarrow> pg_call list" where
  "wake_calls env proc_number =
     (case all_proc_count env of
        None \<Rightarrow> []
      | Some n \<Rightarrow>
          if 0 \<le> sint proc_number \<and> unat proc_number < unat n then [SetLatch (unat proc_number)] else [])"

lemma wake_worker_holds:
  assumes "shm_holds s h ps"
  shows "shm_holds (wake_worker env s) h ps \<and> shm_hdr (wake_worker env s) = shm_hdr s \<and>
    calls (wake_worker env s) = calls s @ wake_calls env (worker_proc_number h)"
  using assms
  by (auto simp: wake_worker_def wake_calls_def Let_def shm_holds_def word_le_nat_alt split: option.splits)

text \<open>Whether the tail counter, the total of bytes ever queued, has room for the batch.\<close>

definition publish_room :: "shm_header \<Rightarrow> batch \<Rightarrow> bool" where
  "publish_room h b \<longleftrightarrow> unat (tail (header_state h)) + length (batch_bytes b) < 2 ^ 64"

definition header_free :: "shm \<Rightarrow> nat" where
  "header_free s = (case shm_hdr s of None \<Rightarrow> 0 | Some h \<Rightarrow> free (shm_ring h (shm_data s)))"

definition header_used :: "shm \<Rightarrow> nat" where
  "header_used s = (case shm_hdr s of None \<Rightarrow> 0 | Some h \<Rightarrow> used (shm_ring h (shm_data s)))"

lemma used_rep: "ring_rep r ps \<Longrightarrow> used r = length (stream ps)"
  using length_ring_contents [of r] by (simp add: ring_rep_def)

lemma publish_push_holds:
  assumes s: "shm_holds s h ps" and b: "batch_rep b qs" and room: "publish_room h b"
  defines "fits \<equiv> length (batch_bytes b) \<le> header_free s"
  defines "wake \<equiv> should_wake (header_used s) (header_used s + length (batch_bytes b)) (length (shm_data s))"
  shows "\<exists>rs s'. publish_push env b s = Some (Some (if fits then Some wake else None), s') \<and>
    shm_holds s' (h\<lparr>header_state := rs\<rparr>) (if fits then ps @ qs else ps) \<and>
    calls s' = calls s @ lock_calls env"
proof -
  let ?r = "shm_ring h (shm_data s)"
  have hdr: "shm_hdr s = Some h" and rep: "ring_rep ?r ps"
    and cap: "unat (header_capacity h) = length (shm_data s)"
    using s by (simp_all add: shm_holds_def)
  have "tail_room ?r (length (batch_bytes b))"
    using room by (simp add: publish_room_def tail_room_def shm_ring_def)
  from push_batch_rep [OF rep b this] obtain r' where r': "push_batch ?r b =
      Some (if fits then Inr () else Inl (QueueFull (length (batch_bytes b)) (free ?r)), r')"
    "ring_rep r' (if fits then ps @ qs else ps)" "capacity r' = capacity ?r"
    by (auto simp: fits_def header_free_def hdr)
  have "used r' = header_used s + length (batch_bytes b)" if fits
    using that used_rep [OF r'(2)] used_rep [OF rep] b by (simp add: header_used_def hdr batch_rep_def)
  moreover have "capacity ?r = length (shm_data s)" using cap by (simp add: capacity_def shm_ring_def)
  moreover have wake_eq: "wake = should_wake (used ?r) (used ?r + length (batch_bytes b)) (length (shm_data s))"
    by (simp add: wake_def header_used_def hdr)
  ultimately have f: "push_measured b ?r = Some (if fits then Some wake else None, r')"
    using r'(1,3) by (simp add: push_measured_def Let_def header_used_def hdr split: unit.splits)
  show ?thesis
    unfolding publish_push_def
    using with_ring_holds [where f = "push_measured b", OF s f r'(2,3), of env] by blast
qed

lemma publish_holds:
  assumes s: "shm_holds s h ps" and b: "batch_rep b qs" and room: "publish_room h b"
  defines "fits \<equiv> length (batch_bytes b) \<le> header_free s"
  defines "wake \<equiv> should_wake (header_used s) (header_used s + length (batch_bytes b)) (length (shm_data s))"
  shows "\<exists>s' h'. publish env b k s = Some (if qs = [] \<or> fits then Queued else Dropped, s') \<and>
    shm_holds s' h' (if fits then ps @ qs else ps) \<and> header_capacity h' = header_capacity h \<and>
    worker_proc_number h' = worker_proc_number h \<and>
    dropped_spans h' = dropped_spans h + word_of_nat (k + (if fits then 0 else length qs)) \<and>
    calls s' = calls s @ (if qs = [] then [] else lock_calls env @
      (if fits \<and> wake then wake_calls env (worker_proc_number h) else []))"
proof -
  let ?s = "count_dropped k s" and ?h = "h\<lparr>dropped_spans := dropped_spans h + word_of_nat k\<rparr>"
  have s1: "shm_holds ?s ?h ps" "calls ?s = calls s" using count_dropped_holds [OF s] by simp_all
  have same: "header_free ?s = header_free s" "header_used ?s = header_used s"
    using s s1(1) by (simp_all add: header_free_def header_used_def shm_holds_def shm_ring_def)
  show ?thesis
  proof (cases "qs = []")
    case True
    then have "batch_is_empty b" "batch_bytes b = []" using b by (simp_all add: batch_rep_def batch_is_empty_def)
    then have "publish env b k s = Some (Queued, ?s)" "fits"
      by (simp_all add: publish_def fits_def)
    with True s1 show ?thesis by auto
  next
    case False
    then have ne: "\<not> batch_is_empty b" using b by (simp add: batch_rep_def batch_is_empty_def)
    have room': "publish_room ?h b" using room by (simp add: publish_room_def)
    obtain rs s2 where p: "publish_push env b ?s = Some (Some (if fits then Some wake else None), s2)"
      and s2: "shm_holds s2 (?h\<lparr>header_state := rs\<rparr>) (if fits then ps @ qs else ps)"
      and c2: "calls s2 = calls s @ lock_calls env"
      using publish_push_holds [OF s1(1) b room', of env]
      unfolding fits_def wake_def same s1(2) count_dropped_data by blast
    let ?s3 = "if fits then if wake then wake_worker env s2 else s2 else count_dropped (batch_records b) s2"
    have pub: "publish env b k s = Some (if qs = [] \<or> fits then Queued else Dropped, ?s3)"
      using ne p False by (simp add: publish_def publish_finish_def)
    have len: "batch_records b = length qs" using b by (simp add: batch_rep_def)
    show ?thesis
    proof (cases fits)
      case True
      then show ?thesis
        using pub s2 c2 False wake_worker_holds [of s2 "?h\<lparr>header_state := rs\<rparr>" "ps @ qs" env]
        by (intro exI [of _ ?s3] exI [of _ "?h\<lparr>header_state := rs\<rparr>"]) auto
    next
      case nofit: False
      then show ?thesis
        using pub s2 c2 False count_dropped_holds [of s2 "?h\<lparr>header_state := rs\<rparr>" ps "length qs"] len
        by (intro exI [of _ ?s3]
              exI [of _ "?h\<lparr>header_state := rs, dropped_spans := dropped_spans ?h + word_of_nat (length qs)\<rparr>"])
           (auto simp: add.assoc)
    qed
  qed
qed

lemma drain_holds:
  assumes s: "shm_holds s h ps"
  defines "k \<equiv> (\<lambda>m. drain_take m 0 0 ps)"
  shows "\<exists>rs s'. shared_drain_into env out m s = Some (Inr (k m), out @ stream (take (k m) ps), s') \<and>
    shm_holds s' (h\<lparr>header_state := rs\<rparr>) (drop (k m) ps)"
proof -
  let ?r = "shm_ring h (shm_data s)"
  have rep: "ring_rep ?r ps" using s by (simp add: shm_holds_def)
  obtain r' where r': "drain_into ?r out m = Some (Inr (k m), out @ stream (take (k m) ps), r')"
    "ring_rep r' (drop (k m) ps)" "capacity r' = capacity ?r"
    using drain_into_rep [OF rep, where max_bytes = m and out = out] by (auto simp: k_def)
  let ?f = "\<lambda>r. map_option (\<lambda>(n, out', r'). ((n, out'), r')) (drain_into r out m)"
  have f: "?f ?r = Some ((Inr (k m), out @ stream (take (k m) ps)), r')" using r'(1) by simp
  show ?thesis
    using with_ring_holds [where f = ?f, OF s f r'(2,3), of env]
    by (auto simp: shared_drain_into_def)
qed

section \<open>Any contents of shared memory\<close>

definition shm_any :: "shm \<Rightarrow> bool" where
  "shm_any s \<longleftrightarrow>
     (case shm_hdr s of
        None \<Rightarrow> True
      | Some h \<Rightarrow> unat (header_capacity h) = length (shm_data s) \<and> slice_sized (shm_data s))"

lemma shm_holds_any: "shm_holds s h ps \<Longrightarrow> shm_any s"
  by (auto simp: shm_holds_def shm_any_def ring_rep_def ring_wf_def shm_ring_def)

lemma count_dropped_any [simp]: "shm_any (count_dropped n s) = shm_any s"
  by (simp add: shm_any_def count_dropped_def split: option.split)

lemma wake_worker_memory [simp]:
  "shm_hdr (wake_worker env s) = shm_hdr s" "shm_data (wake_worker env s) = shm_data s"
  by (simp_all add: wake_worker_def Let_def split: option.split)

lemma wake_worker_any [simp]: "shm_any (wake_worker env s) = shm_any s"
  by (simp add: shm_any_def split: option.split)

text \<open>Publishing comes back whatever the memory holds.\<close>

lemma publish_any:
  assumes "shm_any s"
  shows "\<exists>res s'. publish env b k s = Some (res, s') \<and> shm_any s'"
proof -
  let ?s = "count_dropped k s"
  obtain res s1 where s1: "publish_push env b ?s = Some (res, s1)" "shm_any s1"
  proof (cases "shm_hdr ?s")
    case None
    then show ?thesis using assms by (intro that [of None ?s]) (simp_all add: publish_push_def with_ring_def)
  next
    case (Some h)
    show ?thesis
    proof (cases "shm_lock ?s")
      case False
      then show ?thesis using assms Some by (intro that [of None ?s]) (simp_all add: publish_push_def with_ring_def lock_acquire_def)
    next
      case True
      let ?r = "shm_ring h (shm_data s)"
      have any: "unat (header_capacity h) = length (shm_data s)" "slice_sized (shm_data s)"
        using assms Some count_dropped_any [of k s] by (simp_all add: shm_any_def)
      then have data: "rdata ?r = shm_data s" by (simp add: shm_ring_def)
      obtain pres r' where p: "push_batch ?r b = Some (pres, r')" "capacity r' = capacity ?r"
        using push_batch_total [of ?r b] any(2) data by auto
      obtain x where x: "push_measured b ?r = Some (x, r')" using p(1) by (simp add: push_measured_def Let_def)
      have "publish_push env b ?s = Some (Some x, lock_drop env (put_ring r' h (call LWLockAcquireQueue ?s)))"
        using Some True x by (simp add: publish_push_def with_ring_def lock_acquire_def)
      moreover have "shm_any (lock_drop env (put_ring r' h (call LWLockAcquireQueue ?s)))"
        using any p(2) data by (simp add: shm_any_def put_ring_def capacity_def slice_sized_def)
      ultimately show ?thesis by (rule that)
    qed
  qed
  obtain pub s2 where f: "publish_finish env b res s1 = (pub, s2)" by fastforce
  then have "shm_any s2" using s1(2) by (auto simp: publish_finish_def split: option.splits if_splits)
  then show ?thesis using assms s1(1) f by (simp add: publish_def Let_def)
qed

text \<open>The position behind the queued bytes: their total so far, unless an inconsistent ring was reset.\<close>

definition shm_tail :: "shm \<Rightarrow> nat" where
  "shm_tail s = (case shm_hdr s of None \<Rightarrow> 0 | Some h \<Rightarrow> unat (tail (header_state h)))"

lemma shm_tail_simps [simp]:
  "shm_tail (call c s) = shm_tail s" "shm_tail (lock_drop env s) = shm_tail s" "shm_tail (count_dropped n s) = shm_tail s"
  "shm_tail (wake_worker env s) = shm_tail s"
  by (simp_all add: shm_tail_def count_dropped_def split: option.split)

lemma with_ring_tail:
  assumes "with_ring env f s = Some (x, s')"
    and "\<And>r y r'. f r = Some (y, r') \<Longrightarrow> unat (tail (rstate r')) \<le> unat (tail (rstate r)) + n"
  shows "shm_tail s' \<le> shm_tail s + n"
proof (cases "shm_hdr s = None \<or> \<not> shm_lock s")
  case True
  then have "s' = s" using assms(1) by (auto simp: with_ring_def lock_acquire_def split: option.splits)
  then show ?thesis by simp
next
  case False
  then obtain h where h: "shm_hdr s = Some h" by auto
  let ?r = "shm_ring h (shm_data s)"
  obtain y r' where f: "f ?r = Some (y, r')" and s': "s' = lock_drop env (put_ring r' h (call LWLockAcquireQueue s))"
    using assms(1) False h by (auto simp: with_ring_def lock_acquire_def)
  have "shm_tail s' = unat (tail (rstate r'))" unfolding s' by (simp add: shm_tail_def put_ring_def)
  moreover have "shm_tail s = unat (tail (rstate ?r))" by (simp add: shm_tail_def h shm_ring_def)
  ultimately show ?thesis using assms(2) [OF f] by simp
qed

lemma push_batch_tail: "push_batch r b = Some (y, r') \<Longrightarrow> unat (tail (rstate r')) \<le> unat (tail (rstate r)) + length (batch_bytes b)"
proof -
  have w: "unat (t + word_of_nat n) \<le> unat t + n" for t :: u64 and n
    by (simp add: unat_word_ariths unat_of_nat mod_simps)
  show "push_batch r b = Some (y, r') \<Longrightarrow> unat (tail (rstate r')) \<le> unat (tail (rstate r)) + length (batch_bytes b)"
    using w [of "tail (rstate r)" "length (batch_bytes b)"] w [of 0 "length (batch_bytes b)"]
    by (auto simp: push_batch_def Let_def reset_def ring_state_new_def split: if_splits)
qed

lemma drain_into_tail: "drain_into r out m = Some (y, out', r') \<Longrightarrow> unat (tail (rstate r')) \<le> unat (tail (rstate r))"
  by (auto simp: drain_into_def reset_def ring_state_new_def split: if_splits option.splits sum.splits)

lemma publish_tail:
  assumes "publish env b k s = Some (res, s')"
  shows "shm_tail s' \<le> shm_tail s + length (batch_bytes b)"
proof (cases "batch_is_empty b")
  case True
  then show ?thesis using assms by (auto simp: publish_def Let_def)
next
  case False
  then obtain x s1 where p: "publish_push env b (count_dropped k s) = Some (x, s1)" and f: "publish_finish env b x s1 = (res, s')"
    using assms by (auto simp: publish_def Let_def)
  have "shm_tail s1 \<le> shm_tail (count_dropped k s) + length (batch_bytes b)"
    using p unfolding publish_push_def
    by (rule with_ring_tail) (auto simp: push_measured_def Let_def dest: push_batch_tail)
  moreover have "shm_tail s' = shm_tail s1" using f by (auto simp: publish_finish_def split: option.splits if_splits)
  ultimately show ?thesis by simp
qed

lemma shared_drain_tail: "shared_drain_into env out m s = Some (res, out', s') \<Longrightarrow> shm_tail s' \<le> shm_tail s"
proof -
  assume "shared_drain_into env out m s = Some (res, out', s')"
  then obtain x where "with_ring env (\<lambda>r. map_option (\<lambda>(n, out', r'). ((n, out'), r')) (drain_into r out m)) s = Some (x, s')"
    by (auto simp: shared_drain_into_def split: option.splits)
  from with_ring_tail [OF this, of 0] show ?thesis by (auto dest: drain_into_tail)
qed

section \<open>A channel that counts its losses\<close>

text \<open>
  A FIFO channel that may refuse a load, with a 64-bit counter that accounts for every item the
  consumer will never see: the items of refused loads, and those a producer gave up on before.
\<close>

fun offered :: "('b \<Rightarrow> 'p list) \<Rightarrow> ('b \<Rightarrow> nat) \<Rightarrow> 'b channel_event list \<Rightarrow> nat" where
  "offered load skip [] = 0"
| "offered load skip (Put b # es) = length (load b) + skip b + offered load skip es"
| "offered load skip (Take n # es) = offered load skip es"

locale counted_channel = fifo_channel inv items put load adm tak
  for inv :: "'s \<Rightarrow> bool" and items :: "'s \<Rightarrow> 'p list" and put :: "'s \<Rightarrow> 'b \<Rightarrow> bool \<times> 's"
    and load :: "'b \<Rightarrow> 'p list" and adm :: "'s \<Rightarrow> 'b \<Rightarrow> bool" and tak :: "'s \<Rightarrow> nat \<Rightarrow> 'p list \<times> 's" +
  fixes skip :: "'b \<Rightarrow> nat" and lost :: "'s \<Rightarrow> u64"
  assumes put_lost: "inv s \<Longrightarrow> adm s b \<Longrightarrow>
      lost (snd (put s b)) = lost s + word_of_nat (skip b + (if fst (put s b) then 0 else length (load b)))"
    and take_lost: "inv s \<Longrightarrow> lost (snd (tak s n)) = lost s"
begin

text \<open>Queued + lost + offered before = delivered + queued + lost after, modulo \<open>2^64\<close>.\<close>

lemma run_conserves:
  assumes "inv s" and "channel_admissible put tak adm s es"
    and "channel_run put load tak s es = (acc, del, s')"
  shows "lost s + word_of_nat (length (items s) + offered load skip es) =
    lost s' + word_of_nat (length del + length (items s'))"
  using assms
proof (induction es arbitrary: s acc del)
  case Nil
  then show ?case by simp
next
  case (Cons e es)
  show ?case
  proof (cases e)
    case (Put b)
    obtain acc' where r: "channel_run put load tak (snd (put s b)) es = (acc', del, s')"
      using Cons.prems(3) Put by (auto simp: Let_def split: prod.splits if_splits)
    have a: "adm s b" "channel_admissible put tak adm (snd (put s b)) es"
      using Cons.prems(2) Put by simp_all
    have "lost (snd (put s b)) + word_of_nat (length (items (snd (put s b))) + offered load skip es) =
        lost s' + word_of_nat (length del + length (items s'))"
      using Cons.IH [OF _ a(2) r] put_inv [OF Cons.prems(1) a(1)] by blast
    moreover have "lost (snd (put s b)) + word_of_nat (length (items (snd (put s b))) + offered load skip es) =
        lost s + word_of_nat (length (items s) + offered load skip (e # es))"
      using put_items [OF Cons.prems(1) a(1)] put_lost [OF Cons.prems(1) a(1)] Put
      by (simp add: algebra_simps)
    ultimately show ?thesis by simp
  next
    case (Take n)
    obtain del' where r: "channel_run put load tak (snd (tak s n)) es = (acc, del', s')"
      and del: "del = fst (tak s n) @ del'"
      using Cons.prems(3) Take by (auto simp: Let_def split: prod.splits)
    have a: "channel_admissible put tak adm (snd (tak s n)) es" using Cons.prems(2) Take by simp
    have "lost (snd (tak s n)) + word_of_nat (length (items (snd (tak s n))) + offered load skip es) =
        lost s' + word_of_nat (length del' + length (items s'))"
      using Cons.IH [OF _ a r] take_inv [OF Cons.prems(1)] by blast
    then have "lost s + word_of_nat (length (items (snd (tak s n))) + offered load skip es) =
        lost s' + word_of_nat (length del' + length (items s'))"
      by (simp only: take_lost [OF Cons.prems(1)])
    moreover have "length (items s) = length (fst (tak s n)) + length (items (snd (tak s n)))"
      using arg_cong [OF take_items [OF Cons.prems(1), of n], of length] by simp
    ultimately show ?thesis using del Take by (simp add: algebra_simps)
  qed
qed

end

section \<open>The queue in shared memory is such a channel\<close>

definition shm_inv :: "shm \<Rightarrow> bool" where
  "shm_inv s \<longleftrightarrow> (\<exists>h ps. shm_holds s h ps)"

definition shm_items :: "shm \<Rightarrow> bytes list" where
  "shm_items s = (case shm_hdr s of None \<Rightarrow> [] | Some h \<Rightarrow> ring_items (shm_ring h (shm_data s)))"

definition shm_put :: "pg_env \<Rightarrow> shm \<Rightarrow> batch \<times> nat \<Rightarrow> bool \<times> shm" where
  "shm_put env s bk =
     (case publish env (fst bk) (snd bk) s of
        Some (Queued, s') \<Rightarrow> (True, s')
      | Some (Dropped, s') \<Rightarrow> (False, s')
      | None \<Rightarrow> (False, s))"

definition shm_take :: "pg_env \<Rightarrow> shm \<Rightarrow> nat \<Rightarrow> bytes list \<times> shm" where
  "shm_take env s m =
     (case shared_drain_into env [] m s of
        Some (Inr _, out, s') \<Rightarrow> (payloads out, s')
      | Some (Inl _, _, s') \<Rightarrow> ([], s')
      | None \<Rightarrow> ([], s))"

definition shm_admissible :: "shm \<Rightarrow> batch \<times> nat \<Rightarrow> bool" where
  "shm_admissible s bk \<longleftrightarrow>
     batch_rep (fst bk) (batch_items (fst bk)) \<and>
     (case shm_hdr s of None \<Rightarrow> False | Some h \<Rightarrow> publish_room h (fst bk))"

lemma shm_holds_items: "shm_holds s h ps \<Longrightarrow> shm_inv s \<and> shm_items s = ps"
  using ring_rep_inv [of "shm_ring h (shm_data s)" ps]
  by (auto simp: shm_inv_def shm_items_def shm_holds_def)

lemma shm_inv_holds: "shm_inv s \<Longrightarrow> \<exists>h. shm_holds s h (shm_items s)"
  using shm_holds_items by (auto simp: shm_inv_def)

lemma shm_put_holds:
  assumes "shm_inv s" and "shm_admissible s bk"
  shows "shm_inv (snd (shm_put env s bk)) \<and>
    shm_items (snd (shm_put env s bk)) =
      (if fst (shm_put env s bk) then shm_items s @ batch_items (fst bk) else shm_items s) \<and>
    dropped_spans_total (snd (shm_put env s bk)) = dropped_spans_total s +
      word_of_nat (snd bk + (if fst (shm_put env s bk) then 0 else length (batch_items (fst bk))))"
proof -
  obtain b k where bk: "bk = (b, k)" by (cases bk)
  obtain h where h: "shm_holds s h (shm_items s)" using shm_inv_holds [OF assms(1)] by blast
  then have hdr: "shm_hdr s = Some h" by (simp add: shm_holds_def)
  have b: "batch_rep b (batch_items b)" and room: "publish_room h b"
    using assms(2) hdr by (simp_all add: shm_admissible_def bk)
  have empty: "batch_items b = [] \<Longrightarrow> length (batch_bytes b) \<le> header_free s"
    using b by (simp add: batch_rep_def)
  let ?fits = "length (batch_bytes b) \<le> header_free s"
  obtain s' h' where s': "publish env b k s = Some (if batch_items b = [] \<or> ?fits then Queued else Dropped, s')"
    "shm_holds s' h' (if ?fits then shm_items s @ batch_items b else shm_items s)"
    "dropped_spans h' = dropped_spans h + word_of_nat (k + (if ?fits then 0 else length (batch_items b)))"
    using publish_holds [OF h b room, of env k] by blast
  have total: "dropped_spans_total s' = dropped_spans h'" "dropped_spans_total s = dropped_spans h"
    using s'(2) hdr by (simp_all add: dropped_spans_total_def shm_holds_def)
  have put: "shm_put env s bk = (?fits, s')" using s'(1) empty by (auto simp: shm_put_def bk)
  show ?thesis
    using shm_holds_items [OF s'(2)] s'(3) total unfolding put by (simp add: bk)
qed

lemma shm_take_holds:
  assumes "shm_inv s"
  defines "k \<equiv> (\<lambda>m. drain_take m 0 0 (shm_items s))"
  shows "fst (shm_take env s m) = take (k m) (shm_items s) \<and> shm_inv (snd (shm_take env s m)) \<and>
    shm_items (snd (shm_take env s m)) = drop (k m) (shm_items s) \<and>
    dropped_spans_total (snd (shm_take env s m)) = dropped_spans_total s"
proof -
  obtain h where h: "shm_holds s h (shm_items s)" using shm_inv_holds [OF assms(1)] by blast
  obtain rs s' where s': "shared_drain_into env [] m s = Some (Inr (k m), stream (take (k m) (shm_items s)), s')"
    "shm_holds s' (h\<lparr>header_state := rs\<rparr>) (drop (k m) (shm_items s))"
    using drain_holds [OF h, of env "[]" m] by (auto simp: k_def)
  have "list_all payload_ok (take (k m) (shm_items s))"
    using h by (auto simp: shm_holds_def ring_rep_def list_all_iff dest: in_set_takeD)
  then have "shm_take env s m = (take (k m) (shm_items s), s')"
    using s'(1) by (simp add: shm_take_def payloads_stream)
  moreover have "dropped_spans_total s' = dropped_spans_total s"
    using s'(2) h by (simp add: dropped_spans_total_def shm_holds_def)
  ultimately show ?thesis using shm_holds_items [OF s'(2)] by simp
qed

interpretation shm_chan: counted_channel
  shm_inv shm_items "shm_put env" "\<lambda>bk. batch_items (fst bk)" shm_admissible "shm_take env" snd dropped_spans_total
  for env
proof unfold_locales
  fix s bk n
  show "shm_inv s \<Longrightarrow> shm_items s = fst (shm_take env s n) @ shm_items (snd (shm_take env s n))"
    by (simp only: shm_take_holds append_take_drop_id)
  show "shm_inv s \<Longrightarrow> shm_items s \<noteq> [] \<Longrightarrow> fst (shm_take env s n) \<noteq> []"
    using drain_take_progress [of "shm_items s" n 0] by (simp add: shm_take_holds)
qed (simp_all add: shm_put_holds shm_take_holds)

section \<open>Properties\<close>

text \<open>
  C15 (functional). \<open>publish\<close> of a batch of encoded spans on a queue that was set up. The batch is
  queued whole behind what is queued, or dropped whole when it does not fit; the counter grows by
  exactly the spans that are lost either way. An empty batch does not take the lock; otherwise the
  lock is taken once, and the worker's latch is set, after the lock was released, iff the batch was
  queued on an empty queue or filled it to half, and a worker is registered.
\<close>

theorem publish_accounts:
  assumes "shm_holds s h ps" and "batch_rep b qs" and "publish_room h b" and "holdoff_count env > 0"
  shows "\<exists>s' h'. publish env b skipped s =
      Some (if qs = [] \<or> length (batch_bytes b) \<le> header_free s then Queued else Dropped, s') \<and>
    shm_holds s' h' (if length (batch_bytes b) \<le> header_free s then ps @ qs else ps) \<and>
    dropped_spans h' = dropped_spans h +
      word_of_nat (skipped + (if length (batch_bytes b) \<le> header_free s then 0 else length qs)) \<and>
    calls s' = calls s @ (if qs = [] then [] else [LWLockAcquireQueue, LWLockReleaseQueue] @
      (if length (batch_bytes b) \<le> header_free s \<and>
          should_wake (header_used s) (header_used s + length (batch_bytes b)) (length (shm_data s))
       then wake_calls env (worker_proc_number h) else []))"
proof -
  have "lock_calls env = [LWLockAcquireQueue, LWLockReleaseQueue]" using assms(4) by (simp add: lock_calls_def)
  with publish_holds [OF assms(1-3), of env skipped] show ?thesis by (simp only:) blast
qed

definition demo_env :: pg_env where
  "demo_env = \<lparr>my_proc_number = 7, all_proc_count = Some 100, holdoff_count = 1\<rparr>"

definition demo_shm :: shm where
  "demo_shm = \<lparr>shm_hdr = Some \<lparr>header_state = ring_state_new, header_capacity = 10,
      worker_proc_number = 7, dropped_spans = 3\<rparr>,
    shm_data = replicate 10 0, shm_lock = True, calls = []\<rparr>"

lemma demo_shm_holds: "shm_holds demo_shm (the (shm_hdr demo_shm)) []"
  by code_simp

theorem publish_accounts_witness:
  "\<exists>s' h'. publish demo_env (demo_batch [1, 2]) 4 demo_shm = Some (Queued, s') \<and>
     shm_holds s' h' [[1, 2]] \<and> dropped_spans h' = 7 \<and>
     calls s' = [LWLockAcquireQueue, LWLockReleaseQueue, SetLatch 7]"
proof -
  have b: "batch_rep (demo_batch [1, 2]) [[1, 2]]" by code_simp
  have room: "publish_room (the (shm_hdr demo_shm)) (demo_batch [1, 2])" by code_simp
  have env: "holdoff_count demo_env > 0" by (simp add: demo_env_def)
  have len: "length (batch_bytes (demo_batch [1, 2])) = 6" "header_free demo_shm = 10" "header_used demo_shm = 0"
    "calls demo_shm = []"
    by code_simp+
  have wake: "wake_calls demo_env (worker_proc_number (the (shm_hdr demo_shm))) = [SetLatch 7]"
    "dropped_spans (the (shm_hdr demo_shm)) = 3"
    by code_simp+
  from publish_accounts [OF demo_shm_holds b room env, of 4] show ?thesis
    by (simp add: len wake should_wake_def)
qed

text \<open>
  C16 (invariant). No span disappears unnoticed. Over any sequence of publishes and drains: what was
  accepted is what was delivered followed by what is queued, in order; and the number of spans
  queued and counted as dropped before, plus those offered, is the number delivered, queued and
  counted as dropped after (modulo \<open>2^64\<close>, the width of the counter).
\<close>

theorem no_span_unaccounted:
  assumes "shm_inv s" and "channel_admissible (shm_put env) (shm_take env) shm_admissible s es"
    and "channel_run (shm_put env) (\<lambda>bk. batch_items (fst bk)) (shm_take env) s es = (accepted, delivered, s')"
  shows "shm_inv s' \<and> shm_items s @ accepted = delivered @ shm_items s' \<and>
    dropped_spans_total s + word_of_nat (length (shm_items s) + offered (\<lambda>bk. batch_items (fst bk)) snd es) =
    dropped_spans_total s' + word_of_nat (length delivered + length (shm_items s'))"
  using shm_chan.run_fifo [OF assms] shm_chan.run_conserves [OF assms] by blast

definition demo_publishes :: "(batch \<times> nat) channel_event list" where
  "demo_publishes = [Put (demo_batch [1, 2], 0), Put (demo_batch [3, 3, 3], 2), Take 100, Put (demo_batch [4], 0)]"

theorem no_span_unaccounted_witness:
  "\<exists>acc del s'. channel_run (shm_put demo_env) (\<lambda>bk. batch_items (fst bk)) (shm_take demo_env) demo_shm
       demo_publishes = (acc, del, s') \<and> shm_inv s' \<and> acc = del @ shm_items s' \<and>
     6 + word_of_nat 2 = dropped_spans_total s' + word_of_nat (length acc)"
proof -
  let ?run = "channel_run (shm_put demo_env) (\<lambda>bk. batch_items (fst bk)) (shm_take demo_env) demo_shm demo_publishes"
  obtain acc del s' where run: "?run = (acc, del, s')" by (cases ?run) blast
  have inv: "shm_inv demo_shm" "shm_items demo_shm = []" using shm_holds_items [OF demo_shm_holds] by simp_all
  have adm: "channel_admissible (shm_put demo_env) (shm_take demo_env) shm_admissible demo_shm demo_publishes"
    by code_simp
  have off: "offered (\<lambda>bk. batch_items (fst bk)) snd demo_publishes = 5" "dropped_spans_total demo_shm = 3"
    by code_simp+
  from no_span_unaccounted [OF inv(1) adm run] off inv(2) run show ?thesis by auto
qed

text \<open>
  C17 (functional). Set-up. For a non-negative \<open>queue_size_kb\<close> the first process to run the startup
  hook gets an empty queue of exactly that many kilobytes, no worker and no drops, in a block of the
  size that the request hook asked for; a later process attaches to the queue it finds and changes
  nothing in it.
\<close>

theorem queue_set_up:
  assumes "0 \<le> sint kb" and "length area = shared_memory_size kb - HEADER_BYTES"
    and "shm_holds s0 h0 ps"
  shows "(\<exists>s h. on_shmem_startup prev kb None area True (on_shmem_request prev' kb shm_null) = Some s \<and>
      shm_holds s h [] \<and> header_free s = nat (sint kb) * 1024 \<and>
      HEADER_BYTES + length (shm_data s) = shared_memory_size kb \<and>
      RequestAddinShmemSpace (shared_memory_size kb) \<in> set (calls s) \<and>
      worker_proc_number h = NO_WORKER \<and> dropped_spans h = 0) \<and>
    (\<exists>s. on_shmem_startup prev kb (Some h0) (shm_data s0) True shm_null = Some s \<and> shm_holds s h0 ps)"
proof
  have "sint kb < 2 ^ 31" using sint_lt [of kb] by simp
  then have "nat (sint kb) < 2 ^ 31" using assms(1) by (simp add: nat_less_iff)
  then have kb: "nat (sint kb) * 1024 < 2 ^ 63" by simp
  then have len: "length area = nat (sint kb) * 1024"
    using assms(1,2) by (simp add: shared_memory_size_def)
  let ?h = "\<lparr>header_state = ring_state_new, header_capacity = word_of_nat (length area),
      worker_proc_number = NO_WORKER, dropped_spans = 0\<rparr>"
  let ?r = "\<lparr>rstate = ring_state_new, rdata = area\<rparr>"
  have "length area < 2 ^ 63" using kb len by simp
  then have cap: "unat (header_capacity ?h) = length area" by (simp add: unat_of_nat)
  have rep: "ring_rep ?r []" using kb len by (intro ring_new_rep) (simp add: slice_sized_def)
  have fr: "free ?r = length area"
    by (simp add: free_def capacity_def used_def is_consistent_def ring_state_new_def)
  obtain s where s: "on_shmem_startup prev kb None area True (on_shmem_request prev' kb shm_null) = Some s"
    "shm_hdr s = Some ?h" "shm_data s = area" "shm_lock s"
    "RequestAddinShmemSpace (shared_memory_size kb) \<in> set (calls s)"
    using assms(2)
    by (auto simp: on_shmem_startup_def init_shared_header_def on_shmem_request_def Let_def call_def)
  moreover have "shm_holds s ?h []"
    using s cap rep by (simp add: shm_holds_def shm_ring_def)
  moreover have "header_free s = nat (sint kb) * 1024"
    using s cap fr len by (simp add: header_free_def shm_ring_def)
  ultimately show "\<exists>s h. on_shmem_startup prev kb None area True (on_shmem_request prev' kb shm_null) = Some s \<and>
      shm_holds s h [] \<and> header_free s = nat (sint kb) * 1024 \<and>
      HEADER_BYTES + length (shm_data s) = shared_memory_size kb \<and>
      RequestAddinShmemSpace (shared_memory_size kb) \<in> set (calls s) \<and>
      worker_proc_number h = NO_WORKER \<and> dropped_spans h = 0"
    using assms(2) by (intro exI [of _ s] exI [of _ ?h]) (simp add: shared_memory_size_def)
next
  show "\<exists>s. on_shmem_startup prev kb (Some h0) (shm_data s0) True shm_null = Some s \<and> shm_holds s h0 ps"
    using assms(3)
    by (auto simp: on_shmem_startup_def init_shared_header_def Let_def shm_holds_def call_def)
qed

theorem queue_set_up_witness:
  "\<exists>s h. on_shmem_startup True 64 None (replicate 65536 255) True (on_shmem_request True 64 shm_null) = Some s \<and>
     shm_holds s h [] \<and> header_free s = 65536"
proof -
  have kb: "0 \<le> sint (64 :: i32)" "nat (sint (64 :: i32)) = 64" by simp_all
  have area: "length (replicate 65536 (255 :: byte)) = shared_memory_size 64 - HEADER_BYTES"
    by (simp add: shared_memory_size_def)
  from queue_set_up [OF kb(1) area demo_shm_holds, of True True] kb(2) show ?thesis by auto
qed

end
