(* ===== verification/Collect.thy ===== *)
theory Collect
  imports Plan_Spans Shared
begin

text \<open>
  Collecting the spans of a finished statement (\<open>src/postgres.rs\<close>): when a statement is traced, the
  collection of its spans, the containment of its failures and the publication.

  The backend's state is the descriptor of the statement (null is \<open>None\<close>), shared memory, the message
  levels, the random generator, the current memory context, the flag that a failure was logged and the
  log. Inputs are in \<open>world\<close>: the settings, the clock, the version layer, the catalogs, Postgres' text
  functions and the opentelemetry crate. Which of Postgres' functions raises an error, and in which
  memory context, is the parameter \<open>wd_raises\<close>; the outer \<open>None\<close> of a result stands for a call that
  does not come back, which needs a generator that runs dry or an \<open>InstrEndLoop\<close> against its contract.
  The capture and fault-injection modules are compiled for tests only; in a release they do nothing.
\<close>

section \<open>Which statements are traced\<close>

definition tracing_enabled :: "i32 \<Rightarrow> i32 \<Rightarrow> bool" where
  "tracing_enabled min_duration_ms parallel_worker_number \<longleftrightarrow>
     0 \<le> sint min_duration_ms \<and> sint parallel_worker_number < 0"

definition EXEC_FLAG_EXPLAIN_ONLY :: i32 where
  "EXEC_FLAG_EXPLAIN_ONLY = 1"

definition is_explain_only :: "i32 \<Rightarrow> bool" where
  "is_explain_only eflags \<longleftrightarrow> and eflags EXEC_FLAG_EXPLAIN_ONLY \<noteq> 0"

text \<open>The product in \<open>i64\<close>.\<close>

definition meets_slow_query_threshold :: "i64 \<Rightarrow> i32 \<Rightarrow> bool" where
  "meets_slow_query_threshold duration_ns min_duration_ms \<longleftrightarrow>
     0 \<le> sint min_duration_ms \<and> sint ((word_of_int (sint min_duration_ms) :: i64) * 1000000) \<le> sint duration_ns"

section \<open>State and inputs\<close>

record report =
  er_sqlerrcode :: str
  er_message :: str

datatype caught = PostgresError report | ErrorReport report | RustPanic report

definition caught_report :: "caught \<Rightarrow> report" where
  "caught_report e = (case e of PostgresError r \<Rightarrow> r | ErrorReport r \<Rightarrow> r | RustPanic r \<Rightarrow> r)"

definition ERRCODE_QUERY_CANCELED :: str where
  "ERRCODE_QUERY_CANCELED = lit ''57014''"

text \<open>The panic of slicing a string off a character boundary; pgrx reports panics as internal errors.\<close>

definition slice_panic :: caught where
  "slice_panic = RustPanic \<lparr>er_sqlerrcode = lit ''XX000'', er_message = lit ''byte index is not a char boundary''\<rparr>"

datatype log_line = LogConfig config_log | LogFailure str | DebugFailure str

text \<open>The places where the collection calls functions of Postgres that may raise an error.\<close>

datatype place = AtQueryTime | AtParent | AtPlan | AtQuerySpan

record ('i, 'q) world =
  wd_compat :: "('i, 'q) compat"
  wd_catalog :: catalog
  wd_text :: pg_text
  wd_otel :: otel
  wd_gucs :: gucs
  wd_env :: pg_env
  wd_parallel_worker_number :: i32
  wd_now :: system_time
  wd_raises :: "place \<Rightarrow> (caught \<times> nat) option"

record ('i, 'q) backend =
  bk_desc :: "('i, 'q) query_desc option"
  bk_shm :: shm
  bk_levels :: levels
  bk_rng :: rng
  bk_context :: nat
  bk_failure_logged :: bool
  bk_log :: "log_line list"

definition tracing_enabled_here :: "('i, 'q) world \<Rightarrow> bool" where
  "tracing_enabled_here w \<longleftrightarrow> tracing_enabled (get_min_duration_ms (wd_gucs w)) (wd_parallel_worker_number w)"

text \<open>\<open>wants_instrumentation\<close>; whether the descriptor is null is the first argument.\<close>

definition wants_instrumentation :: "('i, 'q) world \<Rightarrow> bool \<Rightarrow> i32 \<Rightarrow> bool" where
  "wants_instrumentation w is_null eflags \<longleftrightarrow> \<not> is_null \<and> \<not> is_explain_only eflags \<and> tracing_enabled_here w"

text \<open>The request on the version's own request state, null as \<open>None\<close>.\<close>

definition request_instrumentation :: "('i, 'q) world \<Rightarrow> ('r \<Rightarrow> 'r) \<Rightarrow> i32 \<Rightarrow> 'r option \<Rightarrow> 'r option" where
  "request_instrumentation w before_start eflags q =
     (if wants_instrumentation w (q = None) eflags then map_option before_start q else q)"

definition complete_instrumentation_request :: "('i, 'q) world \<Rightarrow> ('r \<Rightarrow> 'r) \<Rightarrow> i32 \<Rightarrow> 'r option \<Rightarrow> 'r option" where
  "complete_instrumentation_request w after_start eflags q =
     (if wants_instrumentation w (q = None) eflags then map_option after_start q else q)"

section \<open>Collecting\<close>

definition publish_spans :: "pg_env \<Rightarrow> span_record list \<Rightarrow> shm \<Rightarrow> shm option" where
  "publish_spans env spans s =
     (case encode_batch spans of (batch, skipped) \<Rightarrow> map_option snd (publish env batch skipped s))"

text \<open>Calling Postgres at a place: the error and the context that it leaves, or go on.\<close>

definition calling ::
    "('i, 'q) world \<Rightarrow> place \<Rightarrow> ('i, 'q) backend \<Rightarrow> ((caught + unit) \<times> ('i, 'q) backend) option \<Rightarrow>
     ((caught + unit) \<times> ('i, 'q) backend) option" where
  "calling w p b rest =
     (case wd_raises w p of Some (e, cxt) \<Rightarrow> Some (Inl e, b\<lparr>bk_context := cxt\<rparr>) | None \<Rightarrow> rest)"

text \<open>The spans of the statement below \<open>parent\<close>, and their publication.\<close>

definition collect_and_publish ::
    "('i, 'q) world \<Rightarrow> ('i, 'q) query_desc \<Rightarrow> i64 \<Rightarrow> parent_context \<Rightarrow> ('i, 'q) backend \<Rightarrow>
     ((caught + unit) \<times> ('i, 'q) backend) option" where
  "collect_and_publish w q total_ns parent b =
     (let wall_start = wd_now w - int (unat total_ns) in
      case random_span_id (bk_rng b) of
        None \<Rightarrow> None
      | Some (query_span_id, r) \<Rightarrow>
          let b = b\<lparr>bk_rng := r\<rparr>;
              query_link = \<lparr>ln_trace_id = pc_trace_id parent, ln_span_id = query_span_id,
                            ln_end_time = after_ns wall_start total_ns\<rparr>
          in calling w AtPlan b
              (case collect_plan_spans (wd_compat w) (wd_catalog w) (qd_planstate q) wall_start query_link
                      (get_max_plan_spans (wd_gucs w)) r of
                 None \<Rightarrow> None
               | Some (plan, r) \<Rightarrow>
                   let b = b\<lparr>bk_rng := r\<rparr> in
                   calling w AtQuerySpan b
                    (case from_query (wd_compat w) (wd_text w) q wall_start parent (get_query_text_mode (wd_gucs w))
                            query_span_id (psn_tables plan) (psn_omitted plan) (bk_levels b) of
                       None \<Rightarrow> None
                     | Some (None, q, l) \<Rightarrow> Some (Inr (), b\<lparr>bk_desc := Some q, bk_levels := l\<rparr>)
                     | Some (Some query_span, q, l) \<Rightarrow>
                         map_option (\<lambda>s. (Inr (), b\<lparr>bk_desc := Some q, bk_levels := l, bk_shm := s\<rparr>))
                           (publish_spans (wd_env w) (psn_spans plan @ [query_span]) (bk_shm b)))))"

definition collect_spans_unguarded ::
    "('i, 'q) world \<Rightarrow> ('i, 'q) backend \<Rightarrow> ((caught + unit) \<times> ('i, 'q) backend) option" where
  "collect_spans_unguarded w b =
     (case bk_desc b of
        None \<Rightarrow> Some (Inr (), b)
      | Some q \<Rightarrow>
          if \<not> tracing_enabled_here w then Some (Inr (), b)
          else if (case qd_top_eflags q of Some flags \<Rightarrow> is_explain_only flags | None \<Rightarrow> False) then Some (Inr (), b)
          else calling w AtQueryTime b
             (case co_query_total_ns (wd_compat w) (qd_timer q) of
                None \<Rightarrow> None
              | Some (None, timer) \<Rightarrow> Some (Inr (), b\<lparr>bk_desc := Some (q\<lparr>qd_timer := timer\<rparr>)\<rparr>)
              | Some (Some total_ns, timer) \<Rightarrow>
                  let q = q\<lparr>qd_timer := timer\<rparr>; b = b\<lparr>bk_desc := Some q\<rparr> in
                  if \<not> meets_slow_query_threshold total_ns (get_min_duration_ms (wd_gucs w)) then Some (Inr (), b)
                  else
                    case get_otlp_traceparent (wd_gucs w) of
                      (msgs, guc_traceparent) \<Rightarrow>
                        let b = b\<lparr>bk_log := bk_log b @ map LogConfig msgs\<rparr> in
                        calling w AtParent b
                         (case decide_parent (wd_otel w) guc_traceparent (pg_str (qd_source_text q)) (bk_rng b) of
                            None \<Rightarrow> Some (Inl slice_panic, b)
                          | Some None \<Rightarrow> None
                          | Some (Some (Skip, r)) \<Rightarrow> Some (Inr (), b\<lparr>bk_rng := r\<rparr>)
                          | Some (Some (Trace parent, r)) \<Rightarrow>
                              collect_and_publish w q total_ns parent (b\<lparr>bk_rng := r\<rparr>))))"

section \<open>Containing failures\<close>

definition report_collection_failure :: "caught \<Rightarrow> ('i, 'q) backend \<Rightarrow> ('i, 'q) backend" where
  "report_collection_failure e b =
     (let message = er_message (caught_report e) in
      b\<lparr>bk_failure_logged := True,
        bk_log := bk_log b @ [if bk_failure_logged b then DebugFailure message else LogFailure message]\<rparr>)"

text \<open>\<open>Inl e\<close>: the error \<open>e\<close> is raised again, past the restoring of the memory context.\<close>

definition collect_spans :: "('i, 'q) world \<Rightarrow> ('i, 'q) backend \<Rightarrow> ((caught + unit) \<times> ('i, 'q) backend) option" where
  "collect_spans w b =
     (let saved_context = bk_context b in
      case collect_spans_unguarded w b of
        None \<Rightarrow> None
      | Some (Inr (), b) \<Rightarrow> Some (Inr (), b\<lparr>bk_context := saved_context\<rparr>)
      | Some (Inl e, b) \<Rightarrow>
          if er_sqlerrcode (caught_report e) = ERRCODE_QUERY_CANCELED then Some (Inl e, b)
          else Some (Inr (), (report_collection_failure e b)\<lparr>bk_context := saved_context\<rparr>))"

section \<open>What a collection does\<close>

text \<open>What every collection that does not publish leaves alone, and the log lines it may add.\<close>

definition quiet :: "('i, 'q) backend \<Rightarrow> ('i, 'q) backend \<Rightarrow> bool" where
  "quiet b b' \<longleftrightarrow>
     bk_levels b' = bk_levels b \<and> bk_failure_logged b' = bk_failure_logged b \<and>
     (\<exists>msgs. bk_log b' = bk_log b @ map LogConfig msgs)"

lemma quiet_refl: "quiet b b"
  by (auto simp: quiet_def intro: exI [of _ "[]"])

lemma quiet_trans: "quiet a b \<Longrightarrow> quiet b c \<Longrightarrow> quiet a c"
  unfolding quiet_def by (metis append_assoc map_append)

lemma quiet_updates [simp]:
  "quiet b (b'\<lparr>bk_desc := d\<rparr>) = quiet b b'" "quiet b (b'\<lparr>bk_shm := s\<rparr>) = quiet b b'"
  "quiet b (b'\<lparr>bk_rng := r\<rparr>) = quiet b b'" "quiet b (b'\<lparr>bk_context := c\<rparr>) = quiet b b'"
  "quiet b (b\<lparr>bk_log := bk_log b @ map LogConfig msgs\<rparr>)"
  by (auto simp: quiet_def)

lemma calling_cases:
  assumes "calling w p b rest = Some res"
  obtains (raised) e cxt where "wd_raises w p = Some (e, cxt)" and "res = (Inl e, b\<lparr>bk_context := cxt\<rparr>)"
  | (called) "wd_raises w p = None" and "rest = Some res"
  using assms by (auto simp: calling_def split: option.splits)

text \<open>Normalized or not, the message levels are what they were.\<close>

lemma from_query_levels: "from_query co pg q t p m i ts k l = Some (s, q', l') \<Longrightarrow> l' = l"
  by (auto simp: from_query_def exported_query_text_and_id_def sanitize_is_full Let_def split: option.splits)

text \<open>A statement that is published: what was measured, decided and collected.\<close>

definition published_statement ::
    "('i, 'q) world \<Rightarrow> ('i, 'q) query_desc \<Rightarrow> i64 \<Rightarrow> parent_context \<Rightarrow> rng \<Rightarrow> span_record list \<Rightarrow> span_record \<Rightarrow> bool" where
  "published_statement w q total_ns parent r spans s \<longleftrightarrow>
     (\<exists>i r1 plan r2 q' l l'.
        random_span_id r = Some (i, r1) \<and>
        collect_plan_spans (wd_compat w) (wd_catalog w) (qd_planstate q) (wd_now w - int (unat total_ns))
          \<lparr>ln_trace_id = pc_trace_id parent, ln_span_id = i, ln_end_time = wd_now w\<rparr>
          (get_max_plan_spans (wd_gucs w)) r1 = Some (plan, r2) \<and>
        from_query (wd_compat w) (wd_text w) q (wd_now w - int (unat total_ns)) parent (get_query_text_mode (wd_gucs w))
          i (psn_tables plan) (psn_omitted plan) l = Some (Some s, q', l') \<and>
        spans = psn_spans plan)"

lemma collect_and_publish_cases:
  assumes "collect_and_publish w q total_ns parent b = Some (res, b')"
  obtains (quiet) "res = Inr ()" and "quiet b b'" and "bk_shm b' = bk_shm b" and "bk_context b' = bk_context b"
  | (failed) e p cxt where "res = Inl e" and "wd_raises w p = Some (e, cxt)" and "quiet b b'" and "bk_shm b' = bk_shm b"
  | (published) spans s where "res = Inr ()" and "quiet b b'" and "published_statement w q total_ns parent (bk_rng b) spans s"
    and "publish_spans (wd_env w) (spans @ [s]) (bk_shm b) = Some (bk_shm b')" and "bk_context b' = bk_context b"
proof -
  let ?wall = "wd_now w - int (unat total_ns)"
  have link: "after_ns ?wall total_ns = wd_now w" by (simp add: after_ns_def)
  obtain i r1 where i: "random_span_id (bk_rng b) = Some (i, r1)"
    using assms by (auto simp: collect_and_publish_def Let_def split: option.splits)
  let ?q = "\<lparr>ln_trace_id = pc_trace_id parent, ln_span_id = i, ln_end_time = wd_now w\<rparr>"
  let ?collect = "collect_plan_spans (wd_compat w) (wd_catalog w) (qd_planstate q) ?wall ?q (get_max_plan_spans (wd_gucs w)) r1"
  let ?from = "\<lambda>plan b. from_query (wd_compat w) (wd_text w) q ?wall parent (get_query_text_mode (wd_gucs w)) i
    (psn_tables plan) (psn_omitted plan) (bk_levels b)"
  have "calling w AtPlan (b\<lparr>bk_rng := r1\<rparr>)
      (case ?collect of None \<Rightarrow> None
       | Some (plan, r) \<Rightarrow>
           calling w AtQuerySpan (b\<lparr>bk_rng := r\<rparr>)
             (case ?from plan b of
                None \<Rightarrow> None
              | Some (None, q, l) \<Rightarrow> Some (Inr (), b\<lparr>bk_rng := r, bk_desc := Some q, bk_levels := l\<rparr>)
              | Some (Some s, q, l) \<Rightarrow>
                  map_option (\<lambda>sh. (Inr (), b\<lparr>bk_rng := r, bk_desc := Some q, bk_levels := l, bk_shm := sh\<rparr>))
                    (publish_spans (wd_env w) (psn_spans plan @ [s]) (bk_shm b)))) = Some (res, b')"
    using assms unfolding collect_and_publish_def Let_def i link
    by (simp cong: option.case_cong prod.case_cong)
  then show ?thesis
  proof (cases rule: calling_cases)
    case (raised e cxt)
    then show ?thesis by (intro failed [of e AtPlan cxt]) (simp_all add: quiet_refl)
  next
    case called
    then obtain plan r2 where plan: "?collect = Some (plan, r2)" by (auto split: option.splits)
    from called(2) [unfolded plan, simplified] show ?thesis
    proof (cases rule: calling_cases)
      case (raised e cxt)
      then show ?thesis by (intro failed [of e AtQuerySpan cxt]) (simp_all add: quiet_refl)
    next
      case called
      then obtain so q' l' where f: "?from plan b = Some (so, q', l')" by (auto split: option.splits)
      then have l': "l' = bk_levels b" by (rule from_query_levels)
      have upd: "quiet b (b\<lparr>bk_rng := r2, bk_desc := Some q', bk_levels := bk_levels b\<rparr>)" by (simp add: quiet_def exI [of _ "[]"])
      show ?thesis
      proof (cases so)
        case None
        then show ?thesis using called(2) f l' upd by (intro quiet) auto
      next
        case (Some s)
        have "published_statement w q total_ns parent (bk_rng b) (psn_spans plan) s"
          unfolding published_statement_def using i plan f Some by blast
        then show ?thesis using called(2) f l' upd Some by (intro published [of "psn_spans plan" s]) auto
      qed
    qed
  qed
qed

lemma no_slice_panic: "decide_parent ot g (pg_str src) r \<noteq> None"
proof -
  have "\<exists>cs. block_comments t = Some cs" if "pg_str src = Some t" for t
    using block_comments_matching [OF pg_str_valid [OF that]] by blast
  then show ?thesis by (fastforce simp: decide_parent_def traceparent_from_comments_def split: option.splits)
qed

lemma collect_spans_unguarded_cases:
  assumes "collect_spans_unguarded w b = Some (res, b')"
  obtains (quiet) "res = Inr ()" and "quiet b b'" and "bk_shm b' = bk_shm b" and "bk_context b' = bk_context b"
  | (failed) e p cxt where "res = Inl e" and "wd_raises w p = Some (e, cxt)" and "quiet b b'" and "bk_shm b' = bk_shm b"
  | (published) q total_ns timer msgs guc parent r spans s where "res = Inr ()" and "quiet b b'" and "bk_desc b = Some q"
    and "tracing_enabled_here w" and "\<not> (\<exists>flags. qd_top_eflags q = Some flags \<and> is_explain_only flags)"
    and "co_query_total_ns (wd_compat w) (qd_timer q) = Some (Some total_ns, timer)"
    and "meets_slow_query_threshold total_ns (get_min_duration_ms (wd_gucs w))"
    and "get_otlp_traceparent (wd_gucs w) = (msgs, guc)"
    and "decide_parent (wd_otel w) guc (pg_str (qd_source_text q)) (bk_rng b) = Some (Some (Trace parent, r))"
    and "published_statement w (q\<lparr>qd_timer := timer\<rparr>) total_ns parent r spans s"
    and "publish_spans (wd_env w) (spans @ [s]) (bk_shm b) = Some (bk_shm b')" and "bk_context b' = bk_context b"
proof (cases "\<exists>q. bk_desc b = Some q \<and> tracing_enabled_here w \<and>
    \<not> (\<exists>flags. qd_top_eflags q = Some flags \<and> is_explain_only flags)")
  case False
  then have "res = Inr () \<and> b' = b"
    using assms by (auto simp: collect_spans_unguarded_def split: option.splits if_splits)
  then show ?thesis by (intro quiet) (simp_all add: quiet_refl)
next
  case True
  then obtain q where q: "bk_desc b = Some q" "tracing_enabled_here w"
    "\<not> (\<exists>flags. qd_top_eflags q = Some flags \<and> is_explain_only flags)" by blast
  then have ex: "\<not> (case qd_top_eflags q of Some flags \<Rightarrow> is_explain_only flags | None \<Rightarrow> False)"
    by (auto split: option.splits)
  note u = assms [unfolded collect_spans_unguarded_def q(1) option.case if_not_P [OF ex] if_not_P [OF not_not [THEN iffD2, OF q(2)]]]
  from u show ?thesis
  proof (cases rule: calling_cases)
    case (raised e cxt)
    then show ?thesis by (intro failed [of e AtQueryTime cxt]) (simp_all add: quiet_refl)
  next
    case called
    show ?thesis
    proof (cases "\<exists>total_ns timer. co_query_total_ns (wd_compat w) (qd_timer q) = Some (Some total_ns, timer) \<and>
        meets_slow_query_threshold total_ns (get_min_duration_ms (wd_gucs w))")
      case False
      then have "res = Inr () \<and> (\<exists>d. b' = b\<lparr>bk_desc := d\<rparr>)"
        using called(2) by (auto simp: Let_def split: option.splits if_splits)
      then show ?thesis by (intro quiet) (auto simp: quiet_refl)
    next
      case True
      then obtain total_ns timer where t: "co_query_total_ns (wd_compat w) (qd_timer q) = Some (Some total_ns, timer)"
        "meets_slow_query_threshold total_ns (get_min_duration_ms (wd_gucs w))" by blast
      obtain msgs guc where g: "get_otlp_traceparent (wd_gucs w) = (msgs, guc)" by fastforce
      let ?b = "b\<lparr>bk_desc := Some (q\<lparr>qd_timer := timer\<rparr>), bk_log := bk_log b @ map LogConfig msgs\<rparr>"
      have mid: "quiet b (?b\<lparr>bk_rng := r\<rparr>)" for r by (auto simp: quiet_def)
      have trans: "quiet b b'" if "quiet (?b\<lparr>bk_rng := r\<rparr>) b'" for r
        using mid that by (rule quiet_trans)
      have "calling w AtParent ?b
          (case decide_parent (wd_otel w) guc (pg_str (qd_source_text q)) (bk_rng b) of
             None \<Rightarrow> Some (Inl slice_panic, ?b)
           | Some None \<Rightarrow> None
           | Some (Some (Skip, r)) \<Rightarrow> Some (Inr (), ?b\<lparr>bk_rng := r\<rparr>)
           | Some (Some (Trace parent, r)) \<Rightarrow> collect_and_publish w (q\<lparr>qd_timer := timer\<rparr>) total_ns parent (?b\<lparr>bk_rng := r\<rparr>)) =
          Some (res, b')"
        using called(2) by (simp add: t g Let_def cong: option.case_cong prod.case_cong trace_decision.case_cong)
      then show ?thesis
      proof (cases rule: calling_cases)
        case (raised e cxt)
        then show ?thesis by (intro failed [of e AtParent cxt]) (auto simp: quiet_def)
      next
        case called
        then obtain d r where d: "decide_parent (wd_otel w) guc (pg_str (qd_source_text q)) (bk_rng b) = Some (Some (d, r))"
          using no_slice_panic [of "wd_otel w" guc "qd_source_text q" "bk_rng b"] by (auto split: option.splits)
        show ?thesis
        proof (cases d)
          case Skip
          then show ?thesis using called(2) d by (intro quiet) (auto simp: quiet_def)
        next
          case (Trace parent)
          then have "collect_and_publish w (q\<lparr>qd_timer := timer\<rparr>) total_ns parent (?b\<lparr>bk_rng := r\<rparr>) = Some (res, b')"
            using called(2) d by simp
          then show ?thesis
          proof (cases rule: collect_and_publish_cases)
            case quiet
            then show ?thesis using that(1) trans by simp
          next
            case (failed e p cxt)
            then show ?thesis using that(2) trans by simp
          next
            case (published spans s)
            then show ?thesis using that(3) [OF _ _ q t g] d Trace trans by simp
          qed
        qed
      qed
    qed
  qed
qed

lemma threshold_iff:
  "meets_slow_query_threshold duration_ns min_duration_ms \<longleftrightarrow>
     0 \<le> sint min_duration_ms \<and> sint min_duration_ms * 1000000 \<le> sint duration_ns"
proof (cases "0 \<le> sint min_duration_ms")
  case True
  have b: "sint min_duration_ms < 2 ^ 31" using sint_less [of min_duration_ms] by simp
  have "sint (saturate_i64 (sint min_duration_ms * 1000000)) = sint min_duration_ms * 1000000"
    using True b by (intro saturate_in_range) (simp_all add: i64_min_def i64_max_def)
  moreover have "max i64_min (min i64_max (sint min_duration_ms * 1000000)) = sint min_duration_ms * 1000000"
    using True b by (simp add: i64_min_def i64_max_def)
  moreover have "(word_of_int (sint min_duration_ms) :: i64) * 1000000 = word_of_int (sint min_duration_ms * 1000000)"
    by simp
  ultimately show ?thesis using True by (simp only: meets_slow_query_threshold_def saturate_i64_def)
qed (simp add: meets_slow_query_threshold_def)

lemma collect_spans_returned:
  "collect_spans_unguarded w b = Some (Inr u, b') \<Longrightarrow> collect_spans w b = Some (Inr (), b'\<lparr>bk_context := bk_context b\<rparr>)"
  by (simp add: collect_spans_def Let_def split: unit.splits)

text \<open>The lines that announce a failure at the level \<open>LOG\<close>.\<close>

definition log_failures :: "log_line list \<Rightarrow> str list" where
  "log_failures ls = concat (map (\<lambda>l. case l of LogFailure m \<Rightarrow> [m] | _ \<Rightarrow> []) ls)"

lemma log_failures_simps [simp]:
  "log_failures [] = []" "log_failures (LogFailure m # ls) = m # log_failures ls"
  "log_failures (DebugFailure m # ls) = log_failures ls" "log_failures (xs @ ys) = log_failures xs @ log_failures ys"
  "log_failures (map LogConfig ms) = []"
  by (simp_all add: log_failures_def o_def)

lemma collect_spans_contained:
  assumes "collect_spans w b = Some (res, b')"
  shows "(case res of
      Inl e \<Rightarrow> er_sqlerrcode (caught_report e) = ERRCODE_QUERY_CANCELED \<and> (\<exists>p cxt. wd_raises w p = Some (e, cxt)) \<and>
        bk_shm b' = bk_shm b
    | Inr _ \<Rightarrow> bk_context b' = bk_context b) \<and>
    bk_levels b' = bk_levels b \<and>
    (\<exists>new. bk_log b' = bk_log b @ new \<and>
      length (log_failures new) = (if bk_failure_logged b' \<and> \<not> bk_failure_logged b then 1 else 0)) \<and>
    (bk_failure_logged b \<longrightarrow> bk_failure_logged b') \<and>
    (bk_failure_logged b \<noteq> bk_failure_logged b' \<longrightarrow> bk_shm b' = bk_shm b)"
proof -
  obtain u b1 where u: "collect_spans_unguarded w b = Some (u, b1)"
    using assms by (auto simp: collect_spans_def Let_def split: option.splits)
  from u show ?thesis
  proof (cases rule: collect_spans_unguarded_cases)
    case (failed e p cxt)
    obtain msgs where q: "bk_levels b1 = bk_levels b" "bk_failure_logged b1 = bk_failure_logged b"
      "bk_log b1 = bk_log b @ map LogConfig msgs" using failed(3) by (auto simp: quiet_def)
    show ?thesis
    proof (cases "er_sqlerrcode (caught_report e) = ERRCODE_QUERY_CANCELED")
      case True
      then have "res = Inl e" "b' = b1" using assms u failed(1) by (simp_all add: collect_spans_def Let_def)
      moreover have "\<exists>p cxt. wd_raises w p = Some (e, cxt)" using failed(2) by blast
      ultimately show ?thesis using True q failed(4) by (simp add: exI [of _ "map LogConfig msgs"])
    next
      case False
      then have "res = Inr ()" "b' = (report_collection_failure e b1)\<lparr>bk_context := bk_context b\<rparr>"
        using assms u failed(1) by (simp_all add: collect_spans_def Let_def)
      then show ?thesis using q failed(4) by (simp add: report_collection_failure_def Let_def)
    qed
  next
    case quiet
    with collect_spans_returned u assms have "res = Inr ()" "b' = b1\<lparr>bk_context := bk_context b\<rparr>" by force+
    then show ?thesis using quiet(2,3) by (auto simp: quiet_def)
  next
    case published
    from collect_spans_returned u assms published(1) have "res = Inr ()" "b' = b1\<lparr>bk_context := bk_context b\<rparr>" by force+
    then show ?thesis using published(2) by (auto simp: quiet_def)
  qed
qed

section \<open>Whole statements\<close>

text \<open>The statement whose descriptor is \<open>q\<close> is traced: it took \<open>total_ns\<close> and is a child of \<open>parent\<close>.\<close>

definition traced :: "('i, 'q) world \<Rightarrow> ('i, 'q) backend \<Rightarrow> ('i, 'q) query_desc \<Rightarrow> i64 \<Rightarrow> parent_context \<Rightarrow> rng \<Rightarrow> bool" where
  "traced w b q total_ns parent r \<longleftrightarrow>
     bk_desc b = Some q \<and> tracing_enabled (MIN_DURATION_MS (wd_gucs w)) (wd_parallel_worker_number w) \<and>
     \<not> (\<exists>flags. qd_top_eflags q = Some flags \<and> is_explain_only flags) \<and>
     (\<exists>timer. co_query_total_ns (wd_compat w) (qd_timer q) = Some (Some total_ns, timer)) \<and>
     sint (MIN_DURATION_MS (wd_gucs w)) * 1000000 \<le> sint total_ns \<and>
     decide_parent (wd_otel w) (snd (get_otlp_traceparent (wd_gucs w))) (pg_str (qd_source_text q)) (bk_rng b) =
       Some (Some (Trace parent, r))"

text \<open>The spans of a statement: its own \<open>s\<close> and, below it, those of its plan.\<close>

definition statement_spans :: "('i, 'q) world \<Rightarrow> i64 \<Rightarrow> parent_context \<Rightarrow> span_record list \<Rightarrow> span_record \<Rightarrow> bool" where
  "statement_spans w total_ns parent spans s \<longleftrightarrow>
     sp_trace_id s = pc_trace_id parent \<and> sp_parent_id s = pc_span_id parent \<and> sp_span_id s \<noteq> SPAN_ID_INVALID \<and>
     sp_start_time s = wd_now w - int (unat total_ns) \<and> sp_end_time s = wd_now w \<and>
     (\<exists>a. sp_attributes s = Query a \<and> exec_total_time_ns a = total_ns \<and> parent_is_remote a = pc_is_remote parent) \<and>
     (\<forall>k < length spans. plan_span_ok (span_link_of s) (sp_start_time s) (take k spans) (spans ! k)) \<and>
     length spans \<le> get_max_plan_spans (wd_gucs w)"

lemma traced_threshold:
  "tracing_enabled m n \<Longrightarrow> meets_slow_query_threshold t m \<longleftrightarrow> sint m * 1000000 \<le> sint t"
  by (simp add: tracing_enabled_def threshold_iff)

lemma published_statement_spans:
  assumes layer: "version_layer (wd_compat w)"
    and t: "co_query_total_ns (wd_compat w) (qd_timer q) = Some (Some total_ns, timer)"
    and p: "published_statement w (q\<lparr>qd_timer := timer\<rparr>) total_ns parent r spans s"
  shows "statement_spans w total_ns parent spans s"
proof -
  let ?wall = "wd_now w - int (unat total_ns)"
  obtain i r1 plan r2 q' l l' where i: "random_span_id r = Some (i, r1)"
    and c: "collect_plan_spans (wd_compat w) (wd_catalog w) (qd_planstate (q\<lparr>qd_timer := timer\<rparr>)) ?wall
      \<lparr>ln_trace_id = pc_trace_id parent, ln_span_id = i, ln_end_time = wd_now w\<rparr> (get_max_plan_spans (wd_gucs w)) r1 = Some (plan, r2)"
    and f: "from_query (wd_compat w) (wd_text w) (q\<lparr>qd_timer := timer\<rparr>) ?wall parent (get_query_text_mode (wd_gucs w))
      i (psn_tables plan) (psn_omitted plan) l = Some (Some s, q', l')" and spans: "spans = psn_spans plan"
    using p unfolding published_statement_def by blast
  have again: "co_query_total_ns (wd_compat w) timer = Some (Some total_ns, timer)"
    using version_layer.query_time [OF layer t] by simp
  obtain u j where s: "s = \<lparr>sp_trace_id = pc_trace_id parent, sp_span_id = i, sp_parent_id = pc_span_id parent,
      sp_name = truncate_utf8 (query_name (qd_operation q) @ lit '' '' @ join_comma (psn_tables plan)) NAME_MAX_LEN,
      sp_start_time = ?wall, sp_end_time = after_ns ?wall total_ns,
      sp_attributes = Query \<lparr>parent_is_remote = pc_is_remote parent, operation = query_name (qd_operation q),
        query_text = u, query_id = j, exec_total_time_ns = total_ns, plan_spans_omitted = word_of_nat (psn_omitted plan)\<rparr>\<rparr>"
    using f again by (elim from_query_Some) auto
  have link: "span_link_of s = \<lparr>ln_trace_id = pc_trace_id parent, ln_span_id = i, ln_end_time = wd_now w\<rparr>"
    by (simp add: s span_link_of_def after_ns_def)
  have "spans_inv (plan_span_ok (span_link_of s) ?wall) (plan, r2)" unfolding link
    by (rule collect_plan_spans_inv [OF c]) (erule (1) from_plan_span_ok, simp_all)
  with collect_plan_spans_limit [OF c] random_span_id_valid [OF i] show ?thesis
    by (simp add: statement_spans_def s spans after_ns_def spans_inv_def)
qed

lemma from_query_total:
  assumes "version_layer co" and "co_query_total_ns co (qd_timer q) = Some (Some n, timer)"
  shows "\<exists>s. from_query co pg (q\<lparr>qd_timer := timer\<rparr>) t parent mode i ts k l = Some (Some s, q\<lparr>qd_timer := timer\<rparr>, l)"
proof -
  have "co_query_total_ns co timer = Some (Some n, timer)" using version_layer.query_time [OF assms] by simp
  then show ?thesis
    by (cases mode) (simp_all add: from_query_def exported_query_text_and_id_def normalize_for_def sanitize_is_full Let_def
        split: option.splits)
qed

lemma batch_length:
  assumes "batch_rep b ps"
  shows "length (batch_bytes b) \<le> length ps * 65540"
proof -
  have "length (stream ps) \<le> length ps * 65540" if "list_all payload_ok ps"
    using that by (induction ps) (auto simp: LEN_PREFIX_BYTES_def payload_ok_def MAX_RECORD_BYTES_def)
  with assms show ?thesis by (simp add: batch_rep_def)
qed

text \<open>Publishing well-typed spans on a queue that is set up.\<close>

lemma publish_spans_holds:
  assumes shm: "shm_holds s h ps" and typed: "list_all span_typed spans" and few: "length spans \<le> 100001"
    and tail: "unat (tail (header_state h)) < 2 ^ 63" and env: "0 < holdoff_count env"
  defines "qs \<equiv> map span_bytes (filter span_fits spans)"
  shows "\<exists>s' h'. publish_spans env spans s = Some s' \<and>
    shm_holds s' h' (if length (stream qs) \<le> header_free s then ps @ qs else ps) \<and>
    dropped_spans h' = dropped_spans h +
      word_of_nat (length (filter (\<lambda>s. \<not> span_fits s) spans) + (if length (stream qs) \<le> header_free s then 0 else length qs))"
proof -
  obtain b where b: "encode_batch spans = (b, length (filter (\<lambda>s. \<not> span_fits s) spans))" "batch_rep b qs"
    using encode_batch_rep [OF typed] unfolding qs_def by blast
  have "length qs \<le> length spans" by (simp add: qs_def length_filter_le)
  then have "length (batch_bytes b) \<le> 100001 * 65540"
    using batch_length [OF b(2)] few by (meson le_trans mult_le_mono1)
  then have "publish_room h b" using tail by (simp add: publish_room_def)
  from publish_holds [OF shm b(2) this, of env "length (filter (\<lambda>s. \<not> span_fits s) spans)"] b show ?thesis
    by (auto simp: publish_spans_def batch_rep_def)
qed

lemma collect_spans_traced:
  assumes traced: "traced w b q total_ns parent r"
    and t: "co_query_total_ns (wd_compat w) (qd_timer q) = Some (Some total_ns, timer)"
    and quiet: "\<forall>p. wd_raises w p = None"
    and i: "random_span_id r = Some (i, r1)"
    and c: "collect_plan_spans (wd_compat w) (wd_catalog w) (qd_planstate q) (wd_now w - int (unat total_ns))
      \<lparr>ln_trace_id = pc_trace_id parent, ln_span_id = i, ln_end_time = wd_now w\<rparr> (get_max_plan_spans (wd_gucs w)) r1 = Some (plan, r2)"
    and f: "from_query (wd_compat w) (wd_text w) (q\<lparr>qd_timer := timer\<rparr>) (wd_now w - int (unat total_ns)) parent
      (get_query_text_mode (wd_gucs w)) i (psn_tables plan) (psn_omitted plan) (bk_levels b) = Some (Some s, q', l)"
    and p: "publish_spans (wd_env w) (psn_spans plan @ [s]) (bk_shm b) = Some sh"
  shows "\<exists>b'. collect_spans w b = Some (Inr (), b') \<and> bk_shm b' = sh"
proof -
  obtain msgs guc where g: "get_otlp_traceparent (wd_gucs w) = (msgs, guc)" by fastforce
  have on: "bk_desc b = Some q" "tracing_enabled_here w"
    "\<not> (case qd_top_eflags q of Some flags \<Rightarrow> is_explain_only flags | None \<Rightarrow> False)"
    "meets_slow_query_threshold total_ns (get_min_duration_ms (wd_gucs w))"
    "decide_parent (wd_otel w) guc (pg_str (qd_source_text q)) (bk_rng b) = Some (Some (Trace parent, r))"
    using traced traced_threshold [of "MIN_DURATION_MS (wd_gucs w)" "wd_parallel_worker_number w" total_ns] g
    by (auto simp: traced_def tracing_enabled_here_def get_min_duration_ms_def split: option.splits)
  have go: "calling w x y rest = rest" for x y and rest using quiet by (simp add: calling_def)
  define wall where "wall = wd_now w - int (unat total_ns)"
  have link: "after_ns wall total_ns = wd_now w" by (simp add: after_ns_def wall_def)
  note c = c [folded wall_def] and f = f [folded wall_def]
  have "collect_and_publish w (q\<lparr>qd_timer := timer\<rparr>) total_ns parent y = Some (Inr (), y\<lparr>bk_rng := r2, bk_desc := Some q', bk_levels := l, bk_shm := sh\<rparr>)"
    if "bk_rng y = r" "bk_levels y = bk_levels b" "bk_shm y = bk_shm b" for y
    using that unfolding collect_and_publish_def Let_def go wall_def [symmetric] link by (simp add: i c f p)
  then have "\<exists>b'. collect_spans_unguarded w b = Some (Inr (), b') \<and> bk_shm b' = sh"
    unfolding collect_spans_unguarded_def go Let_def by (simp add: on(1,2,4,5) if_not_P [OF on(3)] t g)
  then show ?thesis using collect_spans_returned by fastforce
qed

lemma traced_statement:
  assumes layer: "version_layer (wd_compat w)" and traced: "traced w b q total_ns parent r"
    and quiet: "\<forall>p. wd_raises w p = None" and gucs: "gucs_ok (wd_gucs w)"
    and ids: "length (pc_trace_id parent) = 16" "length (pc_span_id parent) = 8"
    and nodes: "\<forall>(e, n) \<in> set (shown_nodes (wd_compat w) (qd_planstate q)). si_plan (ps_info n) \<noteq> None \<and>
      str_ok (si_type_name (ps_info n)) \<and> pred_option str_ok (Option.bind e ed_subplan_name)"
    and left: "get_max_plan_spans (wd_gucs w) < span_ids_left r"
    and shm: "shm_holds (bk_shm b) h ps" "unat (tail (header_state h)) < 2 ^ 63" "0 < holdoff_count (wd_env w)"
  shows "\<exists>b' h' spans s qs. collect_spans w b = Some (Inr (), b') \<and> statement_spans w total_ns parent spans s \<and>
    length spans = min (get_max_plan_spans (wd_gucs w)) (length (shown_nodes (wd_compat w) (qd_planstate q))) \<and>
    qs = map span_bytes (filter span_fits (spans @ [s])) \<and>
    shm_holds (bk_shm b') h' (if length (stream qs) \<le> header_free (bk_shm b) then ps @ qs else ps) \<and>
    dropped_spans h' = dropped_spans h +
      word_of_nat (length spans + 1 - (if length (stream qs) \<le> header_free (bk_shm b) then length qs else 0))"
proof -
  obtain timer where t: "co_query_total_ns (wd_compat w) (qd_timer q) = Some (Some total_ns, timer)"
    using traced by (auto simp: traced_def)
  let ?wall = "wd_now w - int (unat total_ns)" and ?q = "q\<lparr>qd_timer := timer\<rparr>" and ?max = "get_max_plan_spans (wd_gucs w)"
  let ?nodes = "shown_nodes (wd_compat w) (qd_planstate q)"
  obtain i r1 where i: "random_span_id r = Some (i, r1)" "span_ids_left r = span_ids_left r1 + 1"
    using left random_span_id_total [of r] by auto
  let ?link = "\<lparr>ln_trace_id = pc_trace_id parent, ln_span_id = i, ln_end_time = wd_now w\<rparr>"
  have "?max \<le> span_ids_left r1" using left i(2) by simp
  then obtain plan r2 where c: "collect_plan_spans (wd_compat w) (wd_catalog w) (qd_planstate q) ?wall ?link ?max r1 = Some (plan, r2)"
    and n: "length (psn_spans plan) = min ?max (length ?nodes)"
    using collect_plan_spans_complete [OF layer, of "qd_planstate q" ?max r1 "wd_catalog w" ?wall ?link] nodes by blast
  obtain s where f: "from_query (wd_compat w) (wd_text w) ?q ?wall parent (get_query_text_mode (wd_gucs w)) i
      (psn_tables plan) (psn_omitted plan) (bk_levels b) = Some (Some s, ?q, bk_levels b)"
    using from_query_total [OF layer t] by blast
  have p: "published_statement w ?q total_ns parent r (psn_spans plan) s"
    unfolding published_statement_def using i(1) c f by auto
  have "list_all span_typed (psn_spans plan @ [s])"
  proof (rule spans_typed [OF c])
    show "from_query (wd_compat w) (wd_text w) ?q ?wall parent (get_query_text_mode (wd_gucs w)) (ln_span_id ?link)
      (psn_tables plan) (psn_omitted plan) (bk_levels b) = Some (Some s, ?q, bk_levels b)" using f by simp
  qed (use ids nodes random_span_id_valid [OF i(1)] in auto)
  moreover have "?max \<le> 100000" using gucs_ranges(6,7) [OF gucs] by (simp add: get_max_plan_spans_def)
  then have "length (psn_spans plan @ [s]) \<le> 100001" using n by simp
  moreover define qs where "qs = map span_bytes (filter span_fits (psn_spans plan @ [s]))"
  moreover define fits where "fits = (length (stream qs) \<le> header_free (bk_shm b))"
  ultimately obtain sh h' where sh: "publish_spans (wd_env w) (psn_spans plan @ [s]) (bk_shm b) = Some sh"
    and h': "shm_holds sh h' (if fits then ps @ qs else ps)"
      "dropped_spans h' = dropped_spans h +
        word_of_nat (length (filter (\<lambda>s. \<not> span_fits s) (psn_spans plan @ [s])) + (if fits then 0 else length qs))"
    using publish_spans_holds [OF shm(1) _ _ shm(2,3)] by blast
  have "length (filter (\<lambda>s. \<not> span_fits s) (psn_spans plan @ [s])) + (if fits then 0 else length qs) =
      length (psn_spans plan) + 1 - (if fits then length qs else 0)"
    using sum_length_filter_compl [of span_fits "psn_spans plan @ [s]"] unfolding qs_def length_map length_append by auto
  note drops = h'(2) [unfolded this]
  obtain b' where b': "collect_spans w b = Some (Inr (), b')" "bk_shm b' = sh"
    using collect_spans_traced [OF traced t quiet i(1) c f sh] by blast
  have "statement_spans w total_ns parent (psn_spans plan) s" using layer t p by (rule published_statement_spans)
  with b'(1) n h'(1) drops show ?thesis unfolding fits_def b'(2) [symmetric] using qs_def by blast
qed

text \<open>Such a statement is never passed over in silence: shared memory shows it.\<close>

lemma traced_publishes:
  assumes layer: "version_layer (wd_compat w)" and traced: "traced w b q total_ns parent r"
    and quiet: "\<forall>p. wd_raises w p = None" and gucs: "gucs_ok (wd_gucs w)"
    and ids: "length (pc_trace_id parent) = 16" "length (pc_span_id parent) = 8"
    and nodes: "\<forall>(e, n) \<in> set (shown_nodes (wd_compat w) (qd_planstate q)). si_plan (ps_info n) \<noteq> None \<and>
      str_ok (si_type_name (ps_info n)) \<and> pred_option str_ok (Option.bind e ed_subplan_name)"
    and left: "get_max_plan_spans (wd_gucs w) < span_ids_left r"
    and shm: "shm_holds (bk_shm b) h ps" "unat (tail (header_state h)) < 2 ^ 63" "0 < holdoff_count (wd_env w)"
  shows "\<exists>b'. collect_spans w b = Some (Inr (), b') \<and> bk_shm b' \<noteq> bk_shm b"
proof -
  let ?fits = "\<lambda>qs. length (stream qs) \<le> header_free (bk_shm b)"
  obtain b' h' spans s qs where b': "collect_spans w b = Some (Inr (), b')"
    and n: "length spans = min (get_max_plan_spans (wd_gucs w)) (length (shown_nodes (wd_compat w) (qd_planstate q)))"
    and qs: "qs = map span_bytes (filter span_fits (spans @ [s]))"
    and h': "shm_holds (bk_shm b') h' (if ?fits qs then ps @ qs else ps)"
    and d: "dropped_spans h' = dropped_spans h + word_of_nat (length spans + 1 - (if ?fits qs then length qs else 0))"
    using traced_statement [OF assms] by blast
  have max: "get_max_plan_spans (wd_gucs w) \<le> 100000" using gucs_ranges(6,7) [OF gucs] by (simp add: get_max_plan_spans_def)
  have "bk_shm b' \<noteq> bk_shm b"
  proof
    assume same: "bk_shm b' = bk_shm b"
    let ?k = "length spans + 1 - (if ?fits qs then length qs else 0)"
    have "h' = h" using h' shm(1) same by (simp add: shm_holds_def)
    then have "word_of_nat ?k = (0 :: u64)" using d by simp
    moreover have "?k < 100002" using n max by simp
    ultimately have k: "?k = 0" by (auto simp: word_of_nat_eq_0_iff dest: dvd_imp_le)
    have "(if ?fits qs then ps @ qs else ps) = ps"
      using shm_holds_items [OF h'] shm_holds_items [OF shm(1)] same by simp
    then show False using k by (auto split: if_splits)
  qed
  with b' show ?thesis by blast
qed

section \<open>A statement to evaluate\<close>

definition demo_world :: "(place \<Rightarrow> (caught \<times> nat) option) \<Rightarrow> (node_instrumentation, i64) world" where
  "demo_world raises =
     \<lparr>wd_compat = demo_compat, wd_catalog = demo_catalog, wd_text = demo_pg, wd_otel = demo_otel,
      wd_gucs = demo_gucs\<lparr>MIN_DURATION_MS := 0, MAX_PLAN_SPANS := 2\<rparr>, wd_env = demo_env,
      wd_parallel_worker_number = - 1, wd_now = 1050, wd_raises = raises\<rparr>"

definition demo_backend :: "(node_instrumentation, i64) backend" where
  "demo_backend =
     \<lparr>bk_desc = Some demo_desc, bk_shm = demo_shm, bk_levels = demo_levels, bk_rng = demo_rng, bk_context = 1,
      bk_failure_logged = False, bk_log = []\<rparr>"

definition demo_root :: parent_context where
  "demo_root = \<lparr>pc_trace_id = replicate 15 0 @ [1], pc_span_id = SPAN_ID_INVALID, pc_is_remote = False\<rparr>"

lemma demo_traced: "traced (demo_world raises) demo_backend demo_desc 50 demo_root (demo_rng\<lparr>draws128 := []\<rparr>)"
proof -
  have d: "decide_parent demo_otel None (pg_str (Some demo_sql)) demo_rng =
      Some (Some (Trace demo_root, demo_rng\<lparr>draws128 := []\<rparr>))" by code_simp
  have "co_query_total_ns demo_compat (Some 50) = Some (Some 50, Some 50)" by code_simp
  moreover have "snd (get_otlp_traceparent (demo_gucs\<lparr>MIN_DURATION_MS := 0, MAX_PLAN_SPANS := 2\<rparr>)) = None" by code_simp
  moreover have "\<not> is_explain_only 0" by code_simp
  ultimately show ?thesis using d
    by (simp add: traced_def demo_world_def demo_backend_def demo_desc_def tracing_enabled_def)
qed

definition demo_error :: caught where
  "demo_error = PostgresError \<lparr>er_sqlerrcode = lit ''22P02'', er_message = lit ''invalid input''\<rparr>"

lemma demo_contained:
  "collect_spans (demo_world (\<lambda>p. Some (demo_error, 9))) demo_backend =
   Some (Inr (), demo_backend\<lparr>bk_failure_logged := True, bk_log := [LogFailure (lit ''invalid input'')]\<rparr>)"
  by (simp add: collect_spans_def collect_spans_unguarded_def calling_def demo_world_def demo_backend_def demo_desc_def
      demo_error_def caught_report_def ERRCODE_QUERY_CANCELED_def report_collection_failure_def tracing_enabled_here_def
      tracing_enabled_def get_min_duration_ms_def is_explain_only_def EXEC_FLAG_EXPLAIN_ONLY_def Let_def)

lemma demo_nodes:
  "\<forall>(e, n) \<in> set (shown_nodes (wd_compat (demo_world r)) (qd_planstate demo_desc)). si_plan (ps_info n) \<noteq> None \<and>
      str_ok (si_type_name (ps_info n)) \<and> pred_option str_ok (Option.bind e ed_subplan_name)"
proof -
  have "\<forall>(e, n) \<in> set (shown_nodes demo_compat (Some demo_plan)). si_plan (ps_info n) \<noteq> None \<and>
      str_ok (si_type_name (ps_info n)) \<and> pred_option str_ok (Option.bind e ed_subplan_name)" by code_simp
  then show ?thesis by (simp add: demo_world_def demo_desc_def)
qed

lemma demo_state:
  "wd_raises (demo_world r) = r" "get_max_plan_spans (wd_gucs (demo_world r)) = 2"
  "version_layer (wd_compat (demo_world r))" "gucs_ok (wd_gucs (demo_world r))"
  "get_max_plan_spans (wd_gucs (demo_world r)) < span_ids_left (demo_rng\<lparr>draws128 := []\<rparr>)"
  "shm_holds (bk_shm demo_backend) (the (shm_hdr demo_shm)) []" "unat (tail (header_state (the (shm_hdr demo_shm)))) < 2 ^ 63"
  "0 < holdoff_count (wd_env (demo_world r))" "length (pc_trace_id demo_root) = 16" "length (pc_span_id demo_root) = 8"
proof -
  have "gucs_ok (demo_gucs\<lparr>MIN_DURATION_MS := 0, MAX_PLAN_SPANS := 2\<rparr>)" by code_simp
  then show "gucs_ok (wd_gucs (demo_world r))" by (simp add: demo_world_def)
  have "2 < span_ids_left (demo_rng\<lparr>draws128 := []\<rparr>)" by code_simp
  then show "get_max_plan_spans (wd_gucs (demo_world r)) < span_ids_left (demo_rng\<lparr>draws128 := []\<rparr>)"
    by (simp add: demo_world_def get_max_plan_spans_def)
  show "version_layer (wd_compat (demo_world r))" using demo_layer by (simp add: demo_world_def)
  show "shm_holds (bk_shm demo_backend) (the (shm_hdr demo_shm)) []" using demo_shm_holds by (simp add: demo_backend_def)
qed (simp_all add: demo_world_def get_max_plan_spans_def demo_shm_def ring_state_new_def demo_env_def demo_root_def SPAN_ID_INVALID_def)

lemma demo_published: "\<exists>b'. collect_spans (demo_world (\<lambda>p. None)) demo_backend = Some (Inr (), b') \<and> bk_shm b' \<noteq> bk_shm demo_backend"
  by (rule traced_publishes [OF demo_state(3) demo_traced _ demo_state(4,9,10) demo_nodes demo_state(5,6,7,8)]) (simp add: demo_state(1))

section \<open>Properties\<close>

text \<open>
  The threshold compares exactly: the product of any setting in milliseconds with a million
  does not wrap in 64 bits. A negative setting lets nothing pass, zero every statement.
\<close>

theorem threshold_exact:
  "meets_slow_query_threshold duration_ns min_duration_ms \<longleftrightarrow>
     0 \<le> sint min_duration_ms \<and> sint min_duration_ms * 1000000 \<le> sint duration_ns"
  by (rule threshold_iff)





text \<open>
  C11 (liveness). A traced statement reaches the queue: when Postgres raises nothing and the random values
  suffice, the collection returns and publishes a span for each of the first nodes of the plan, up to
  the limit, and the statement's own. All of their encodings are queued behind what is queued, or none
  when they do not fit; a span too large for a record is left out; and every one that is left out is
  counted as dropped.
\<close>

theorem traced_statement_queued:
  assumes layer: "version_layer (wd_compat w)" and traced: "traced w b q total_ns parent r"
    and quiet: "\<forall>p. wd_raises w p = None" and gucs: "gucs_ok (wd_gucs w)"
    and ids: "length (pc_trace_id parent) = 16" "length (pc_span_id parent) = 8"
    and nodes: "\<forall>(e, n) \<in> set (shown_nodes (wd_compat w) (qd_planstate q)). si_plan (ps_info n) \<noteq> None \<and>
      str_ok (si_type_name (ps_info n)) \<and> pred_option str_ok (Option.bind e ed_subplan_name)"
    and left: "get_max_plan_spans (wd_gucs w) < span_ids_left r"
    and shm: "shm_holds (bk_shm b) h ps" "unat (tail (header_state h)) < 2 ^ 63" "0 < holdoff_count (wd_env w)"
  shows "\<exists>b' h' spans s qs. collect_spans w b = Some (Inr (), b') \<and> statement_spans w total_ns parent spans s \<and>
    length spans = min (get_max_plan_spans (wd_gucs w)) (length (shown_nodes (wd_compat w) (qd_planstate q))) \<and>
    qs = map span_bytes (filter span_fits (spans @ [s])) \<and>
    shm_holds (bk_shm b') h' (if length (stream qs) \<le> header_free (bk_shm b) then ps @ qs else ps) \<and>
    dropped_spans h' = dropped_spans h +
      word_of_nat (length spans + 1 - (if length (stream qs) \<le> header_free (bk_shm b) then length qs else 0))"
  by (rule traced_statement [OF assms])

lemma traced_statement_queued_witness:
  "\<exists>b' h' spans s qs. collect_spans (demo_world (\<lambda>p. None)) demo_backend = Some (Inr (), b') \<and> statement_spans (demo_world (\<lambda>p. None)) 50 demo_root spans s \<and>
    length spans = min (get_max_plan_spans (wd_gucs (demo_world (\<lambda>p. None)))) (length (shown_nodes (wd_compat (demo_world (\<lambda>p. None))) (qd_planstate demo_desc))) \<and>
    qs = map span_bytes (filter span_fits (spans @ [s])) \<and>
    shm_holds (bk_shm b') h' (if length (stream qs) \<le> header_free (bk_shm demo_backend) then [] @ qs else []) \<and>
    dropped_spans h' = dropped_spans (the (shm_hdr demo_shm)) +
      word_of_nat (length spans + 1 - (if length (stream qs) \<le> header_free (bk_shm demo_backend) then length qs else 0))"
  by (rule traced_statement_queued [OF demo_state(3) demo_traced _ demo_state(4,9,10) demo_nodes demo_state(5,6,7,8)])
    (simp add: demo_state(1))

end
