(* ===== verification/Worker.thy ===== *)
theory Worker
  imports Codec Shared Export Config
begin

text \<open>
  The exporter worker (\<open>src/worker.rs\<close>): building the exporter from the configuration, draining the
  queue chunk by chunk, reacting to signals, reloading, the report of dropped spans and the flush
  on shutdown.

  The OpenTelemetry exporter and the file system are not modelled: \<open>'x otel_lib\<close> is what the code
  calls of them. The environment's answers over time (signals received since the last poll, clock
  readings) are consumed from lists in the worker's state. Messages to the log, the debug ones
  included, are a trace.
\<close>

section \<open>Constants\<close>

text \<open>Durations in nanoseconds.\<close>

definition IDLE_TIMEOUT :: nat where
  "IDLE_TIMEOUT = 1000000000"

definition CHUNK_BYTES :: nat where
  "CHUNK_BYTES = 256 * 1024"

definition SHUTDOWN_FLUSH_TIMEOUT :: nat where
  "SHUTDOWN_FLUSH_TIMEOUT = 5000000000"

definition DROPPED_LOG_INTERVAL :: nat where
  "DROPPED_LOG_INTERVAL = 60000000000"

section \<open>Building the exporter\<close>

text \<open>What the builders of the OTLP crate are given.\<close>

datatype exporter_spec =
    TonicSpec str nat "bytes option" "str option"
  | HttpSpec str nat "str option"

text \<open>
  The calls into the file system and the OpenTelemetry crates: \<open>fs::read\<close>, parsing a metadata value,
  \<open>build\<close>, \<open>set_resource\<close> (service name and further attributes), \<open>export\<close> (whether it succeeded) and
  \<open>shutdown\<close>.
\<close>

record 'x otel_lib =
  lib_read :: "str \<Rightarrow> bytes option"
  lib_header_ok :: "str \<Rightarrow> bool"
  lib_build :: "exporter_spec \<Rightarrow> 'x option"
  lib_set_resource :: "str \<Rightarrow> (str \<times> str) list \<Rightarrow> 'x \<Rightarrow> 'x"
  lib_export :: "'x \<Rightarrow> span_data list \<Rightarrow> bool \<times> 'x"
  lib_shutdown :: "'x \<Rightarrow> bool"
  lib_server_version :: "bytes option"
  lib_pg_version :: bytes

datatype worker_log =
    ConfigMessage config_log
  | CaReadFailed str
  | BadAuthorization
  | UnsupportedProtocol str
  | BuildFailed
  | KeepingExporter
  | Reloaded
  | GaveUpFlush
  | DroppedReport u64 u64
  | ExportFailed nat
  | CorruptRecords nat
  | QueueDiscarded string
  | DebugExporting nat
  | DebugDiscarding nat
  | DebugShutdownFailed

definition server_version :: "'x otel_lib \<Rightarrow> str" where
  "server_version lib =
     (case lib_server_version lib of Some v \<Rightarrow> utf8_lossy v | None \<Rightarrow> utf8_lossy (lib_pg_version lib))"

text \<open>The \<open>result\<close> of the protocol match: the builder's answer, or the early return.\<close>

definition build_for_protocol ::
    "'x otel_lib \<Rightarrow> exporter_config \<Rightarrow> (worker_log + 'x option)" where
  "build_for_protocol lib c =
     (let protocol = to_ascii_lowercase (cfg_protocol c);
          timeout = unat (cfg_timeout_ms c)
      in if protocol \<in> {lit ''grpc'', lit ''grpc-tonic''} then
           (case cfg_ca_certificate c of
              Some path \<Rightarrow>
                (case lib_read lib path of
                   None \<Rightarrow> Inl (CaReadFailed path)
                 | Some pem \<Rightarrow>
                     (case cfg_authorization c of
                        Some a \<Rightarrow>
                          if lib_header_ok lib a
                          then Inr (lib_build lib (TonicSpec (cfg_endpoint c) timeout (Some pem) (Some a)))
                          else Inl BadAuthorization
                      | None \<Rightarrow> Inr (lib_build lib (TonicSpec (cfg_endpoint c) timeout (Some pem) None))))
            | None \<Rightarrow>
                (case cfg_authorization c of
                   Some a \<Rightarrow>
                     if lib_header_ok lib a
                     then Inr (lib_build lib (TonicSpec (cfg_endpoint c) timeout None (Some a)))
                     else Inl BadAuthorization
                 | None \<Rightarrow> Inr (lib_build lib (TonicSpec (cfg_endpoint c) timeout None None))))
         else if protocol \<in> {lit ''http'', lit ''http/protobuf'', lit ''http-binary''} then
           Inr (lib_build lib (HttpSpec (cfg_endpoint c) timeout (cfg_authorization c)))
         else Inl (UnsupportedProtocol (cfg_protocol c)))"

definition build_exporter :: "'x otel_lib \<Rightarrow> gucs \<Rightarrow> worker_log list \<times> 'x option" where
  "build_exporter lib g =
     (case load g of
        (l, None) \<Rightarrow> (map ConfigMessage l, None)
      | (l, Some c) \<Rightarrow>
          (case build_for_protocol lib c of
             Inl m \<Rightarrow> (map ConfigMessage l @ [m], None)
           | Inr None \<Rightarrow> (map ConfigMessage l @ [BuildFailed], None)
           | Inr (Some x) \<Rightarrow>
               (map ConfigMessage l,
                Some (lib_set_resource lib (cfg_service_name c)
                  [(lit ''service.framework.name'', lit ''postgresql''),
                   (lit ''service.framework.version'', server_version lib)] x))))"

section \<open>The worker's state\<close>

record pending_signals =
  sighup :: bool
  sigterm :: bool

text \<open>
  \<open>wk_received\<close>: for each poll to come, whether SIGHUP and SIGTERM arrived since the one before (none
  once it is exhausted). \<open>wk_expired\<close>: for each reading of the clock during the final flush, whether
  the deadline has passed. \<open>wk_sent\<close>: the chunks handed to \<open>export\<close>, in order.
\<close>

record 'x worker =
  wk_shm :: shm
  wk_exporter :: "'x option"
  wk_signals :: pending_signals
  wk_received :: "(bool \<times> bool) list"
  wk_expired :: "bool list"
  wk_sent :: "span_data list list"
  wk_log :: "worker_log list"

definition wlog :: "worker_log list \<Rightarrow> 'x worker \<Rightarrow> 'x worker" where
  "wlog ms w = w\<lparr>wk_log := wk_log w @ ms\<rparr>"

definition poll_signals :: "bool \<times> bool \<Rightarrow> pending_signals \<Rightarrow> pending_signals" where
  "poll_signals r p = \<lparr>sighup = sighup p \<or> fst r, sigterm = sigterm p \<or> snd r\<rparr>"

definition any_signal :: "pending_signals \<Rightarrow> bool" where
  "any_signal p \<longleftrightarrow> sighup p \<or> sigterm p"

definition next_received :: "'x worker \<Rightarrow> bool \<times> bool" where
  "next_received w = (case wk_received w of r # _ \<Rightarrow> r | [] \<Rightarrow> (False, False))"

definition poll :: "'x worker \<Rightarrow> 'x worker" where
  "poll w =
     w\<lparr>wk_signals := poll_signals (next_received w) (wk_signals w), wk_received := tl (wk_received w)\<rparr>"

section \<open>Draining\<close>

datatype drained = Empty | Interrupted

text \<open>
  \<open>drain_queue\<close> over the state its closures share. \<open>nxt\<close> may panic (\<open>None\<close>); \<open>handle\<close> tells whether it
  completed, since the future may be dropped at its await (a timeout): then the result is
  \<open>None\<close> inside. The outer \<open>None\<close> is a panic or a loop that never ends.
\<close>

partial_function (option) drain_queue ::
    "('s \<Rightarrow> ('t list \<times> 's) option) \<Rightarrow> ('t list \<Rightarrow> 's \<Rightarrow> bool \<times> 's) \<Rightarrow> ('s \<Rightarrow> bool \<times> 's) \<Rightarrow>
     's \<Rightarrow> (drained option \<times> 's) option" where
  "drain_queue nxt handle interrupted s =
     (case interrupted s of (stop, s1) \<Rightarrow>
        if stop then Some (Some Interrupted, s1)
        else Option.bind (nxt s1) (\<lambda>(chunk, s2).
          if chunk = [] then Some (Some Empty, s2)
          else case handle chunk s2 of (completed, s3) \<Rightarrow>
            if completed then drain_queue nxt handle interrupted s3
            else Some (None, s3)))"

definition take_chunk :: "pg_env \<Rightarrow> 'x worker \<Rightarrow> (span_data list \<times> 'x worker) option" where
  "take_chunk env w =
     map_option
       (\<lambda>(res, buffer, s).
          let w1 = w\<lparr>wk_shm := s\<rparr>
          in case res of
               Inr n \<Rightarrow>
                 if n = 0 then ([], w1)
                 else (case decode_records buffer of (spans, undecodable) \<Rightarrow>
                   (map span_data_of spans,
                    if undecodable > 0 then wlog [CorruptRecords undecodable] w1 else w1))
             | Inl (Corrupted reason) \<Rightarrow> ([], wlog [QueueDiscarded reason] w1))
       (shared_drain_into env [] CHUNK_BYTES (wk_shm w))"

definition export :: "'x otel_lib \<Rightarrow> 'x \<Rightarrow> span_data list \<Rightarrow> 'x worker \<Rightarrow> 'x worker" where
  "export lib x spans w =
     (case lib_export lib x spans of
        (ok, x') \<Rightarrow>
          wlog ([DebugExporting (length spans)] @ (if ok then [] else [ExportFailed (length spans)]))
            (w\<lparr>wk_exporter := Some x', wk_sent := wk_sent w @ [spans]\<rparr>))"

definition export_chunk :: "'x otel_lib \<Rightarrow> span_data list \<Rightarrow> 'x worker \<Rightarrow> 'x worker" where
  "export_chunk lib spans w =
     (case wk_exporter w of
        Some x \<Rightarrow> export lib x spans w
      | None \<Rightarrow> wlog [DebugDiscarding (length spans)] w)"

definition signal_arrived :: "'x worker \<Rightarrow> bool \<times> 'x worker" where
  "signal_arrived w = (let w' = poll w in (any_signal (wk_signals w'), w'))"

definition export_pending :: "'x otel_lib \<Rightarrow> pg_env \<Rightarrow> 'x worker \<Rightarrow> (drained option \<times> 'x worker) option" where
  "export_pending lib env =
     drain_queue (take_chunk env) (\<lambda>spans w. (True, export_chunk lib spans w)) signal_arrived"

definition deadline_passed :: "'x worker \<Rightarrow> bool \<times> 'x worker" where
  "deadline_passed w =
     (case wk_expired w of b # bs \<Rightarrow> (b, w\<lparr>wk_expired := bs\<rparr>) | [] \<Rightarrow> (True, w))"

definition shutdown_exporter :: "'x otel_lib \<Rightarrow> 'x \<Rightarrow> worker_log list" where
  "shutdown_exporter lib x = (if lib_shutdown lib x then [] else [DebugShutdownFailed])"

text \<open>
  \<open>hangs\<close> tells of each chunk whether its export outlives the timeout around the whole flush.
\<close>

definition flush_and_shutdown ::
    "'x otel_lib \<Rightarrow> pg_env \<Rightarrow> (span_data list \<Rightarrow> bool) \<Rightarrow> 'x worker \<Rightarrow> 'x worker option" where
  "flush_and_shutdown lib env hangs w =
     map_option
       (\<lambda>(outcome, w1).
          let w2 = (if outcome = Some Empty then w1 else wlog [GaveUpFlush] w1)
          in case wk_exporter w2 of
               Some x \<Rightarrow> wlog (shutdown_exporter lib x) w2
             | None \<Rightarrow> w2)
       (drain_queue (take_chunk env) (\<lambda>spans w. (\<not> hangs spans, export_chunk lib spans w)) deadline_passed w)"

section \<open>Reload\<close>

text \<open>\<open>g\<close> are the settings after \<open>ProcessConfigFile\<close>.\<close>

definition reload_exporter :: "'x otel_lib \<Rightarrow> gucs \<Rightarrow> 'x worker \<Rightarrow> 'x worker" where
  "reload_exporter lib g w =
     (case build_exporter lib g of
        (l, None) \<Rightarrow> wlog (l @ [KeepingExporter]) w
      | (l, Some x) \<Rightarrow>
          wlog (l @ (case wk_exporter w of Some old \<Rightarrow> shutdown_exporter lib old | None \<Rightarrow> []) @ [Reloaded])
            (w\<lparr>wk_exporter := Some x\<rparr>))"

section \<open>The report of dropped spans\<close>

record dropped_report =
  last_logged_at :: nat
  last_total :: u64

definition dropped_report_new :: "nat \<Rightarrow> dropped_report" where
  "dropped_report_new now = \<lparr>last_logged_at = now, last_total = 0\<rparr>"

text \<open>
  Instants are nanoseconds; \<open>duration_since\<close> saturates at zero, like \<open>saturating_sub\<close> on the totals.
\<close>

definition report :: "nat \<Rightarrow> u64 \<Rightarrow> dropped_report \<Rightarrow> worker_log option \<times> dropped_report" where
  "report now tot r =
     (let newly_dropped = (if last_total r \<le> tot then tot - last_total r else 0)
      in if newly_dropped = 0 \<or> now - last_logged_at r < DROPPED_LOG_INTERVAL then (None, r)
         else (Some (DroppedReport newly_dropped tot), \<lparr>last_logged_at = now, last_total = tot\<rparr>))"

definition log_if_due :: "nat \<Rightarrow> u64 \<Rightarrow> dropped_report \<Rightarrow> 'x worker \<Rightarrow> dropped_report \<times> 'x worker" where
  "log_if_due now tot r w =
     (case report now tot r of
        (None, r') \<Rightarrow> (r', w)
      | (Some m, r') \<Rightarrow> (r', wlog [m] w))"

section \<open>The main loop\<close>

text \<open>
  What one iteration gets from outside: the answer of \<open>wait_latch\<close> (consulted only when no signal is
  pending), the settings a reload would read and the time at its end.
\<close>

record iteration =
  it_wait_latch :: bool
  it_gucs :: gucs
  it_now :: nat

text \<open>One iteration: \<open>Inl\<close> when the loop is left with the worker as it is then.\<close>

definition worker_iteration ::
    "'x otel_lib \<Rightarrow> pg_env \<Rightarrow> iteration \<Rightarrow> 'x worker \<times> dropped_report \<Rightarrow>
     ('x worker + 'x worker \<times> dropped_report) option" where
  "worker_iteration lib env it wr =
     (case wr of (w0, r) \<Rightarrow>
        let w1 = (if \<not> any_signal (wk_signals w0) \<and> \<not> it_wait_latch it
                  then w0\<lparr>wk_signals := (wk_signals w0)\<lparr>sigterm := True\<rparr>\<rparr> else w0);
            w2 = poll w1
        in if sigterm (wk_signals w2) then Some (Inl w2)
           else let w3 = (if sighup (wk_signals w2)
                          then reload_exporter lib (it_gucs it)
                                 (w2\<lparr>wk_signals := (wk_signals w2)\<lparr>sighup := False\<rparr>\<rparr>)
                          else w2)
                in map_option
                     (\<lambda>(_, w4). case log_if_due (it_now it) (dropped_spans_total (wk_shm w4)) r w4 of
                        (r', w5) \<Rightarrow> Inr (w5, r'))
                     (export_pending lib env w3))"

text \<open>The loop over the iterations that the environment allows; \<open>Inr\<close> when it is still running.\<close>

fun worker_loop ::
    "'x otel_lib \<Rightarrow> pg_env \<Rightarrow> iteration list \<Rightarrow> 'x worker \<times> dropped_report \<Rightarrow>
     ('x worker + 'x worker \<times> dropped_report) option" where
  "worker_loop lib env [] wr = Some (Inr wr)"
| "worker_loop lib env (it # its) wr =
     (case worker_iteration lib env it wr of
        Some (Inr wr') \<Rightarrow> worker_loop lib env its wr'
      | res \<Rightarrow> res)"

definition background_worker_run ::
    "'x otel_lib \<Rightarrow> pg_env \<Rightarrow> gucs \<Rightarrow> nat \<Rightarrow> (span_data list \<Rightarrow> bool) \<Rightarrow> iteration list \<Rightarrow>
     'x worker \<Rightarrow> ('x worker + 'x worker \<times> dropped_report) option" where
  "background_worker_run lib env g now hangs its w =
     (case build_exporter lib g of (l, x) \<Rightarrow>
        let w0 = wlog l (w\<lparr>wk_exporter := x, wk_signals := \<lparr>sighup = False, sigterm = False\<rparr>\<rparr>)
        in case worker_loop lib env its (w0, dropped_report_new now) of
             Some (Inl w1) \<Rightarrow> map_option Inl (flush_and_shutdown lib env hangs w1)
           | res \<Rightarrow> res)"

section \<open>The contract of a drain loop\<close>

text \<open>
  \<open>inv\<close> holds between the chunks, \<open>sz\<close> measures what is queued. A chunk that is handed over makes
  the rest smaller.
\<close>

locale drain_loop =
  fixes inv :: "'s \<Rightarrow> bool" and sz :: "'s \<Rightarrow> nat"
    and nxt :: "'s \<Rightarrow> ('t list \<times> 's) option" and handle :: "'t list \<Rightarrow> 's \<Rightarrow> bool \<times> 's"
    and stop :: "'s \<Rightarrow> bool \<times> 's"
  assumes stop_ok: "inv s \<Longrightarrow> inv (snd (stop s)) \<and> sz (snd (stop s)) \<le> sz s"
    and chunk_ok: "inv s \<Longrightarrow> \<exists>c s'. nxt s = Some (c, s') \<and>
      (if c = [] then inv s' else inv (snd (handle c s')) \<and> sz (snd (handle c s')) < sz s)"
begin

lemma returns: "inv s \<Longrightarrow> \<exists>r s'. drain_queue nxt handle stop s = Some (r, s') \<and> inv s'"
proof (induction "sz s" arbitrary: s rule: less_induct)
  case less
  obtain b s1 where st: "stop s = (b, s1)" by (cases "stop s")
  have s1: "inv s1" "sz s1 \<le> sz s" using stop_ok [OF less.prems] st by simp_all
  obtain c s2 where c: "nxt s1 = Some (c, s2)"
    "if c = [] then inv s2 else inv (snd (handle c s2)) \<and> sz (snd (handle c s2)) < sz s1"
    using chunk_ok [OF s1(1)] by blast
  obtain d s3 where h: "handle c s2 = (d, s3)" by (cases "handle c s2")
  show ?case
  proof (cases "b \<or> c = [] \<or> \<not> d")
    case True
    then show ?thesis
      using st s1 c h by (subst drain_queue.simps) auto
  next
    case False
    then have "inv s3" "sz s3 < sz s" using c h s1(2) by simp_all
    with less.hyps obtain r s' where "drain_queue nxt handle stop s3 = Some (r, s')" "inv s'" by blast
    then show ?thesis using False st c(1) h by (subst drain_queue.simps) simp
  qed
qed

text \<open>The outcomes: a stop tells so, a dropped future was in a handler that did not complete.\<close>

lemma outcome:
  assumes "inv s" and "drain_queue nxt handle stop s = Some (r, s')"
  shows "(r = Some Interrupted \<longrightarrow> (\<exists>t. inv t \<and> stop t = (True, s'))) \<and>
    (r = Some Empty \<longrightarrow> (\<exists>t. inv t \<and> nxt t = Some ([], s'))) \<and>
    (r = None \<longrightarrow> (\<exists>c t. handle c t = (False, s')))"
  using assms
proof (induction "sz s" arbitrary: s rule: less_induct)
  case less
  obtain b s1 where st: "stop s = (b, s1)" by (cases "stop s")
  have s1: "inv s1" "sz s1 \<le> sz s" using stop_ok [OF less.prems(1)] st by simp_all
  obtain c s2 where c: "nxt s1 = Some (c, s2)"
    "if c = [] then inv s2 else inv (snd (handle c s2)) \<and> sz (snd (handle c s2)) < sz s1"
    using chunk_ok [OF s1(1)] by blast
  obtain d s3 where h: "handle c s2 = (d, s3)" by (cases "handle c s2")
  have eq: "Some (r, s') = (if b then Some (Some Interrupted, s1)
      else if c = [] then Some (Some Empty, s2)
      else if d then drain_queue nxt handle stop s3 else Some (None, s3))"
    using less.prems(2) st c(1) h by (subst (asm) drain_queue.simps) (auto split: if_splits)
  show ?case
  proof (cases "b \<or> c = [] \<or> \<not> d")
    case True
    then show ?thesis
      using eq st c(1) h less.prems(1) s1(1) by (auto split: if_splits)
  next
    case False
    then have "inv s3" "sz s3 < sz s" using c h s1(2) by simp_all
    moreover have "drain_queue nxt handle stop s3 = Some (r, s')" using eq False by simp
    ultimately show ?thesis using less.hyps by blast
  qed
qed

end

text \<open>A loop whose empty chunk means that nothing is queued.\<close>

locale complete_drain = drain_loop inv sz nxt handle stop
  for inv :: "'s \<Rightarrow> bool" and sz :: "'s \<Rightarrow> nat" and nxt :: "'s \<Rightarrow> ('t list \<times> 's) option"
    and handle :: "'t list \<Rightarrow> 's \<Rightarrow> bool \<times> 's" and stop :: "'s \<Rightarrow> bool \<times> 's" +
  assumes empty_ok: "inv s \<Longrightarrow> nxt s = Some ([], s') \<Longrightarrow> sz s' = 0"
begin

lemma empties:
  assumes "inv s" and "drain_queue nxt handle stop s = Some (Some Empty, s')"
  shows "sz s' = 0"
  using outcome [OF assms] empty_ok by blast

end

section \<open>Queues of well-formed records\<close>

text \<open>
  The queue holds records that decode, as it does when every batch comes from \<open>encode_batch\<close>.
\<close>

definition wk_ok :: "'x worker \<Rightarrow> bool" where
  "wk_ok w \<longleftrightarrow> shm_inv (wk_shm w) \<and> list_all (\<lambda>p. \<not> isl (decode_span p)) (shm_items (wk_shm w))"

definition wk_pending :: "'x worker \<Rightarrow> span_data list" where
  "wk_pending w = map span_data_of (decodable (shm_items (wk_shm w)))"

definition wk_queued :: "'x worker \<Rightarrow> nat" where
  "wk_queued w = length (shm_items (wk_shm w))"

lemma decodable_all: "list_all (\<lambda>p. \<not> isl (decode_span p)) ps \<Longrightarrow> decodable ps = map (projr \<circ> decode_span) ps"
  by (induction ps) (auto split: sum.splits simp: sum.collapse)

lemma decodable_append [simp]: "decodable (ps @ qs) = decodable ps @ decodable qs"
  by (simp add: decodable_def)

lemma wlog_simps [simp]:
  "wk_shm (wlog ms w) = wk_shm w" "wk_exporter (wlog ms w) = wk_exporter w"
  "wk_signals (wlog ms w) = wk_signals w" "wk_received (wlog ms w) = wk_received w"
  "wk_expired (wlog ms w) = wk_expired w" "wk_sent (wlog ms w) = wk_sent w"
  "wk_log (wlog ms w) = wk_log w @ ms"
  by (simp_all add: wlog_def)

lemma take_chunk_ok:
  assumes "wk_ok w"
  shows "\<exists>c w' n. take_chunk env w = Some (c, w') \<and>
    wk_exporter w' = wk_exporter w \<and> wk_sent w' = wk_sent w \<and> wk_ok w' \<and>
    c = map span_data_of (decodable (take n (shm_items (wk_shm w)))) \<and>
    shm_items (wk_shm w') = drop n (shm_items (wk_shm w)) \<and>
    length c = n \<and> n \<le> wk_queued w \<and> (0 < wk_queued w \<longrightarrow> 0 < n)"
proof -
  let ?ps = "shm_items (wk_shm w)"
  let ?k = "drain_take CHUNK_BYTES 0 0 ?ps"
  have dec: "list_all (\<lambda>p. \<not> isl (decode_span p)) ?ps" using assms by (simp add: wk_ok_def)
  obtain h where h: "shm_holds (wk_shm w) h ?ps" using assms shm_inv_holds by (auto simp: wk_ok_def)
  then have pok: "list_all payload_ok (take ?k ?ps)"
    by (auto simp: shm_holds_def ring_rep_def list_all_iff dest: in_set_takeD)
  obtain rs s' where s': "shared_drain_into env [] CHUNK_BYTES (wk_shm w) = Some (Inr ?k, stream (take ?k ?ps), s')"
    "shm_holds s' (h\<lparr>header_state := rs\<rparr>) (drop ?k ?ps)"
    using drain_holds [OF h, of env "[]" CHUNK_BYTES] by auto
  have part: "list_all (\<lambda>p. \<not> isl (decode_span p)) (take ?k ?ps)" "list_all (\<lambda>p. \<not> isl (decode_span p)) (drop ?k ?ps)"
    using dec by (auto simp: list_all_iff dest: in_set_takeD in_set_dropD)
  have len: "length (decodable (take ?k ?ps)) = ?k"
    using decodable_all [OF part(1)] drain_take_le [of CHUNK_BYTES 0 0 ?ps] by simp
  have dr: "decode_records (stream (take ?k ?ps)) = (decodable (take ?k ?ps), 0)"
    using decode_records_stream [OF pok] len by simp
  let ?w = "w\<lparr>wk_shm := s'\<rparr>"
  have tc: "take_chunk env w = Some (map span_data_of (decodable (take ?k ?ps)), ?w)"
    using s'(1) dr by (simp add: take_chunk_def Let_def)
  have items: "shm_inv s'" "shm_items s' = drop ?k ?ps" using shm_holds_items [OF s'(2)] by simp_all
  have ok: "wk_ok ?w" using items part(2) by (simp add: wk_ok_def)
  show ?thesis
    using tc ok items len drain_take_le [of CHUNK_BYTES 0 0 ?ps] drain_take_progress [of ?ps CHUNK_BYTES 0]
    by (intro exI [of _ "map span_data_of (decodable (take ?k ?ps))"] exI [of _ ?w] exI [of _ ?k])
       (auto simp: wk_queued_def)
qed

lemma export_chunk_simps [simp]:
  "wk_shm (export_chunk lib c w) = wk_shm w"
  "wk_signals (export_chunk lib c w) = wk_signals w"
  "wk_received (export_chunk lib c w) = wk_received w"
  "(wk_exporter (export_chunk lib c w) = None) = (wk_exporter w = None)"
  "wk_sent (export_chunk lib c w) = (if wk_exporter w = None then wk_sent w else wk_sent w @ [c])"
  by (auto simp: export_chunk_def export_def split: option.splits prod.splits)

lemma poll_simps [simp]:
  "wk_shm (poll w) = wk_shm w" "wk_exporter (poll w) = wk_exporter w" "wk_sent (poll w) = wk_sent w"
  by (simp_all add: poll_def)

text \<open>
  The loop invariant of an export run that started with \<open>all\<close> still to be sent: what was sent
  since followed by what is queued is \<open>all\<close>, and without an exporter nothing is sent.
\<close>

definition export_inv :: "bool \<Rightarrow> span_data list \<Rightarrow> 'x worker \<Rightarrow> bool" where
  "export_inv has all w \<longleftrightarrow>
     wk_ok w \<and> (wk_exporter w \<noteq> None) = has \<and>
     (if has then concat (wk_sent w) @ wk_pending w = all else concat (wk_sent w) = all)"

lemma export_inv_step:
  assumes inv: "export_inv has all w"
  shows "\<exists>c w'. take_chunk env w = Some (c, w') \<and>
    (if c = [] then export_inv has all w' \<and> wk_queued w' = 0
     else export_inv has all (export_chunk lib c w') \<and> wk_queued (export_chunk lib c w') < wk_queued w)"
proof -
  have ok: "wk_ok w" using inv by (simp add: export_inv_def)
  obtain c w' n where c: "take_chunk env w = Some (c, w')"
    and same: "wk_exporter w' = wk_exporter w" "wk_sent w' = wk_sent w" and c': "wk_ok w'"
    "c = map span_data_of (decodable (take n (shm_items (wk_shm w))))"
    "shm_items (wk_shm w') = drop n (shm_items (wk_shm w))"
    "length c = n" "n \<le> wk_queued w" "0 < wk_queued w \<longrightarrow> 0 < n"
    using take_chunk_ok [OF ok, of env] by (elim exE conjE) (rule that)
  have "decodable (shm_items (wk_shm w)) =
      decodable (take n (shm_items (wk_shm w))) @ decodable (drop n (shm_items (wk_shm w)))"
    by (metis append_take_drop_id decodable_append)
  then have pend: "wk_pending w = c @ wk_pending w'" using c'(2,3) by (simp add: wk_pending_def)
  have q: "wk_queued w' = wk_queued w - n" using c'(3) by (simp add: wk_queued_def)
  have ok2: "wk_ok (export_chunk lib c w')" "wk_pending (export_chunk lib c w') = wk_pending w'"
    "wk_queued (export_chunk lib c w') = wk_queued w'"
    using c' by (simp_all add: wk_ok_def wk_pending_def wk_queued_def)
  show ?thesis
  proof (cases "c = []")
    case True
    then have "export_inv has all w'" "wk_queued w' = 0"
      using inv c'(1,4,6) same pend q by (auto simp: export_inv_def)
    with True c(1) show ?thesis by simp
  next
    case False
    then have "0 < n" using c'(4) by auto
    then have "wk_queued (export_chunk lib c w') < wk_queued w" using ok2(3) q c'(5) by simp
    moreover have "export_inv has all (export_chunk lib c w')"
      using inv ok2 same pend by (auto simp: export_inv_def)
    ultimately show ?thesis using False c(1) by auto
  qed
qed

lemma export_inv_poll:
  "export_inv has all (poll w) = export_inv has all w" "wk_queued (poll w) = wk_queued w"
  by (simp_all add: export_inv_def wk_ok_def wk_pending_def wk_queued_def)

interpretation export_run: complete_drain
  "export_inv has all" wk_queued "take_chunk env" "\<lambda>spans w. (True, export_chunk lib spans w)" signal_arrived
  for has all env and lib :: "'x otel_lib"
proof unfold_locales
  fix s s' :: "'x worker"
  assume inv: "export_inv has all s"
  show "export_inv has all (snd (signal_arrived s)) \<and> wk_queued (snd (signal_arrived s)) \<le> wk_queued s"
    using inv by (simp add: signal_arrived_def Let_def export_inv_poll)
  show "\<exists>c s'. take_chunk env s = Some (c, s') \<and>
      (if c = [] then export_inv has all s'
       else export_inv has all (snd (True, export_chunk lib c s')) \<and>
         wk_queued (snd (True, export_chunk lib c s')) < wk_queued s)"
    using export_inv_step [OF inv, of env lib] by (auto split: if_splits)
  assume "take_chunk env s = Some ([], s')"
  with export_inv_step [OF inv, of env] show "wk_queued s' = 0" by auto
qed

section \<open>Any contents of shared memory\<close>

lemma shared_drain_any:
  assumes "shm_any s"
  shows "\<exists>res out s'. shared_drain_into env [] m s = Some (res, out, s') \<and> shm_any s' \<and>
    header_used s' + length out \<le> header_used s"
proof (cases "shm_hdr s")
  case None
  then show ?thesis using assms by (simp add: shared_drain_into_def with_ring_def)
next
  case (Some h)
  show ?thesis
  proof (cases "shm_lock s")
    case False
    then show ?thesis using assms Some by (simp add: shared_drain_into_def with_ring_def lock_acquire_def)
  next
    case True
    let ?r = "shm_ring h (shm_data s)"
    have cap: "unat (header_capacity h) = length (shm_data s)" and sz: "slice_sized (shm_data s)"
      using assms Some by (simp_all add: shm_any_def)
    then have data: "rdata ?r = shm_data s" by (simp add: shm_ring_def)
    then have "slice_sized (rdata ?r)" using sz by simp
    from drain_into_total [OF this, of "[]" m] obtain res out r' where
      d: "drain_into ?r [] m = Some (res, out, r')" "capacity r' = capacity ?r"
      and ok: "case res of Inl c \<Rightarrow> used r' = 0 \<and> out = []
        | Inr k \<Rightarrow> used r' + length out = used ?r + length ([] :: bytes) \<and> (0 < used ?r \<longrightarrow> 0 < k)"
      unfolding drained_ok_def by blast
    let ?s = "lock_drop env (put_ring r' h (call LWLockAcquireQueue s))"
    have eq: "shared_drain_into env [] m s = Some (res, out, ?s)"
      using Some True d(1) by (simp add: shared_drain_into_def with_ring_def lock_acquire_def)
    have len: "length (rdata r') = length (shm_data s)"
      using d(2) data by (simp add: capacity_def)
    have "shm_any ?s" using cap sz len by (simp add: shm_any_def put_ring_def slice_sized_def)
    moreover have "header_used ?s = used r'"
      using cap len by (cases r') (simp add: header_used_def put_ring_def shm_ring_def)
    moreover have "used r' + length out \<le> used ?r" using ok by (auto split: sum.splits)
    ultimately show ?thesis using eq Some by (auto simp: header_used_def)
  qed
qed

lemma take_chunk_any:
  assumes "shm_any (wk_shm w)"
  shows "\<exists>c w'. take_chunk env w = Some (c, w') \<and> shm_any (wk_shm w') \<and>
    wk_signals w' = wk_signals w \<and> wk_received w' = wk_received w \<and>
    (c \<noteq> [] \<longrightarrow> header_used (wk_shm w') < header_used (wk_shm w))"
proof -
  obtain res out s' where d: "shared_drain_into env [] CHUNK_BYTES (wk_shm w) = Some (res, out, s')"
    "shm_any s'" "header_used s' + length out \<le> header_used (wk_shm w)"
    using shared_drain_any [OF assms, of env CHUNK_BYTES] by blast
  have nil: "decode_records [] = ([], 0)" by (simp add: decode_records_def)
  show ?thesis
  proof (cases "out = []")
    case True
    then show ?thesis
      using d nil by (auto simp: take_chunk_def Let_def split: sum.splits corrupted.splits)
  next
    case False
    then have "header_used s' < header_used (wk_shm w)" using d(3) by (cases out) auto
    then show ?thesis
      using d by (auto simp: take_chunk_def Let_def split: sum.splits corrupted.splits prod.splits)
  qed
qed

text \<open>
  The signals of a worker that started with \<open>p\<close> pending and \<open>rs\<close> to arrive, after some polls:
  pending is what was pending or arrived until then.
\<close>

definition signals_since :: "pending_signals \<Rightarrow> (bool \<times> bool) list \<Rightarrow> 'x worker \<Rightarrow> bool" where
  "signals_since p rs w \<longleftrightarrow>
     (\<exists>k. wk_received w = drop k rs \<and>
        (sighup (wk_signals w) \<longleftrightarrow> sighup p \<or> (\<exists>r \<in> set (take k rs). fst r)) \<and>
        (sigterm (wk_signals w) \<longleftrightarrow> sigterm p \<or> (\<exists>r \<in> set (take k rs). snd r)))"

lemma signals_since_start: "signals_since (wk_signals w) (wk_received w) w"
  unfolding signals_since_def by (rule exI [of _ 0]) simp

lemma signals_since_poll: "signals_since p rs w \<Longrightarrow> signals_since p rs (poll w)"
proof -
  assume "signals_since p rs w"
  then obtain k where k: "wk_received w = drop k rs"
    "sighup (wk_signals w) \<longleftrightarrow> sighup p \<or> (\<exists>r \<in> set (take k rs). fst r)"
    "sigterm (wk_signals w) \<longleftrightarrow> sigterm p \<or> (\<exists>r \<in> set (take k rs). snd r)"
    unfolding signals_since_def by blast
  show ?thesis
  proof (cases "k < length rs")
    case True
    then have "drop k rs = rs ! k # drop (Suc k) rs" "take (Suc k) rs = take k rs @ [rs ! k]"
      by (simp_all add: Cons_nth_drop_Suc take_Suc_conv_app_nth)
    then show ?thesis
      using k unfolding signals_since_def
      by (intro exI [of _ "Suc k"]) (auto simp: poll_def poll_signals_def next_received_def)
  next
    case False
    then show ?thesis
      using k unfolding signals_since_def
      by (intro exI [of _ k]) (simp add: poll_def poll_signals_def next_received_def)
  qed
qed

interpretation any_run: drain_loop
  "\<lambda>w. shm_any (wk_shm w) \<and> signals_since p rs w" "\<lambda>w. header_used (wk_shm w)" "take_chunk env"
  "\<lambda>spans w. (True, export_chunk lib spans w)" signal_arrived
  for p rs env and lib :: "'x otel_lib"
proof unfold_locales
  fix s :: "'x worker"
  assume inv: "shm_any (wk_shm s) \<and> signals_since p rs s"
  then show "(shm_any (wk_shm (snd (signal_arrived s))) \<and> signals_since p rs (snd (signal_arrived s))) \<and>
      header_used (wk_shm (snd (signal_arrived s))) \<le> header_used (wk_shm s)"
    by (simp add: signal_arrived_def Let_def signals_since_poll)
  obtain c s' where c: "take_chunk env s = Some (c, s')" "shm_any (wk_shm s')"
    "wk_signals s' = wk_signals s" "wk_received s' = wk_received s"
    "c \<noteq> [] \<longrightarrow> header_used (wk_shm s') < header_used (wk_shm s)"
    using take_chunk_any [of s env] inv by blast
  have "signals_since p rs s'" "signals_since p rs (export_chunk lib c s')"
    using inv c(3,4) by (simp_all add: signals_since_def)
  with c show "\<exists>c s'. take_chunk env s = Some (c, s') \<and>
      (if c = [] then shm_any (wk_shm s') \<and> signals_since p rs s'
       else (shm_any (wk_shm (snd (True, export_chunk lib c s'))) \<and>
           signals_since p rs (snd (True, export_chunk lib c s'))) \<and>
         header_used (wk_shm (snd (True, export_chunk lib c s'))) < header_used (wk_shm s))"
    by (intro exI [of _ c] exI [of _ s']) simp
qed

lemma flush_stop:
  "wk_shm (snd (deadline_passed w)) = wk_shm w" "wk_exporter (snd (deadline_passed w)) = wk_exporter w"
  "wk_sent (snd (deadline_passed w)) = wk_sent w"
  by (simp_all add: deadline_passed_def split: list.splits)

interpretation flush_run: complete_drain
  "export_inv has all" wk_queued "take_chunk env" "\<lambda>spans w. (\<not> hangs spans, export_chunk lib spans w)"
  deadline_passed
  for has all env hangs and lib :: "'x otel_lib"
proof unfold_locales
  fix s s' :: "'x worker"
  assume inv: "export_inv has all s"
  show "export_inv has all (snd (deadline_passed s)) \<and> wk_queued (snd (deadline_passed s)) \<le> wk_queued s"
    using inv by (auto simp: export_inv_def wk_ok_def wk_pending_def wk_queued_def flush_stop split: if_splits)
  show "\<exists>c s'. take_chunk env s = Some (c, s') \<and>
      (if c = [] then export_inv has all s'
       else export_inv has all (snd (\<not> hangs c, export_chunk lib c s')) \<and>
         wk_queued (snd (\<not> hangs c, export_chunk lib c s')) < wk_queued s)"
    using export_inv_step [OF inv, of env lib] by (auto split: if_splits)
  assume "take_chunk env s = Some ([], s')"
  with export_inv_step [OF inv, of env] show "wk_queued s' = 0" by auto
qed

lemma export_pending_any:
  assumes "shm_any (wk_shm w)"
  shows "\<exists>out w'. export_pending lib env w = Some (Some out, w') \<and> shm_any (wk_shm w') \<and>
    signals_since (wk_signals w) (wk_received w) w'"
proof -
  have inv: "shm_any (wk_shm w) \<and> signals_since (wk_signals w) (wk_received w) w"
    using assms signals_since_start by blast
  from any_run.returns [OF inv, of env lib] obtain r w' where
    r: "export_pending lib env w = Some (r, w')" "shm_any (wk_shm w')"
    "signals_since (wk_signals w) (wk_received w) w'"
    by (auto simp: export_pending_def)
  have "r \<noteq> None" using any_run.outcome [OF inv] r(1) by (auto simp: export_pending_def)
  with r show ?thesis by auto
qed

section \<open>Properties\<close>

text \<open>
  C18 (functional). One export run on a queue of well-formed records. It returns; the spans handed to
  the exporter since, followed by those still queued, are exactly the ones that were queued, in
  order; if it reports an empty queue the queue is empty, and if it was interrupted a signal is
  pending. Without an exporter nothing is sent and the queue is emptied all the same.
\<close>

theorem export_pending_delivers:
  assumes "wk_ok w"
  shows "\<exists>out w'. export_pending lib env w = Some (Some out, w') \<and> wk_ok w' \<and>
    (if wk_exporter w \<noteq> None
     then concat (wk_sent w') @ wk_pending w' = concat (wk_sent w) @ wk_pending w
     else concat (wk_sent w') = concat (wk_sent w)) \<and>
    (out = Empty \<longrightarrow> wk_queued w' = 0) \<and> (out = Interrupted \<longrightarrow> any_signal (wk_signals w'))"
proof -
  let ?has = "wk_exporter w \<noteq> None"
  let ?all = "if ?has then concat (wk_sent w) @ wk_pending w else concat (wk_sent w)"
  have inv: "export_inv ?has ?all w" using assms by (simp add: export_inv_def)
  obtain r w' where r: "export_pending lib env w = Some (r, w')" "export_inv ?has ?all w'"
    using export_run.returns [OF inv, of env lib] by (auto simp: export_pending_def)
  note run = r(1) [unfolded export_pending_def]
  obtain out where out: "r = Some out"
    using export_run.outcome [OF inv run] by (cases r) auto
  have "out = Empty \<longrightarrow> wk_queued w' = 0" using export_run.empties [OF inv, of env lib w'] run out by auto
  moreover have "out = Interrupted \<longrightarrow> any_signal (wk_signals w')"
    using export_run.outcome [OF inv run] out by (auto simp: signal_arrived_def Let_def)
  ultimately show ?thesis
    using r out by (auto simp: export_inv_def split: if_splits)
qed

definition demo_lib :: "nat otel_lib" where
  "demo_lib = \<lparr>lib_read = (\<lambda>p. if p = [] then None else Some [1]), lib_header_ok = (\<lambda>_. True),
     lib_build = (\<lambda>_. Some 0), lib_set_resource = (\<lambda>_ _ x. x), lib_export = (\<lambda>x _. (x = 0, x + 1)),
     lib_shutdown = (\<lambda>_. True), lib_server_version = None, lib_pg_version = lit ''19.0''\<rparr>"

definition demo_worker :: "shm \<Rightarrow> (bool \<times> bool) list \<Rightarrow> nat worker" where
  "demo_worker s rs = \<lparr>wk_shm = s, wk_exporter = Some 0, wk_signals = \<lparr>sighup = False, sigterm = False\<rparr>,
     wk_received = rs, wk_expired = [], wk_sent = [], wk_log = []\<rparr>"

text \<open>A queue that holds the payloads \<open>ps\<close>, its data area filled to the last byte.\<close>

definition full_shm :: "bytes list \<Rightarrow> shm" where
  "full_shm ps =
     \<lparr>shm_hdr = Some \<lparr>header_state = \<lparr>head = 0, tail = word_of_nat (length (stream ps))\<rparr>,
        header_capacity = word_of_nat (length (stream ps)), worker_proc_number = 7, dropped_spans = 0\<rparr>,
      shm_data = stream ps, shm_lock = True, calls = []\<rparr>"

lemma full_shm_holds:
  assumes "list_all payload_ok ps" and "length (stream ps) < 2 ^ 63"
  shows "shm_holds (full_shm ps) (the (shm_hdr (full_shm ps))) ps"
proof -
  let ?d = "stream ps" and ?n = "length (stream ps)"
  let ?r = "\<lparr>rstate = \<lparr>head = 0, tail = word_of_nat ?n\<rparr>, rdata = ?d\<rparr>"
  have n: "unat (word_of_nat ?n :: u64) = ?n" using assms(2) by (simp add: unat_of_nat)
  have c: "is_consistent ?r" by (simp add: is_consistent_def)
  then have u: "used ?r = ?n" using n by (simp add: used_def)
  have "ring_wf ?r" using c assms(2) by (simp add: ring_wf_def slice_sized_def)
  moreover have "ring_contents ?r = ?d"
    using u circ_straight [of 0 ?n ?d] by (simp add: ring_contents_def)
  ultimately have "ring_rep ?r ps" using assms(1) by (simp add: ring_rep_def)
  then show ?thesis using n by (simp add: shm_holds_def full_shm_def shm_ring_def)
qed

lemma demo_payload: "payload_ok (span_bytes demo_query_span)" "payload_ok (span_bytes demo_plan_span)"
  using demo_spans_fit by (simp_all add: span_fits_def)

lemma demo_decodes:
  "decode_span (span_bytes demo_query_span) = Inr (clamp_span demo_query_span)"
  "decode_span (span_bytes demo_plan_span) = Inr (clamp_span demo_plan_span)"
  using demo_spans_typed clamp_span_ok by (simp_all add: decode_span_iff span_bytes_clamp)

definition demo_queue :: shm where
  "demo_queue = full_shm [span_bytes demo_query_span, span_bytes demo_plan_span]"

lemma demo_queue_items:
  "shm_inv demo_queue" "shm_items demo_queue = [span_bytes demo_query_span, span_bytes demo_plan_span]"
  using shm_holds_items [OF full_shm_holds [of "[span_bytes demo_query_span, span_bytes demo_plan_span]"]]
    demo_payload demo_spans_length
  by (simp_all add: demo_queue_def LEN_PREFIX_BYTES_def)

lemma demo_worker_ok: "wk_ok (demo_worker demo_queue rs)"
  using demo_queue_items demo_decodes by (simp add: wk_ok_def demo_worker_def)

theorem export_pending_delivers_witness:
  "\<exists>out w'. export_pending demo_lib demo_env (demo_worker demo_queue []) = Some (Some out, w') \<and>
     concat (wk_sent w') @ wk_pending w' =
       [span_data_of (clamp_span demo_query_span), span_data_of (clamp_span demo_plan_span)]"
proof -
  have "wk_pending (demo_worker demo_queue []) =
      [span_data_of (clamp_span demo_query_span), span_data_of (clamp_span demo_plan_span)]"
    using demo_queue_items(2) demo_decodes by (simp add: wk_pending_def demo_worker_def)
  then show ?thesis
    using export_pending_delivers [OF demo_worker_ok [of "[]"], of demo_lib demo_env]
    by (auto simp: demo_worker_def)
qed

text \<open>
  C25 (termination). An export run returns whatever the shared memory holds, with any positions
  and any bytes: no panic and no endless loop. It keeps every signal that arrived while it ran:
  pending afterwards is what was pending or arrived at one of its polls.
\<close>

theorem export_pending_returns:
  assumes "shm_any (wk_shm w)"
  shows "\<exists>out w' k. export_pending lib env w = Some (Some out, w') \<and> wk_received w' = drop k (wk_received w) \<and>
    (sighup (wk_signals w') \<longleftrightarrow> sighup (wk_signals w) \<or> (\<exists>r \<in> set (take k (wk_received w)). fst r)) \<and>
    (sigterm (wk_signals w') \<longleftrightarrow> sigterm (wk_signals w) \<or> (\<exists>r \<in> set (take k (wk_received w)). snd r))"
  using export_pending_any [OF assms, of lib env] unfolding signals_since_def by blast

theorem export_pending_returns_witness:
  "\<exists>out w'. export_pending demo_lib demo_env
     (demo_worker (full_shm [[1, 2, 3]]) [(False, True)]) = Some (Some out, w')"
proof -
  have "shm_any (wk_shm (demo_worker (full_shm [[1, 2, 3]]) [(False, True)]))"
    by (simp add: demo_worker_def full_shm_def shm_any_def slice_sized_def LEN_PREFIX_BYTES_def)
  from export_pending_returns [OF this] show ?thesis by blast
qed

text \<open>
  A drain run can end early: when a chunk holds only records that do not decode, the empty
  list that \<open>take_chunk\<close> returns for it reads as an empty queue, so the run reports \<open>Empty\<close> although
  a well-formed span is still queued and no signal is pending.
\<close>

definition junk_record :: bytes where
  "junk_record = replicate MAX_RECORD_BYTES 0"

definition junk_queue :: "bytes list" where
  "junk_queue = replicate 4 junk_record @ [span_bytes demo_query_span]"

lemma junk_payload: "length junk_record = 65536" "payload_ok junk_record"
  by (simp_all add: junk_record_def payload_ok_def MAX_RECORD_BYTES_def)

lemma junk_undecodable: "isl (decode_span junk_record)"
proof -
  have junk: "junk_record = 0 # replicate 65535 0"
    using replicate_Suc [of 65535 "0 :: byte"] by (simp add: junk_record_def MAX_RECORD_BYTES_def del: replicate_Suc)
  show ?thesis
    unfolding junk by (simp add: decode_span_def decode_span_fields_def FORMAT_VERSION_def rd_fail_def)
qed

lemma replicate_few: "replicate 3 x = [x, x, x]" "replicate 4 x = [x, x, x, x]"
  by (simp_all add: numeral_eq_Suc)

lemma junk_queue_simps:
  "list_all payload_ok junk_queue" "drain_take CHUNK_BYTES 0 0 junk_queue = 3"
  "take 3 junk_queue = replicate 3 junk_record" "drop 3 junk_queue = [junk_record, span_bytes demo_query_span]"
  "length (stream junk_queue) < 2 ^ 63"
  using junk_payload demo_payload demo_spans_length
  by (simp_all add: junk_queue_def CHUNK_BYTES_def LEN_PREFIX_BYTES_def replicate_few)

theorem undecodable_chunk_ends_drain:
  "\<exists>(w :: nat worker) w'. wk_received w = [] \<and> wk_exporter w \<noteq> None \<and> shm_inv (wk_shm w) \<and>
     export_pending demo_lib demo_env w = Some (Some Empty, w') \<and>
     shm_items (wk_shm w') = [junk_record, span_bytes demo_query_span] \<and>
     decode_span (span_bytes demo_query_span) = Inr (clamp_span demo_query_span) \<and> wk_sent w' = []"
proof -
  let ?s = "full_shm junk_queue"
  let ?w = "demo_worker ?s []"
  have h: "shm_holds ?s (the (shm_hdr ?s)) junk_queue"
    using junk_queue_simps by (intro full_shm_holds)
  obtain rs s' where d: "shared_drain_into demo_env [] CHUNK_BYTES ?s =
      Some (Inr 3, stream (replicate 3 junk_record), s')"
    "shm_holds s' ((the (shm_hdr ?s))\<lparr>header_state := rs\<rparr>) [junk_record, span_bytes demo_query_span]"
    using drain_holds [OF h, of demo_env "[]" CHUNK_BYTES] unfolding junk_queue_simps by auto
  have "decodable (replicate 3 junk_record) = []"
    using junk_undecodable by (auto simp: replicate_few isl_def)
  then have dr: "decode_records (stream (replicate 3 junk_record)) = ([], 3)"
    using decode_records_stream [of "replicate 3 junk_record"] junk_payload by (simp add: list_all_iff)
  have st: "signal_arrived ?w = (False, ?w)"
    by (simp add: signal_arrived_def poll_def poll_signals_def next_received_def any_signal_def demo_worker_def)
  have tc: "take_chunk demo_env ?w = Some ([], wlog [CorruptRecords 3] (?w\<lparr>wk_shm := s'\<rparr>))"
    using d(1) dr by (simp add: take_chunk_def demo_worker_def)
  have "export_pending demo_lib demo_env ?w = Some (Some Empty, wlog [CorruptRecords 3] (?w\<lparr>wk_shm := s'\<rparr>))"
    unfolding export_pending_def by (subst drain_queue.simps) (simp add: st tc)
  moreover have "shm_items s' = [junk_record, span_bytes demo_query_span]" "shm_inv ?s"
    using shm_holds_items [OF d(2)] shm_holds_items [OF h] by simp_all
  ultimately show ?thesis
    using demo_decodes(1)
    by (intro exI [of _ ?w] exI [of _ "wlog [CorruptRecords 3] (?w\<lparr>wk_shm := s'\<rparr>)"])
       (simp add: demo_worker_def)
qed

text \<open>
  C26 (liveness). SIGTERM is honoured. In one iteration of the main loop, a pending one, one that
  \<open>wait_latch\<close> consumed or one that the first poll sees leaves the loop at once, without exporting.
  One that a later poll sees during the export stays pending, so the next iteration leaves the loop:
  it cannot be lost or delayed by more than the export run in progress.
\<close>

theorem sigterm_honoured:
  assumes "shm_any (wk_shm w)"
  shows "(if sigterm (wk_signals w) \<or> (\<not> any_signal (wk_signals w) \<and> \<not> it_wait_latch it) \<or> snd (next_received w)
     then \<exists>w'. worker_iteration lib env it (w, r) = Some (Inl w') \<and> wk_sent w' = wk_sent w \<and> wk_shm w' = wk_shm w
     else \<exists>w' r' k. worker_iteration lib env it (w, r) = Some (Inr (w', r')) \<and>
       wk_received w' = drop k (tl (wk_received w)) \<and>
       (sigterm (wk_signals w') \<longleftrightarrow> (\<exists>s \<in> set (take k (tl (wk_received w))). snd s)) \<and>
       (sigterm (wk_signals w') \<longrightarrow>
         (\<forall>it'. \<exists>w''. worker_iteration lib env it' (w', r') = Some (Inl w'') \<and> wk_sent w'' = wk_sent w')))"
proof -
  let ?w1 = "if \<not> any_signal (wk_signals w) \<and> \<not> it_wait_latch it
      then w\<lparr>wk_signals := (wk_signals w)\<lparr>sigterm := True\<rparr>\<rparr> else w"
  let ?w2 = "poll ?w1"
  have trm: "sigterm (wk_signals ?w2) \<longleftrightarrow> sigterm (wk_signals w) \<or>
      (\<not> any_signal (wk_signals w) \<and> \<not> it_wait_latch it) \<or> snd (next_received w)"
    by (auto simp: poll_def poll_signals_def next_received_def)
  show ?thesis
  proof (cases "sigterm (wk_signals ?w2)")
    case True
    then show ?thesis using trm by (auto simp: worker_iteration_def Let_def)
  next
    case False
    let ?w3 = "if sighup (wk_signals ?w2)
        then reload_exporter lib (it_gucs it) (?w2\<lparr>wk_signals := (wk_signals ?w2)\<lparr>sighup := False\<rparr>\<rparr>) else ?w2"
    have w3: "wk_shm ?w3 = wk_shm w" "wk_received ?w3 = tl (wk_received w)" "\<not> sigterm (wk_signals ?w3)"
      using False by (auto simp: reload_exporter_def poll_def split: prod.splits option.splits)
    from assms have "shm_any (wk_shm ?w3)" by (simp only: w3(1))
    from export_pending_any [OF this, of lib env] obtain out w4 k where
      e: "export_pending lib env ?w3 = Some (Some out, w4)"
      and k: "wk_received w4 = drop k (tl (wk_received w))"
        "sigterm (wk_signals w4) \<longleftrightarrow> (\<exists>s \<in> set (take k (tl (wk_received w))). snd s)"
      using w3 unfolding signals_since_def by auto
    obtain r' w5 where l: "log_if_due (it_now it) (dropped_spans_total (wk_shm w4)) r w4 = (r', w5)"
      "wk_received w5 = wk_received w4" "wk_signals w5 = wk_signals w4"
      by (cases "report (it_now it) (dropped_spans_total (wk_shm w4)) r"; cases "fst (report (it_now it) (dropped_spans_total (wk_shm w4)) r)")
        (auto simp: log_if_due_def)
    have it: "worker_iteration lib env it (w, r) = Some (Inr (w5, r'))"
      using False e l(1) by (simp add: worker_iteration_def Let_def)
    have "\<exists>w''. worker_iteration lib env it' (w5, r') = Some (Inl w'') \<and> wk_sent w'' = wk_sent w5"
      if "sigterm (wk_signals w5)" for it'
      using that by (auto simp: worker_iteration_def Let_def any_signal_def poll_def poll_signals_def)
    with it k l trm False show ?thesis by auto
  qed
qed

definition demo_iteration :: iteration where
  "demo_iteration = \<lparr>it_wait_latch = True, it_gucs = demo_gucs, it_now = 0\<rparr>"

theorem sigterm_honoured_witness:
  "\<exists>w'. worker_iteration demo_lib demo_env demo_iteration
       (demo_worker demo_queue [(True, True)], dropped_report_new 0) = Some (Inl w') \<and> wk_sent w' = []"
proof -
  have any: "shm_any (wk_shm (demo_worker demo_queue [(True, True)]))"
    using demo_payload demo_spans_length
    by (simp add: demo_worker_def demo_queue_def full_shm_def shm_any_def slice_sized_def LEN_PREFIX_BYTES_def)
  have "snd (next_received (demo_worker demo_queue [(True, True)]))"
    "wk_sent (demo_worker demo_queue [(True, True)]) = []"
    by (simp_all add: next_received_def demo_worker_def)
  with sigterm_honoured [OF any, of demo_iteration demo_lib demo_env "dropped_report_new 0"] show ?thesis
    by auto
qed

text \<open>A sequence of calls of \<open>report\<close>: what was logged, with the time, and the state after.\<close>

fun run_reports :: "(nat \<times> u64) list \<Rightarrow> dropped_report \<Rightarrow> (nat \<times> worker_log) list \<times> dropped_report" where
  "run_reports [] r = ([], r)"
| "run_reports ((now, tot) # ts) r =
     (case report now tot r of
        (None, r') \<Rightarrow> run_reports ts r'
      | (Some m, r') \<Rightarrow> (case run_reports ts r' of (ms, r'') \<Rightarrow> ((now, m) # ms, r'')))"

definition reported :: "worker_log \<Rightarrow> nat" where
  "reported m = (case m of DroppedReport d _ \<Rightarrow> unat d | _ \<Rightarrow> 0)"

lemma report_cases:
  obtains "report now tot r = (None, r)" "last_total r < tot \<Longrightarrow> now < last_logged_at r + DROPPED_LOG_INTERVAL"
  | "report now tot r = (Some (DroppedReport (tot - last_total r) tot), \<lparr>last_logged_at = now, last_total = tot\<rparr>)"
    "last_total r < tot" "last_logged_at r + DROPPED_LOG_INTERVAL \<le> now"
proof (cases "last_total r < tot \<and> last_logged_at r + DROPPED_LOG_INTERVAL \<le> now")
  case True
  then have "report now tot r = (Some (DroppedReport (tot - last_total r) tot), \<lparr>last_logged_at = now, last_total = tot\<rparr>)"
    by (auto simp: report_def Let_def)
  with True that(2) show ?thesis by blast
next
  case False
  then have "report now tot r = (None, r)"
    by (auto simp: report_def Let_def DROPPED_LOG_INTERVAL_def not_le order_less_le)
  moreover have "last_total r < tot \<Longrightarrow> now < last_logged_at r + DROPPED_LOG_INTERVAL" using False by simp
  ultimately show ?thesis using that(1) by blast
qed

lemma run_reports_spec:
  assumes "run_reports ts r = (ms, r')"
  shows "unat (last_total r) + sum_list (map (\<lambda>a. reported (snd a)) ms) = unat (last_total r') \<and>
    sorted_wrt (\<lambda>a b. fst a + DROPPED_LOG_INTERVAL \<le> fst b) ms \<and>
    (\<forall>a \<in> set ms. last_logged_at r + DROPPED_LOG_INTERVAL \<le> fst a \<and> 0 < reported (snd a))"
  using assms
proof (induction ts arbitrary: r ms)
  case (Cons t ts)
  obtain now tot where t: "t = (now, tot)" by (cases t)
  show ?case
  proof (cases rule: report_cases [of now tot r])
    case 1
    then show ?thesis using Cons t by simp
  next
    case 2
    let ?r = "\<lparr>last_logged_at = now, last_total = tot\<rparr>"
    obtain ms' where ms: "run_reports ts ?r = (ms', r')"
      "ms = (now, DroppedReport (tot - last_total r) tot) # ms'"
      using Cons.prems t 2(1) by (auto split: prod.splits)
    have d: "unat (tot - last_total r) = unat tot - unat (last_total r)" "unat (last_total r) < unat tot"
      using 2(2) by (simp_all add: unat_sub word_less_nat_alt order_less_imp_le)
    from Cons.IH [OF ms(1)] have IH: "unat tot + sum_list (map (\<lambda>a. reported (snd a)) ms') = unat (last_total r')"
      "sorted_wrt (\<lambda>a b. fst a + DROPPED_LOG_INTERVAL \<le> fst b) ms'"
      "\<forall>a \<in> set ms'. now + DROPPED_LOG_INTERVAL \<le> fst a \<and> 0 < reported (snd a)"
      by simp_all
    then have "\<forall>a \<in> set ms'. last_logged_at r + DROPPED_LOG_INTERVAL \<le> fst a"
      using 2(3) by auto
    with IH d 2(3) ms(2) show ?thesis by (auto simp: reported_def)
  qed
qed simp

text \<open>
  C38 (invariant). The report of dropped spans over any times and counter values: two messages are at
  least a minute apart (as is the first from the start), each one reports something, and the
  numbers of newly dropped spans add up to the total of the last message, so every loss that was
  logged is logged once. News that is due is not withheld.
\<close>

theorem dropped_reports_add_up:
  "unat (last_total r) + sum_list (map (\<lambda>a. reported (snd a)) (fst (run_reports ts r))) =
     unat (last_total (snd (run_reports ts r))) \<and>
   sorted_wrt (\<lambda>a b. fst a + DROPPED_LOG_INTERVAL \<le> fst b) (fst (run_reports ts r)) \<and>
   list_all (\<lambda>a. last_logged_at r + DROPPED_LOG_INTERVAL \<le> fst a \<and> 0 < reported (snd a)) (fst (run_reports ts r)) \<and>
   (fst (report now tot r) = None) = (tot \<le> last_total r \<or> now < last_logged_at r + DROPPED_LOG_INTERVAL)"
proof -
  have "fst (report now tot r) = None \<longleftrightarrow> tot \<le> last_total r \<or> now < last_logged_at r + DROPPED_LOG_INTERVAL"
  proof (cases rule: report_cases [of now tot r])
    case 1
    then show ?thesis using leI [of "last_total r" tot] by auto
  next
    case 2
    then show ?thesis by simp
  qed
  then show ?thesis
    using run_reports_spec [of ts r "fst (run_reports ts r)" "snd (run_reports ts r)"]
    by (simp add: list_all_iff)
qed

definition is_http :: "str \<Rightarrow> bool" where
  "is_http p \<longleftrightarrow> to_ascii_lowercase p \<in> {lit ''http'', lit ''http/protobuf'', lit ''http-binary''}"

lemma reload_simps:
  "wk_exporter (reload_exporter lib g w) =
     (case snd (build_exporter lib g) of None \<Rightarrow> wk_exporter w | Some x \<Rightarrow> Some x)"
  "wk_shm (reload_exporter lib g w) = wk_shm w" "wk_sent (reload_exporter lib g w) = wk_sent w"
  "wk_signals (reload_exporter lib g w) = wk_signals w"
  by (cases "build_exporter lib g"; cases "snd (build_exporter lib g)"; simp add: reload_exporter_def)+

lemma http_not_grpc: "is_http p \<Longrightarrow> to_ascii_lowercase p \<notin> {lit ''grpc'', lit ''grpc-tonic''}"
  unfolding is_http_def by (elim insertE emptyE) simp_all

lemma build_no_config: "snd (load g) = None \<Longrightarrow> snd (build_exporter lib g) = None"
  by (cases "load g") (simp add: build_exporter_def)

lemma build_ca_unreadable:
  assumes "snd (load g) = Some c" and "cfg_ca_certificate c = Some path" and "lib_read lib path = None"
    and "\<not> is_http (cfg_protocol c)"
  shows "snd (build_exporter lib g) = None"
proof -
  have "isl (build_for_protocol lib c)"
    using assms(2-4) by (simp add: build_for_protocol_def is_http_def Let_def)
  then show ?thesis
    using assms(1) by (cases "load g") (auto simp: build_exporter_def isl_def)
qed

lemma build_http_ca:
  "is_http (cfg_protocol c) \<Longrightarrow>
   build_for_protocol lib (c\<lparr>cfg_ca_certificate := ca\<rparr>) = build_for_protocol lib c"
  using http_not_grpc [of "cfg_protocol c"] by (simp add: build_for_protocol_def Let_def)



text \<open>
  The flush on shutdown of a queue of well-formed records. It returns whatever the
  clock says and whichever exports hang; what was sent since followed by what is still queued is what
  was queued; and unless it logs that it gave up, the queue is empty.
\<close>

theorem flush_delivers:
  assumes "wk_ok w" and "wk_exporter w \<noteq> None"
  shows "\<exists>w'. flush_and_shutdown lib env hangs w = Some w' \<and>
    concat (wk_sent w') @ wk_pending w' = concat (wk_sent w) @ wk_pending w \<and>
    (wk_queued w' = 0 \<or> GaveUpFlush \<in> set (wk_log w'))"
proof -
  let ?all = "concat (wk_sent w) @ wk_pending w"
  have inv: "export_inv True ?all w" using assms by (simp add: export_inv_def)
  obtain r w1 where r: "drain_queue (take_chunk env) (\<lambda>spans w. (\<not> hangs spans, export_chunk lib spans w))
      deadline_passed w = Some (r, w1)" "export_inv True ?all w1"
    using flush_run.returns [OF inv, of env hangs lib] by blast
  have "r = Some Empty \<longrightarrow> wk_queued w1 = 0" using flush_run.empties [OF inv] r(1) by blast
  moreover obtain x where "wk_exporter w1 = Some x" using r(2) by (auto simp: export_inv_def)
  ultimately show ?thesis
    using r by (auto simp: flush_and_shutdown_def Let_def export_inv_def wk_pending_def wk_queued_def)
qed

theorem flush_delivers_witness:
  "\<exists>w'. flush_and_shutdown demo_lib demo_env (\<lambda>_. True) (demo_worker demo_queue []) = Some w' \<and>
     (wk_queued w' = 0 \<or> GaveUpFlush \<in> set (wk_log w'))"
proof -
  have "wk_exporter (demo_worker demo_queue []) \<noteq> None" by (simp add: demo_worker_def)
  from flush_delivers [OF demo_worker_ok this] show ?thesis by blast
qed

end
