(* ===== verification/Extension.thy ===== *)
theory Extension
  imports Collect Worker
begin

text \<open>
  The extension's entry points (\<open>src/lib.rs\<close>, \<open>install_hooks\<close> of \<open>src/shared.rs\<close>): initialisation, the
  executor hooks around a statement, the main function of the exporter worker and the SQL function.

  A hook that was installed before is another extension's code: a function on the state that it works
  on, as is the executor's own function. Of pgrx's worker builder and of the GUC machinery only the
  calls are recorded.
\<close>

section \<open>Initialisation\<close>

datatype hook = PgOtel | Foreign nat

record hooks =
  hk_shmem_request :: "hook option"
  hk_shmem_startup :: "hook option"
  hk_executor_start :: "hook option"
  hk_executor_end :: "hook option"
  PREV_SHMEM_REQUEST_HOOK :: "hook option"
  PREV_SHMEM_STARTUP_HOOK :: "hook option"
  PREV_EXECUTOR_START :: "hook option"
  PREV_EXECUTOR_END :: "hook option"

definition install_hooks :: "hooks \<Rightarrow> hooks" where
  "install_hooks h =
     h\<lparr>PREV_SHMEM_REQUEST_HOOK := hk_shmem_request h, hk_shmem_request := Some PgOtel,
       PREV_SHMEM_STARTUP_HOOK := hk_shmem_startup h, hk_shmem_startup := Some PgOtel\<rparr>"

definition WORKER_NAME :: str where
  "WORKER_NAME = lit ''pg_otel exporter''"

text \<open>In seconds.\<close>

definition WORKER_RESTART_TIME :: nat where
  "WORKER_RESTART_TIME = 10"

datatype init_call =
    DefineGuc guc_def
  | MarkGUCPrefixReserved str
  | LoadWorker str str str nat

definition reserve_guc_prefix :: "init_call list" where
  "reserve_guc_prefix = [MarkGUCPrefixReserved (lit ''pg_otel'')]"

text \<open>\<open>Inl\<close>: the message of the error when the library is not preloaded.\<close>

definition PG_init :: "bool \<Rightarrow> hooks \<Rightarrow> str + hooks \<times> init_call list" where
  "PG_init process_shared_preload_libraries_in_progress h =
     (if \<not> process_shared_preload_libraries_in_progress
      then Inl (lit ''this extension must be loaded via shared_preload_libraries.'')
      else
        let calls = map DefineGuc define_gucs @ reserve_guc_prefix;
            h = install_hooks h;
            calls = calls @ [LoadWorker WORKER_NAME (lit ''background_worker_main'') (lit ''pg_otel'') WORKER_RESTART_TIME];
            h = h\<lparr>PREV_EXECUTOR_START := hk_executor_start h, hk_executor_start := Some PgOtel\<rparr>;
            h = h\<lparr>PREV_EXECUTOR_END := hk_executor_end h, hk_executor_end := Some PgOtel\<rparr>
        in Inr (h, calls))"

section \<open>The hooks around a statement\<close>

text \<open>
  The start hook on the version's request state \<open>'r\<close>, the descriptor's null pointer being \<open>None\<close>.
\<close>

definition my_executor_start_hook ::
    "('i, 'q) world \<Rightarrow> ('r \<Rightarrow> 'r) \<Rightarrow> ('r \<Rightarrow> 'r) \<Rightarrow> ('r option \<Rightarrow> i32 \<Rightarrow> 'r option) option \<Rightarrow>
     ('r option \<Rightarrow> i32 \<Rightarrow> 'r option) \<Rightarrow> 'r option \<Rightarrow> i32 \<Rightarrow> 'r option" where
  "my_executor_start_hook w before_start after_start prev standard_ExecutorStart query_desc eflags =
     (let q = request_instrumentation w before_start eflags query_desc;
          q = (case prev of Some prev \<Rightarrow> prev q eflags | None \<Rightarrow> standard_ExecutorStart q eflags)
      in complete_instrumentation_request w after_start eflags q)"

definition my_executor_end_hook ::
    "('i, 'q) world \<Rightarrow> (('i, 'q) backend \<Rightarrow> ('i, 'q) backend) option \<Rightarrow> (('i, 'q) backend \<Rightarrow> ('i, 'q) backend) \<Rightarrow>
     ('i, 'q) backend \<Rightarrow> ((caught + unit) \<times> ('i, 'q) backend) option" where
  "my_executor_end_hook w prev standard_ExecutorEnd b =
     map_option (\<lambda>(res, b).
       (res, case res of
          Inl e \<Rightarrow> b
        | Inr _ \<Rightarrow> (case prev of Some prev \<Rightarrow> prev b | None \<Rightarrow> standard_ExecutorEnd b)))
       (collect_spans w b)"

section \<open>The worker and the SQL function\<close>

text \<open>
  The main function: the worker is registered, runs, and leaves with a log line and an exit status,
  whose callbacks remove the registration. \<open>Inr\<close>: still running.
\<close>

definition background_worker_main ::
    "'x otel_lib \<Rightarrow> pg_env \<Rightarrow> gucs \<Rightarrow> nat \<Rightarrow> (span_data list \<Rightarrow> bool) \<Rightarrow> iteration list \<Rightarrow> 'x worker \<Rightarrow>
     (str \<times> nat \<times> 'x worker + 'x worker \<times> dropped_report) option" where
  "background_worker_main lib env g now hangs its w =
     map_option
       (\<lambda>res. case res of
          Inl w \<Rightarrow> Inl (WORKER_NAME @ lit '' is shutting down'', 1, w\<lparr>wk_shm := unregister_worker_on_exit (wk_shm w)\<rparr>)
        | Inr running \<Rightarrow> Inr running)
       (background_worker_run lib env g now hangs its (w\<lparr>wk_shm := register_worker env (wk_shm w)\<rparr>))"

definition pg_otel_dropped_spans :: "shm \<Rightarrow> i64" where
  "pg_otel_dropped_spans s = u64_to_i64 (dropped_spans_total s)"

definition demo_alloc :: "nat \<Rightarrow> nat \<Rightarrow> i32 \<Rightarrow> bool \<Rightarrow> instrumentation" where
  "demo_alloc cxt n options async =
     \<lparr>im_need_timer = bit options 0, im_running = False, im_starttime = 0, im_startup = 0, im_total = 0,
      im_ntuples = 0, im_ntuples2 = 0, im_nloops = 0, im_nfiltered1 = 0, im_nfiltered2 = 0\<rparr>"

definition demo_request :: request18 where
  "demo_request =
     \<lparr>rq18_instrument_options = 2, rq18_totaltime = None, rq18_es_query_cxt = None, rq18_current_context = 1\<rparr>"

section \<open>Properties\<close>

lemma untraced_collection:
  assumes "\<not> tracing_enabled_here w \<or> (\<exists>q flags. bk_desc b = Some q \<and> qd_top_eflags q = Some flags \<and> is_explain_only flags) \<or>
    bk_desc b = None"
  shows "collect_spans w b = Some (Inr (), b)"
proof -
  have "collect_spans_unguarded w b = Some (Inr (), b)"
    using assms by (auto simp: collect_spans_unguarded_def split: option.splits)
  from collect_spans_returned [OF this] show ?thesis by simp
qed

text \<open>
  C23 (equivalence). A statement that is not traced runs as if the extension were not there: when tracing is
  disabled, in a parallel worker and for EXPLAIN without ANALYZE, the hooks do exactly what the previous
  hook, or else the executor's own function, does, with the descriptor and all of the backend's state
  untouched.
\<close>

theorem untraced_statement_untouched:
  assumes "get_min_duration_ms (wd_gucs w) = - 1 \<or> 0 \<le> sint (wd_parallel_worker_number w) \<or> bit eflags 0"
    and "bk_desc b = Some q" and "qd_top_eflags q = Some eflags"
  shows "my_executor_start_hook w before_start after_start prev_start standard_start query_desc eflags =
      (case prev_start of Some prev \<Rightarrow> prev | None \<Rightarrow> standard_start) query_desc eflags \<and>
    my_executor_end_hook w prev_end standard_end b =
      Some (Inr (), (case prev_end of Some prev \<Rightarrow> prev | None \<Rightarrow> standard_end) b)"
proof -
  have explain: "is_explain_only eflags \<longleftrightarrow> bit eflags 0"
    by (simp add: is_explain_only_def EXEC_FLAG_EXPLAIN_ONLY_def and_one_eq one_and_eq bit_0 odd_iff_mod_2_eq_one)
  have off: "is_explain_only eflags \<or> \<not> tracing_enabled_here w"
    using assms(1) unfolding explain by (auto simp: tracing_enabled_here_def tracing_enabled_def)
  then have "collect_spans w b = Some (Inr (), b)"
    using assms(2,3) by (intro untraced_collection) auto
  then have "my_executor_end_hook w prev_end standard_end b =
      Some (Inr (), (case prev_end of Some prev \<Rightarrow> prev | None \<Rightarrow> standard_end) b)"
    by (simp add: my_executor_end_hook_def split: option.splits)
  moreover have "\<not> wants_instrumentation w x eflags" for x using off by (auto simp: wants_instrumentation_def)
  then have "my_executor_start_hook w before_start after_start prev_start standard_start query_desc eflags =
      (case prev_start of Some prev \<Rightarrow> prev | None \<Rightarrow> standard_start) query_desc eflags"
    by (simp add: my_executor_start_hook_def request_instrumentation_def complete_instrumentation_request_def
        split: option.splits)
  ultimately show ?thesis by simp
qed

lemma untraced_statement_untouched_witness:
  "my_executor_start_hook ((demo_world (\<lambda>p. None))\<lparr>wd_parallel_worker_number := 3\<rparr>) pg19_before_start pg19_after_start
      None (\<lambda>q eflags. q) (Some \<lparr>rq_query_instr_options = 0, rq_instrument_options = 2\<rparr>) 0 =
      (case None of Some prev \<Rightarrow> prev | None \<Rightarrow> (\<lambda>q eflags. q)) (Some \<lparr>rq_query_instr_options = 0, rq_instrument_options = 2\<rparr>) (0 :: i32) \<and>
    my_executor_end_hook ((demo_world (\<lambda>p. None))\<lparr>wd_parallel_worker_number := 3\<rparr>) None (\<lambda>b. b\<lparr>bk_desc := None\<rparr>) demo_backend =
      Some (Inr (), (case None of Some prev \<Rightarrow> prev | None \<Rightarrow> (\<lambda>b. b\<lparr>bk_desc := None\<rparr>)) demo_backend)"
  by (rule untraced_statement_untouched [where q = demo_desc]) (simp_all add: demo_backend_def demo_desc_def)

text \<open>
  On PostgreSQL 18 a traced statement always gets a timer: the executor starts with the
  requested flags besides those that are set, and afterwards the statement has the timer that somebody
  allocated meanwhile or a new one that measures everything, allocated in the statement's own memory
  context; the current context is the one that the executor left.
\<close>

theorem start_hook_times_statement:
  assumes "tracing_enabled_here w" and "\<not> is_explain_only eflags"
    and "(case prev of Some prev \<Rightarrow> prev | None \<Rightarrow> standard) (Some (pg18_before_start p)) eflags = Some p'"
    and "rq18_es_query_cxt p' = Some cxt"
  shows "my_executor_start_hook w pg18_before_start (pg18_after_start InstrAlloc) prev standard (Some p) eflags =
      Some (p'\<lparr>rq18_totaltime := Some (case rq18_totaltime p' of
        Some i \<Rightarrow> i | None \<Rightarrow> InstrAlloc cxt 1 INSTRUMENT_ALL False)\<rparr>) \<and>
    (\<forall>n. bit (rq18_instrument_options (pg18_before_start p)) n \<longleftrightarrow> bit (rq18_instrument_options p) n \<or> n = 0 \<or> n = 2)"
proof -
  have "wants_instrumentation w False eflags" using assms(1,2) by (simp add: wants_instrumentation_def)
  then have "my_executor_start_hook w pg18_before_start (pg18_after_start InstrAlloc) prev standard (Some p) eflags =
      Some (pg18_after_start InstrAlloc p')"
    using assms(3)
    by (simp add: my_executor_start_hook_def request_instrumentation_def complete_instrumentation_request_def Let_def
        split: option.splits)
  then show ?thesis using request_only_adds [of _ p'] request_only_adds [of _ p] assms(4)
    by (auto split: option.splits)
qed

lemma start_hook_times_statement_witness:
  "\<exists>q. my_executor_start_hook (demo_world (\<lambda>p. None)) pg18_before_start (pg18_after_start demo_alloc) None
      (\<lambda>q eflags. map_option (\<lambda>p. p\<lparr>rq18_es_query_cxt := Some 5\<rparr>) q) (Some demo_request) 0 = Some q \<and>
    rq18_totaltime q = Some (demo_alloc 5 1 INSTRUMENT_ALL False)"
proof -
  have "tracing_enabled_here (demo_world (\<lambda>p. None))" by (simp add: tracing_enabled_here_def tracing_enabled_def demo_world_def get_min_duration_ms_def)
  moreover have "\<not> is_explain_only 0" by code_simp
  ultimately show ?thesis
    using start_hook_times_statement [where w = "demo_world (\<lambda>p. None)" and eflags = 0 and prev = None and p = demo_request
        and standard = "\<lambda>q eflags. map_option (\<lambda>p. p\<lparr>rq18_es_query_cxt := Some 5\<rparr>) q" and cxt = 5 and InstrAlloc = demo_alloc
        and p' = "(pg18_before_start demo_request)\<lparr>rq18_es_query_cxt := Some 5\<rparr>"]
    by (simp add: pg18_before_start_def demo_request_def)
qed

text \<open>
  The statement always ends: unless the collection raises a query cancel again, the end hook
  calls the previous hook, or else the executor's own function, after it, in the memory context and with
  the message levels that the statement had.
\<close>

theorem statement_always_ends:
  assumes "my_executor_end_hook w prev_end standard_end b = Some (res, b')"
  shows "case res of
      Inl e \<Rightarrow> er_sqlerrcode (caught_report e) = lit ''57014''
    | Inr _ \<Rightarrow> \<exists>b1. b' = (case prev_end of Some prev \<Rightarrow> prev | None \<Rightarrow> standard_end) b1 \<and>
        bk_context b1 = bk_context b \<and> bk_levels b1 = bk_levels b"
proof -
  obtain b1 where c: "collect_spans w b = Some (res, b1)"
    and b': "b' = (case res of Inl e \<Rightarrow> b1
      | Inr _ \<Rightarrow> (case prev_end of Some prev \<Rightarrow> prev b1 | None \<Rightarrow> standard_end b1))"
    using assms by (auto simp: my_executor_end_hook_def)
  from collect_spans_contained [OF c] b' show ?thesis
    by (auto simp: ERRCODE_QUERY_CANCELED_def split: sum.splits option.splits)
qed

lemma statement_always_ends_witness:
  "\<exists>b1. demo_backend\<lparr>bk_desc := None, bk_failure_logged := True, bk_log := [LogFailure (lit ''invalid input'')]\<rparr> = b1\<lparr>bk_desc := None\<rparr> \<and>
    bk_context b1 = bk_context demo_backend \<and> bk_levels b1 = bk_levels demo_backend"
proof -
  have "my_executor_end_hook (demo_world (\<lambda>p. Some (demo_error, 9))) None (\<lambda>b. b\<lparr>bk_desc := None\<rparr>) demo_backend =
      Some (Inr (), demo_backend\<lparr>bk_desc := None, bk_failure_logged := True, bk_log := [LogFailure (lit ''invalid input'')]\<rparr>)"
    by (simp add: my_executor_end_hook_def demo_contained)
  from statement_always_ends [OF this] show ?thesis by simp
qed

end
