(* ===== verification/Lifecycle.thy ===== *)
theory Lifecycle
  imports Extension
begin

text \<open>
  The life of the exporter worker from its registration to its exit (\<open>background_worker_main\<close> of
  \<open>src/lib.rs\<close> around \<open>background_worker_run\<close> of \<open>src/worker.rs\<close>), over any sequence of iterations.
\<close>

section \<open>What the worker leaves alone\<close>

text \<open>The header without the ring's state, and the worker's slot in it.\<close>

definition header_frame :: "shm \<Rightarrow> shm_header option" where
  "header_frame s = map_option (\<lambda>h. h\<lparr>header_state := ring_state_new\<rparr>) (shm_hdr s)"

definition worker_slot :: "shm \<Rightarrow> i32 option" where
  "worker_slot s = map_option worker_proc_number (shm_hdr s)"

lemma frame_fields:
  assumes "header_frame s' = header_frame s"
  shows "worker_slot s' = worker_slot s" "dropped_spans_total s' = dropped_spans_total s"
proof -
  have "worker_slot t = map_option worker_proc_number (header_frame t)" for t
    by (simp add: worker_slot_def header_frame_def option.map_comp o_def)
  moreover have "dropped_spans_total t = (case header_frame t of None \<Rightarrow> 0 | Some h \<Rightarrow> dropped_spans h)" for t
    by (simp add: dropped_spans_total_def header_frame_def split: option.splits)
  ultimately show "worker_slot s' = worker_slot s" "dropped_spans_total s' = dropped_spans_total s"
    using assms by simp_all
qed

lemma with_ring_frame: "with_ring env f s = Some (x, s') \<Longrightarrow> header_frame s' = header_frame s"
  by (cases "shm_hdr s"; cases "lock_acquire s"; cases "f (shm_ring (the (shm_hdr s)) (shm_data s))")
    (auto simp: with_ring_def header_frame_def put_ring_def lock_acquire_def call_def split: option.splits if_splits)

lemma take_chunk_frame:
  assumes "take_chunk env w = Some (c, w')"
  shows "header_frame (wk_shm w') = header_frame (wk_shm w)"
proof -
  obtain res buffer s where s: "shared_drain_into env [] CHUNK_BYTES (wk_shm w) = Some (res, buffer, s)"
    using assms by (auto simp: take_chunk_def)
  have "header_frame s = header_frame (wk_shm w)"
    using s unfolding shared_drain_into_def by (auto split: option.splits dest: with_ring_frame)
  moreover have "wk_shm w' = s" using assms s
    by (cases res) (auto simp: take_chunk_def Let_def split: corrupted.splits if_splits prod.splits)
  ultimately show ?thesis by simp
qed

text \<open>What every part of a drain loop keeps, the loop keeps.\<close>

lemma drain_queue_keeps:
  assumes "drain_queue nxt handle stop s = Some (r, s')" and "P s"
    and "\<And>s. P s \<Longrightarrow> P (snd (stop s))" and "\<And>s c s1. P s \<Longrightarrow> nxt s = Some (c, s1) \<Longrightarrow> P s1"
    and "\<And>s c. P s \<Longrightarrow> P (snd (handle c s))"
  shows "P s'"
proof -
  let ?Q = "\<lambda>nxt handle stop s y. P s \<longrightarrow> (\<forall>s. P s \<longrightarrow> P (snd (stop s))) \<longrightarrow>
    (\<forall>s c s1. P s \<longrightarrow> nxt s = Some (c, s1) \<longrightarrow> P s1) \<longrightarrow> (\<forall>s c. P s \<longrightarrow> P (snd (handle c s))) \<longrightarrow> P (snd y)"
  have "?Q nxt handle stop s (r, s')"
  proof (rule drain_queue.raw_induct [of ?Q, OF _ assms(1)], intro impI)
    fix drain nxt handle stop s y
    assume IH: "\<And>nxt handle stop s y. drain nxt handle stop s = Some y \<Longrightarrow> ?Q nxt handle stop s y"
      and run: "(case stop s of (stop1, s1) \<Rightarrow> if stop1 then Some (Some Interrupted, s1)
        else Option.bind (nxt s1) (\<lambda>(chunk, s2). if chunk = [] then Some (Some Empty, s2)
          else case handle chunk s2 of (completed, s3) \<Rightarrow> if completed then drain nxt handle stop s3 else Some (None, s3))) = Some y"
      and P: "P s" and stop: "\<forall>s. P s \<longrightarrow> P (snd (stop s))"
      and nx: "\<forall>s c s1. P s \<longrightarrow> nxt s = Some (c, s1) \<longrightarrow> P s1" and hd: "\<forall>s c. P s \<longrightarrow> P (snd (handle c s))"
    obtain b s1 where st: "stop s = (b, s1)" by (cases "stop s")
    have s1: "P s1" using P stop st by (metis snd_conv)
    show "P (snd y)"
    proof (cases b)
      case True
      then show ?thesis using run st s1 by auto
    next
      case False
      then obtain c s2 where c: "nxt s1 = Some (c, s2)" using run st by (auto simp: bind_eq_Some_conv)
      then have s2: "P s2" using nx s1 by blast
      obtain d s3 where h: "handle c s2 = (d, s3)" by (cases "handle c s2")
      then have s3: "P s3" using hd s2 by (metis snd_conv)
      show ?thesis
      proof (cases "c \<noteq> [] \<and> d")
        case True
        then have "drain nxt handle stop s3 = Some y" using run st c h False by auto
        with IH stop nx hd s3 show ?thesis by blast
      next
        case c0: False
        then show ?thesis using run st c h False s2 s3 by (auto split: if_splits)
      qed
    qed
  qed
  with assms(2-5) show ?thesis by (metis snd_conv)
qed

lemma export_chunk_frame: "header_frame (wk_shm (export_chunk lib c w)) = header_frame (wk_shm w)"
  by simp

lemma export_pending_frame:
  assumes "export_pending lib env w = Some (r, w')"
  shows "header_frame (wk_shm w') = header_frame (wk_shm w)"
proof -
  let ?P = "\<lambda>v :: 'a worker. header_frame (wk_shm v) = header_frame (wk_shm w)"
  show ?thesis
    using assms unfolding export_pending_def
    by (rule drain_queue_keeps [where P = ?P]) (auto simp: signal_arrived_def Let_def dest: take_chunk_frame)
qed

lemma flush_frame:
  assumes "drain_queue (take_chunk env) (\<lambda>spans w. (\<not> hangs spans, export_chunk lib spans w)) deadline_passed w = Some (r, w')"
  shows "header_frame (wk_shm w') = header_frame (wk_shm w)"
proof -
  let ?P = "\<lambda>v :: 'a worker. header_frame (wk_shm v) = header_frame (wk_shm w)"
  show ?thesis
    using assms by (rule drain_queue_keeps [where P = ?P]) (auto simp: flush_stop dest: take_chunk_frame)
qed

section \<open>The main loop\<close>

text \<open>
  The worker that set out with \<open>all\<close> sent or queued and registered itself in the header \<open>f\<close>. When
  it has an exporter, it never loses it, nor a span.
\<close>

definition life_inv :: "bool \<Rightarrow> span_data list \<Rightarrow> shm_header option \<Rightarrow> 'x worker \<Rightarrow> bool" where
  "life_inv has all f w \<longleftrightarrow>
     wk_ok w \<and> header_frame (wk_shm w) = f \<and>
     (has \<longrightarrow> wk_exporter w \<noteq> None \<and> concat (wk_sent w) @ wk_pending w = all)"

lemma life_inv_same:
  assumes "life_inv has all f w" and "wk_shm w' = wk_shm w" and "wk_sent w' = wk_sent w"
    and "wk_exporter w \<noteq> None \<Longrightarrow> wk_exporter w' \<noteq> None"
  shows "life_inv has all f w'"
  using assms by (auto simp: life_inv_def wk_ok_def wk_pending_def)

lemma life_export_pending:
  assumes inv: "life_inv has all f w"
  shows "\<exists>out w'. export_pending lib env w = Some (Some out, w') \<and> life_inv has all f w'"
proof -
  let ?has = "wk_exporter w \<noteq> None"
  let ?all = "if ?has then concat (wk_sent w) @ wk_pending w else concat (wk_sent w)"
  have e: "export_inv ?has ?all w" using inv by (simp add: export_inv_def life_inv_def)
  obtain r w' where r: "export_pending lib env w = Some (r, w')" "export_inv ?has ?all w'"
    using export_run.returns [OF e, of env lib] by (auto simp: export_pending_def)
  obtain out where out: "r = Some out"
    using export_run.outcome [OF e r(1) [unfolded export_pending_def]] by (cases r) auto
  have "life_inv has all f w'" using inv r(2) export_pending_frame [OF r(1)]
    by (auto simp: life_inv_def export_inv_def split: if_splits)
  with r(1) out show ?thesis by blast
qed

lemma life_iteration:
  assumes inv: "life_inv has all f (fst wr)"
  shows "\<exists>res. worker_iteration lib env it wr = Some res \<and>
    (case res of Inl w' \<Rightarrow> life_inv has all f w' | Inr wr' \<Rightarrow> life_inv has all f (fst wr'))"
proof -
  obtain w r where wr: "wr = (w, r)" by (cases wr)
  define w1 where "w1 = (if \<not> any_signal (wk_signals w) \<and> \<not> it_wait_latch it
    then w\<lparr>wk_signals := (wk_signals w)\<lparr>sigterm := True\<rparr>\<rparr> else w)"
  define w2 where "w2 = poll w1"
  define w3 where "w3 = (if sighup (wk_signals w2)
    then reload_exporter lib (it_gucs it) (w2\<lparr>wk_signals := (wk_signals w2)\<lparr>sighup := False\<rparr>\<rparr>) else w2)"
  have w2: "life_inv has all f w2" using inv by (rule life_inv_same) (simp_all add: w1_def w2_def wr)
  then have w3: "life_inv has all f w3"
    by (rule life_inv_same) (auto simp: w3_def reload_simps split: option.splits)
  obtain out w4 where e: "export_pending lib env w3 = Some (Some out, w4)" "life_inv has all f w4"
    using life_export_pending [OF w3] by blast
  obtain r' w5 where l: "log_if_due (it_now it) (dropped_spans_total (wk_shm w4)) r w4 = (r', w5)" by fastforce
  have w5: "life_inv has all f w5"
    using e(2) by (rule life_inv_same) (use l in \<open>auto simp: log_if_due_def split: prod.splits option.splits\<close>)
  have "worker_iteration lib env it wr = Some (if sigterm (wk_signals w2) then Inl w2 else Inr (w5, r'))"
    unfolding worker_iteration_def wr prod.case w1_def [symmetric] Let_def w2_def [symmetric] w3_def [symmetric]
    using e(1) l by simp
  with w2 w5 show ?thesis by simp
qed

lemma life_loop:
  "life_inv has all f (fst wr) \<Longrightarrow> \<exists>res. worker_loop lib env its wr = Some res \<and>
    (case res of Inl w' \<Rightarrow> life_inv has all f w' | Inr wr' \<Rightarrow> life_inv has all f (fst wr'))"
proof (induction its arbitrary: wr)
  case (Cons it its)
  obtain res where res: "worker_iteration lib env it wr = Some res"
    "case res of Inl w' \<Rightarrow> life_inv has all f w' | Inr wr' \<Rightarrow> life_inv has all f (fst wr')"
    using life_iteration [OF Cons.prems, of lib env it] by blast
  then show ?case using Cons.IH by (cases res) auto
qed simp

lemma life_flush:
  assumes inv: "life_inv has all f w"
  shows "\<exists>w'. flush_and_shutdown lib env hangs w = Some w' \<and> life_inv has all f w' \<and>
    (wk_queued w' = 0 \<or> GaveUpFlush \<in> set (wk_log w'))"
proof -
  let ?has = "wk_exporter w \<noteq> None"
  let ?all = "if ?has then concat (wk_sent w) @ wk_pending w else concat (wk_sent w)"
  have e: "export_inv ?has ?all w" using inv by (simp add: export_inv_def life_inv_def)
  obtain r w1 where r: "drain_queue (take_chunk env) (\<lambda>spans w. (\<not> hangs spans, export_chunk lib spans w))
      deadline_passed w = Some (r, w1)" "export_inv ?has ?all w1"
    using flush_run.returns [OF e, of env hangs lib] by blast
  have q: "r = Some Empty \<longrightarrow> wk_queued w1 = 0" using flush_run.empties [OF e] r(1) by blast
  have w1: "life_inv has all f w1" using inv r(2) flush_frame [OF r(1)]
    by (auto simp: life_inv_def export_inv_def split: if_splits)
  define w2 where "w2 = (if r = Some Empty then w1 else wlog [GaveUpFlush] w1)"
  define w3 where "w3 = (case wk_exporter w2 of Some x \<Rightarrow> wlog (shutdown_exporter lib x) w2 | None \<Rightarrow> w2)"
  have "flush_and_shutdown lib env hangs w = Some w3"
    unfolding flush_and_shutdown_def r(1) by (cases "r = Some Empty") (simp_all add: Let_def w2_def w3_def split: option.split)
  moreover have "life_inv has all f w3"
    using w1 by (rule life_inv_same) (auto simp: w2_def w3_def split: option.splits)
  moreover have "wk_queued w3 = 0 \<or> GaveUpFlush \<in> set (wk_log w3)"
    using q by (auto simp: w2_def w3_def wk_queued_def split: option.splits)
  ultimately show ?thesis by blast
qed

section \<open>From registration to exit\<close>

lemma slot_holds:
  assumes "shm_holds s h ps"
  shows "shm_holds (s\<lparr>shm_hdr := Some (h\<lparr>worker_proc_number := n\<rparr>)\<rparr>) (h\<lparr>worker_proc_number := n\<rparr>) ps"
  using assms by (auto simp: shm_holds_def shm_ring_def)

lemma slot_items:
  assumes "shm_inv s"
  shows "shm_inv (register_worker env s)" "shm_items (register_worker env s) = shm_items s"
    "worker_slot (register_worker env s) = Some (my_proc_number env)"
    "shm_inv (unregister_worker_on_exit s)" "shm_items (unregister_worker_on_exit s) = shm_items s"
    "worker_slot (unregister_worker_on_exit s) = Some NO_WORKER"
proof -
  obtain h where h: "shm_holds s h (shm_items s)" using shm_inv_holds [OF assms] by blast
  then have hdr: "shm_hdr s = Some h" by (simp add: shm_holds_def)
  note up = slot_holds [OF h]
  from up [of "my_proc_number env", THEN shm_holds_items] up [of NO_WORKER, THEN shm_holds_items]
  show "shm_inv (register_worker env s)" "shm_items (register_worker env s) = shm_items s"
    "shm_inv (unregister_worker_on_exit s)" "shm_items (unregister_worker_on_exit s) = shm_items s"
    using up [of "my_proc_number env"] shm_holds_items
    by (auto simp: register_worker_def unregister_worker_on_exit_def hdr dest: shm_holds_call(1) [THEN iffD2])
  show "worker_slot (register_worker env s) = Some (my_proc_number env)"
    "worker_slot (unregister_worker_on_exit s) = Some NO_WORKER"
    by (simp_all add: worker_slot_def register_worker_def unregister_worker_on_exit_def hdr)
qed

lemma slot_life:
  assumes "life_inv has all f w" and "shm_inv s" and "shm_items s = shm_items (wk_shm w)"
  shows "wk_ok (w\<lparr>wk_shm := s\<rparr>)" "wk_pending (w\<lparr>wk_shm := s\<rparr>) = wk_pending w" "wk_queued (w\<lparr>wk_shm := s\<rparr>) = wk_queued w"
  using assms by (simp_all add: life_inv_def wk_ok_def wk_pending_def wk_queued_def)



end
