(* ===== verification/Pipeline.thy ===== *)
theory Pipeline
  imports Lifecycle
begin

text \<open>
  The way of a statement's spans from the backend to the exporter: statements that end in any backends
  and the chunks of the worker, in any order, on the one queue in shared memory.

  A step is a whole collection (\<open>collect_spans\<close>; all that it does to shared memory is one publication
  at its end), one chunk that the worker takes and exports, a poll of its signals or a reload of its
  settings.
\<close>

section \<open>Steps\<close>

text \<open>
  What a backend brings along: settings in range, identifiers of their types' length, named nodes, and
  fewer than \<open>2 ^ 63\<close> bytes through the queue so far. Any call may raise an error and any statement may
  be disabled, unsampled or too fast.
\<close>

definition otel_typed :: "otel \<Rightarrow> bool" where
  "otel_typed ot \<longleftrightarrow>
     (\<forall>s. has_traceparent_shape (trim s) \<longrightarrow>
        length (cx_trace_id (ot_extract ot (extractor_get s))) = 16 \<and> length (cx_span_id (ot_extract ot (extractor_get s))) = 8)"

definition statement_ok :: "('i, 'q) world \<Rightarrow> ('i, 'q) backend \<Rightarrow> bool" where
  "statement_ok w b \<longleftrightarrow>
     version_layer (wd_compat w) \<and> gucs_ok (wd_gucs w) \<and> otel_typed (wd_otel w) \<and> 0 < holdoff_count (wd_env w) \<and>
     (case shm_hdr (bk_shm b) of None \<Rightarrow> False | Some h \<Rightarrow> unat (tail (header_state h)) < 2 ^ 63) \<and>
     (case bk_desc b of
        None \<Rightarrow> True
      | Some q \<Rightarrow> \<forall>(e, n) \<in> set (shown_nodes (wd_compat w) (qd_planstate q)).
          str_ok (si_type_name (ps_info n)) \<and> pred_option str_ok (Option.bind e ed_subplan_name))"

inductive pipe_step :: "'x otel_lib \<Rightarrow> 'x worker \<Rightarrow> (('i, 'q) world \<times> ('i, 'q) backend) list \<Rightarrow> 'x worker \<Rightarrow> bool"
  for lib :: "'x otel_lib" where
  statement: "statement_ok w b \<Longrightarrow> bk_shm b = wk_shm wk \<Longrightarrow> collect_spans w b = Some (res, b') \<Longrightarrow>
      pipe_step lib wk [(w, b)] (wk\<lparr>wk_shm := bk_shm b'\<rparr>)"
| chunk: "take_chunk env wk = Some (c, wk') \<Longrightarrow>
      pipe_step lib wk [] (if c = [] then wk' else export_chunk lib c wk')"
| polled: "pipe_step lib wk [] (poll wk)"
| reload: "pipe_step lib wk [] (reload_exporter lib g wk)"

text \<open>A run from \<open>wk0\<close> with the statements that ended in it.\<close>

inductive pipe_run :: "'x otel_lib \<Rightarrow> 'x worker \<Rightarrow> (('i, 'q) world \<times> ('i, 'q) backend) list \<Rightarrow> 'x worker \<Rightarrow> bool"
  for lib :: "'x otel_lib" and wk0 :: "'x worker" where
  start: "pipe_run lib wk0 [] wk0"
| step: "pipe_run lib wk0 es wk \<Longrightarrow> pipe_step lib wk es' wk' \<Longrightarrow> pipe_run lib wk0 (es @ es') wk'"

inductive_cases pipe_stepE: "pipe_step lib wk es wk'"

section \<open>Published statements\<close>

text \<open>The spans of a traced statement with its own span at the end.\<close>

definition statement_of :: "('i, 'q) world \<Rightarrow> ('i, 'q) backend \<Rightarrow> span_record list \<Rightarrow> bool" where
  "statement_of w b ss \<longleftrightarrow>
     (\<exists>q total_ns parent r spans s.
        traced w b q total_ns parent r \<and> statement_spans w total_ns parent spans s \<and> ss = spans @ [s])"

text \<open>
  Nothing stands in the way of a traced statement: Postgres raises no error, the generator gives enough
  identifiers, and every node has its plan.
\<close>

definition reliable :: "('i, 'q) world \<Rightarrow> ('i, 'q) backend \<Rightarrow> bool" where
  "reliable w b \<longleftrightarrow>
     (\<forall>p. wd_raises w p = None) \<and>
     (\<exists>q total_ns parent r. traced w b q total_ns parent r \<and>
        get_max_plan_spans (wd_gucs w) < span_ids_left r \<and>
        (\<forall>(e, n) \<in> set (shown_nodes (wd_compat w) (qd_planstate q)). si_plan (ps_info n) \<noteq> None))"

text \<open>
  What became of a statement: nothing was published, or its spans were, and met room or a full queue.
  Then what the exporter gets of it and what is counted as dropped.
\<close>

type_synonym outcome = "(span_record list \<times> published) option"

fun outcome_of :: "('i, 'q) world \<times> ('i, 'q) backend \<Rightarrow> outcome \<Rightarrow> bool" where
  "outcome_of (w, b) None = (\<not> reliable w b)"
| "outcome_of (w, b) (Some (ss, out)) = statement_of w b ss"

fun delivered :: "outcome \<Rightarrow> span_data list" where
  "delivered None = []"
| "delivered (Some (ss, Queued)) = map (\<lambda>s. span_data_of (clamp_span s)) (filter span_fits ss)"
| "delivered (Some (ss, Dropped)) = []"

fun lost :: "outcome \<Rightarrow> nat" where
  "lost None = 0"
| "lost (Some (ss, Queued)) = length (filter (\<lambda>s. \<not> span_fits s) ss)"
| "lost (Some (ss, Dropped)) = length ss"

definition pipe_accounts :: "'x worker \<Rightarrow> outcome list \<Rightarrow> 'x worker \<Rightarrow> bool" where
  "pipe_accounts wk0 stmts wk \<longleftrightarrow>
     concat (wk_sent wk) @ wk_pending wk = concat (wk_sent wk0) @ wk_pending wk0 @ concat (map delivered stmts) \<and>
     dropped_spans_total (wk_shm wk) = dropped_spans_total (wk_shm wk0) + word_of_nat (sum_list (map lost stmts))"

lemma pipe_accounts_start: "pipe_accounts wk [] wk"
  by (simp add: pipe_accounts_def)

lemma pipe_accounts_trans:
  "pipe_accounts wk0 xs wk1 \<Longrightarrow> pipe_accounts wk1 ys wk2 \<Longrightarrow> pipe_accounts wk0 (xs @ ys) wk2"
  by (simp add: pipe_accounts_def)

lemma decide_parent_ids:
  assumes "otel_typed ot" and "decide_parent ot guc txt r = Some (Some (Trace p, r'))"
  shows "length (pc_trace_id p) = 16 \<and> length (pc_span_id p) = 8"
proof -
  have parse: "parse_traceparent ot s = Some c \<Longrightarrow> length (cx_trace_id c) = 16 \<and> length (cx_span_id c) = 8" for s c
    using assms(1) by (auto simp: parse_traceparent_def otel_typed_def Let_def split: if_splits)
  have found: "find_map (parse_traceparent ot) xs = Some c \<Longrightarrow> length (cx_trace_id c) = 16 \<and> length (cx_span_id c) = 8" for xs c
    by (induction xs) (auto split: option.splits dest: parse)
  have comments: "traceparent_from_comments ot t = Some (Some c) \<Longrightarrow> length (cx_trace_id c) = 16 \<and> length (cx_span_id c) = 8" for t c
    by (auto simp: traceparent_from_comments_def split: if_splits option.splits dest: found)
  show ?thesis
    using assms(2)
    by (auto simp: decide_parent_def from_remote_def new_root_def SPAN_ID_INVALID_def bind_eq_Some_conv
        split: option.splits if_splits dest: parse comments random_trace_id_valid)
qed

section \<open>One step\<close>

lemma published_statement_typed:
  assumes p: "published_statement w (q\<lparr>qd_timer := timer\<rparr>) total_ns parent r spans s"
    and ids: "length (pc_trace_id parent) = 16" "length (pc_span_id parent) = 8"
    and names: "\<forall>(e, n) \<in> set (shown_nodes (wd_compat w) (qd_planstate q)).
      str_ok (si_type_name (ps_info n)) \<and> pred_option str_ok (Option.bind e ed_subplan_name)"
  shows "list_all span_typed (spans @ [s])"
proof -
  obtain i r1 plan r2 q' l l' where i: "random_span_id r = Some (i, r1)"
    and c: "collect_plan_spans (wd_compat w) (wd_catalog w) (qd_planstate (q\<lparr>qd_timer := timer\<rparr>)) (wd_now w - int (unat total_ns))
      \<lparr>ln_trace_id = pc_trace_id parent, ln_span_id = i, ln_end_time = wd_now w\<rparr> (get_max_plan_spans (wd_gucs w)) r1 = Some (plan, r2)"
    and f: "from_query (wd_compat w) (wd_text w) (q\<lparr>qd_timer := timer\<rparr>) (wd_now w - int (unat total_ns)) parent
      (get_query_text_mode (wd_gucs w)) i (psn_tables plan) (psn_omitted plan) l = Some (Some s, q', l')"
    and spans: "spans = psn_spans plan"
    using p unfolding published_statement_def by blast
  show ?thesis
    unfolding spans
  proof (rule spans_typed [OF c])
    show "from_query (wd_compat w) (wd_text w) (q\<lparr>qd_timer := timer\<rparr>) (wd_now w - int (unat total_ns)) parent
      (get_query_text_mode (wd_gucs w)) (ln_span_id \<lparr>ln_trace_id = pc_trace_id parent, ln_span_id = i, ln_end_time = wd_now w\<rparr>)
      (psn_tables plan) (psn_omitted plan) l = Some (Some s, q', l')" using f by simp
  qed (use ids names random_span_id_valid [OF i] in auto)
qed

lemma decodable_span_bytes:
  "list_all span_typed ss \<Longrightarrow> list_all (\<lambda>p. \<not> isl (decode_span p)) (map span_bytes ss)"
proof -
  have "decode_span (span_bytes s) = Inr (clamp_span s)" if "span_typed s" for s
    using that clamp_span_ok [of s] by (simp add: decode_span_iff span_bytes_clamp)
  then show "list_all span_typed ss \<Longrightarrow> list_all (\<lambda>p. \<not> isl (decode_span p)) (map span_bytes ss)"
    by (simp add: list_all_iff)
qed

text \<open>Publishing the spans of a statement into the queue of the worker.\<close>

lemma publish_accounts_step:
  assumes ok: "wk_ok wk" and hdr: "shm_hdr (wk_shm wk) = Some h" and typed: "list_all span_typed ss" and few: "length ss \<le> 100001"
    and tail: "unat (tail (header_state h)) < 2 ^ 63" and env: "0 < holdoff_count env"
    and p: "publish_spans env ss (wk_shm wk) = Some s"
  shows "\<exists>out. wk_ok (wk\<lparr>wk_shm := s\<rparr>) \<and> pipe_accounts wk [Some (ss, out)] (wk\<lparr>wk_shm := s\<rparr>)"
proof -
  let ?ps = "shm_items (wk_shm wk)"
  obtain h1 where h1: "shm_holds (wk_shm wk) h1 ?ps" using ok shm_inv_holds by (auto simp: wk_ok_def)
  then have h: "shm_holds (wk_shm wk) h ?ps" using hdr by (simp add: shm_holds_def)
  define qs where "qs = map span_bytes (filter span_fits ss)"
  define fits where "fits \<longleftrightarrow> length (stream qs) \<le> header_free (wk_shm wk)"
  obtain h' where h': "shm_holds s h' (if fits then ?ps @ qs else ?ps)"
    "dropped_spans h' = dropped_spans h + word_of_nat (length (filter (\<lambda>s. \<not> span_fits s) ss) + (if fits then 0 else length qs))"
    using publish_spans_holds [OF h typed few tail env] p unfolding qs_def fits_def by auto
  have items: "shm_inv s" "shm_items s = (if fits then ?ps @ qs else ?ps)" using shm_holds_items [OF h'(1)] by simp_all
  have kept: "list_all span_typed (filter span_fits ss)" using typed by (auto simp: list_all_iff)
  have dec: "list_all (\<lambda>p. \<not> isl (decode_span p)) qs" unfolding qs_def by (rule decodable_span_bytes [OF kept])
  have "wk_ok (wk\<lparr>wk_shm := s\<rparr>)" using ok items dec by (simp add: wk_ok_def)
  moreover have "wk_pending (wk\<lparr>wk_shm := s\<rparr>) = wk_pending wk @ delivered (Some (ss, if fits then Queued else Dropped))"
    using items(2) decodable_spans [OF kept] by (simp add: wk_pending_def qs_def o_def)
  moreover have "length (filter (\<lambda>s. \<not> span_fits s) ss) + (if fits then 0 else length qs) = lost (Some (ss, if fits then Queued else Dropped))"
    using sum_length_filter_compl [of span_fits ss] by (simp add: qs_def)
  with h'(2) have "dropped_spans h' = dropped_spans h + word_of_nat (lost (Some (ss, if fits then Queued else Dropped)))" by (simp only:)
  then have "dropped_spans_total s = dropped_spans_total (wk_shm wk) + word_of_nat (lost (Some (ss, if fits then Queued else Dropped)))"
    using h'(1) hdr by (simp add: dropped_spans_total_def shm_holds_def)
  ultimately show ?thesis by (intro exI [of _ "if fits then Queued else Dropped"]) (simp add: pipe_accounts_def)
qed

text \<open>A step changes the accounts by its statement, if any, and keeps the queue and the exporter.\<close>

definition pipe_ok :: "'x worker \<Rightarrow> bool" where
  "pipe_ok wk \<longleftrightarrow> wk_ok wk \<and> wk_exporter wk \<noteq> None"

lemma reliable_publishes:
  assumes w: "statement_ok w b" and shm: "shm_inv (bk_shm b)" and rel: "reliable w b" and c: "collect_spans w b = Some (res, b')"
  shows "bk_shm b' \<noteq> bk_shm b"
proof -
  obtain q total_ns parent r where q: "traced w b q total_ns parent r" "get_max_plan_spans (wd_gucs w) < span_ids_left r"
    and plans: "\<forall>(e, n) \<in> set (shown_nodes (wd_compat w) (qd_planstate q)). si_plan (ps_info n) \<noteq> None"
    and quiet: "\<forall>p. wd_raises w p = None" using rel unfolding reliable_def by blast
  have desc: "bk_desc b = Some q" using q(1) by (simp add: traced_def)
  obtain h where h: "shm_holds (bk_shm b) h (shm_items (bk_shm b))" using shm_inv_holds [OF shm] by blast
  then have tail: "unat (tail (header_state h)) < 2 ^ 63" using w by (simp add: statement_ok_def shm_holds_def)
  have ids: "length (pc_trace_id parent) = 16 \<and> length (pc_span_id parent) = 8"
    using w q(1) by (intro decide_parent_ids) (auto simp: statement_ok_def traced_def)
  have "\<forall>(e, n) \<in> set (shown_nodes (wd_compat w) (qd_planstate q)). si_plan (ps_info n) \<noteq> None \<and>
      str_ok (si_type_name (ps_info n)) \<and> pred_option str_ok (Option.bind e ed_subplan_name)"
    using w plans desc by (auto simp: statement_ok_def)
  from traced_publishes [OF _ q(1) quiet _ _ _ this q(2) h tail] w ids c show ?thesis
    by (auto simp: statement_ok_def)
qed

lemma statement_step:
  assumes ok: "pipe_ok wk" and w: "statement_ok w b" "bk_shm b = wk_shm wk" "collect_spans w b = Some (res, b')"
  shows "\<exists>out. outcome_of (w, b) out \<and> pipe_ok (wk\<lparr>wk_shm := bk_shm b'\<rparr>) \<and>
    pipe_accounts wk [out] (wk\<lparr>wk_shm := bk_shm b'\<rparr>)"
proof -
  have same: ?thesis if "bk_shm b' = wk_shm wk"
  proof -
    have "shm_inv (bk_shm b)" using ok w(2) by (simp add: pipe_ok_def wk_ok_def)
    then have "\<not> reliable w b" using reliable_publishes [OF w(1) _ _ w(3)] that w(2) by auto
    then show ?thesis using that ok by (intro exI [of _ None]) (simp add: pipe_accounts_def)
  qed
  obtain u b1 where u: "collect_spans_unguarded w b = Some (u, b1)"
    using w(3) by (auto simp: collect_spans_def Let_def split: option.splits)
  from u show ?thesis
  proof (cases rule: collect_spans_unguarded_cases)
    case quiet
    with collect_spans_returned u w(2,3) same show ?thesis by force
  next
    case (failed e p cxt)
    with u w(2,3) same show ?thesis
      by (auto simp: collect_spans_def Let_def report_collection_failure_def split: if_splits)
  next
    case (published q total_ns timer msgs guc parent r spans s)
    have b': "bk_shm b' = bk_shm b1" using collect_spans_returned u w(3) published(1) by force
    have layer: "version_layer (wd_compat w)" and gucs: "gucs_ok (wd_gucs w)" using w(1) by (simp_all add: statement_ok_def)
    obtain h where h: "shm_hdr (wk_shm wk) = Some h" "unat (tail (header_state h)) < 2 ^ 63"
      using w(1,2) by (auto simp: statement_ok_def split: option.splits)
    have ids: "length (pc_trace_id parent) = 16 \<and> length (pc_span_id parent) = 8"
      using w(1) published(9) by (intro decide_parent_ids) (simp_all add: statement_ok_def)
    have names: "\<forall>(e, n) \<in> set (shown_nodes (wd_compat w) (qd_planstate q)).
      str_ok (si_type_name (ps_info n)) \<and> pred_option str_ok (Option.bind e ed_subplan_name)"
      using w(1) published(3) by (simp add: statement_ok_def)
    have typed: "list_all span_typed (spans @ [s])"
      using published(10) ids names by (intro published_statement_typed) auto
    have st: "statement_spans w total_ns parent spans s"
      using layer published(6,10) by (rule published_statement_spans)
    have "get_max_plan_spans (wd_gucs w) \<le> 100000"
      using gucs_ranges(6,7) [OF gucs] by (simp add: get_max_plan_spans_def)
    with st have few: "length (spans @ [s]) \<le> 100001" by (simp add: statement_spans_def)
    have "traced w b q total_ns parent r"
      using published(3-9) traced_threshold [of "MIN_DURATION_MS (wd_gucs w)" "wd_parallel_worker_number w" total_ns]
      by (simp add: traced_def tracing_enabled_here_def get_min_duration_ms_def)
    with st have "statement_of w b (spans @ [s])" unfolding statement_of_def by blast
    moreover obtain out where "wk_ok (wk\<lparr>wk_shm := bk_shm b1\<rparr>)" "pipe_accounts wk [Some (spans @ [s], out)] (wk\<lparr>wk_shm := bk_shm b1\<rparr>)"
      using publish_accounts_step [OF _ h(1) typed few h(2)] ok w(1,2) published(11)
      by (auto simp: pipe_ok_def statement_ok_def)
    ultimately show ?thesis using b' ok by (intro exI [of _ "Some (spans @ [s], out)"]) (simp add: pipe_ok_def)
  qed
qed

lemma chunk_step:
  assumes ok: "pipe_ok wk" and c: "take_chunk env wk = Some (c, wk')"
  shows "pipe_ok (if c = [] then wk' else export_chunk lib c wk') \<and> pipe_accounts wk [] (if c = [] then wk' else export_chunk lib c wk')"
proof -
  have inv: "export_inv True (concat (wk_sent wk) @ wk_pending wk) wk" using ok by (simp add: export_inv_def pipe_ok_def)
  have "export_inv True (concat (wk_sent wk) @ wk_pending wk) (if c = [] then wk' else export_chunk lib c wk')"
    using export_inv_step [OF inv, of env lib] c by (auto split: if_splits)
  moreover have "dropped_spans_total (wk_shm wk') = dropped_spans_total (wk_shm wk)"
    using c by (intro frame_fields(2) take_chunk_frame)
  ultimately show ?thesis by (auto simp: export_inv_def pipe_ok_def pipe_accounts_def split: if_splits)
qed

lemma pipe_step_accounts:
  assumes ok: "pipe_ok wk" and step: "pipe_step lib wk es wk'"
  shows "\<exists>outs. list_all2 outcome_of es outs \<and> pipe_ok wk' \<and> pipe_accounts wk outs wk'"
  using step
proof (rule pipe_stepE)
  fix w b res b'
  assume "es = [(w, b)]" "wk' = wk\<lparr>wk_shm := bk_shm b'\<rparr>" "statement_ok w b" "bk_shm b = wk_shm wk" "collect_spans w b = Some (res, b')"
  moreover from this statement_step [OF ok] obtain out where "outcome_of (w, b) out" "pipe_ok wk'" "pipe_accounts wk [out] wk'" by blast
  ultimately show ?thesis by (intro exI [of _ "[out]"]) simp
next
  fix env c wk1
  assume "es = []" "wk' = (if c = [] then wk1 else export_chunk lib c wk1)" "take_chunk env wk = Some (c, wk1)"
  then show ?thesis using chunk_step [OF ok, of env c wk1 lib] by (intro exI [of _ "[]"]) simp
next
  assume "es = []" "wk' = poll wk"
  then show ?thesis using ok
    by (intro exI [of _ "[]"]) (simp add: pipe_ok_def pipe_accounts_def wk_ok_def wk_pending_def)
next
  fix g
  assume "es = []" "wk' = reload_exporter lib g wk"
  then show ?thesis using ok
    by (intro exI [of _ "[]"])
      (auto simp: pipe_ok_def pipe_accounts_def wk_ok_def wk_pending_def reload_exporter_def split: prod.splits option.splits)
qed

lemma pipe_run_accounts:
  assumes "pipe_run lib wk0 es wk" and "pipe_ok wk0"
  shows "\<exists>outs. list_all2 outcome_of es outs \<and> pipe_ok wk \<and> pipe_accounts wk0 outs wk"
  using assms
proof (induction rule: pipe_run.induct)
  case start
  then show ?case using pipe_accounts_start [of wk0] by (intro exI [of _ "[]"]) simp
next
  case (step es wk es' wk')
  then obtain xs where xs: "list_all2 outcome_of es xs" "pipe_ok wk" "pipe_accounts wk0 xs wk" by blast
  obtain ys where "list_all2 outcome_of es' ys" "pipe_ok wk'" "pipe_accounts wk ys wk'"
    using pipe_step_accounts [OF xs(2) step.hyps(2)] by blast
  with xs pipe_accounts_trans [OF xs(3)] show ?case by (intro exI [of _ "xs @ ys"]) (simp add: list_all2_appendI)
qed

section \<open>Properties\<close>


lemma shape_length: "has_traceparent_shape (trim s) \<Longrightarrow> 55 \<le> length s"
proof -
  have drop: "length (concat (dropWhile P xs)) \<le> length (concat xs)" for P and xs :: "bytes list" by (induction xs) auto
  have "length (trim s) \<le> length (concat (dropWhile is_whitespace (chars s)))"
    using drop [of is_whitespace "rev (dropWhile is_whitespace (chars s))"] by (simp add: trim_def length_concat rev_map [symmetric])
  also have "\<dots> \<le> length s" using drop [of is_whitespace "chars s"] by simp
  finally have "length (trim s) \<le> length s" .
  then show "has_traceparent_shape (trim s) \<Longrightarrow> 55 \<le> length s"
    unfolding shape_iff by (elim exE conjE) (simp add: shaped_def is_hex_def lit_def)
qed

lemma demo_otel_typed: "otel_typed demo_otel"
proof -
  have hex: "length (unhex s) = length s div 2" for s by (induction s rule: unhex.induct) simp_all
  have get: "extractor_get s (lit ''traceparent'') = Some s" for s by (simp add: extractor_get_def eq_ignore_ascii_case_def)
  show ?thesis using shape_length by (fastforce simp: otel_typed_def demo_otel_def get hex)
qed

lemma demo_statement_ok: "statement_ok (demo_world r) demo_backend"
proof -
  note demo_otel_typed
  moreover have "bk_desc demo_backend = Some demo_desc" "shm_hdr (bk_shm demo_backend) = Some (the (shm_hdr demo_shm))"
    by (simp_all add: demo_backend_def demo_shm_def)
  moreover have "wd_otel (demo_world r) = demo_otel" by (simp add: demo_world_def)
  ultimately show ?thesis using demo_state(3,4,7,8) demo_nodes [of r] by (simp add: statement_ok_def) blast
qed

lemma demo_pipe_start: "wk_ok (demo_worker demo_shm rs)" "wk_exporter (demo_worker demo_shm rs) \<noteq> None"
  "wk_shm (demo_worker demo_shm rs) = demo_shm" "wk_sent (demo_worker demo_shm rs) = []" "wk_pending (demo_worker demo_shm rs) = []"
  using shm_holds_items [OF demo_shm_holds] by (simp_all add: demo_worker_def wk_ok_def wk_pending_def)

lemma demo_pipe:
  "\<exists>b'. collect_spans (demo_world (\<lambda>p. None)) demo_backend = Some (Inr (), b') \<and>
    pipe_run demo_lib (demo_worker demo_shm []) [(demo_world (\<lambda>p. None), demo_backend)]
      (poll ((demo_worker demo_shm [])\<lparr>wk_shm := bk_shm b'\<rparr>))"
proof -
  obtain b' where b': "collect_spans (demo_world (\<lambda>p. None)) demo_backend = Some (Inr (), b')" using demo_published by blast
  have shm: "bk_shm demo_backend = wk_shm (demo_worker demo_shm [])" by (simp add: demo_backend_def demo_worker_def)
  have "pipe_step demo_lib (demo_worker demo_shm []) [(demo_world (\<lambda>p. None), demo_backend)]
      ((demo_worker demo_shm [])\<lparr>wk_shm := bk_shm b'\<rparr>)"
    using demo_statement_ok shm b' by (intro pipe_step.statement) simp_all
  from pipe_run.step [OF pipe_run.step [OF pipe_run.start this] pipe_step.polled] b' show ?thesis by auto
qed

lemma demo_reliable: "reliable (demo_world (\<lambda>p. None)) demo_backend"
  unfolding reliable_def using demo_traced [of "\<lambda>p. None"] demo_state(1,5) [of "\<lambda>p. None"] demo_nodes [of "\<lambda>p. None"]
  by (intro conjI exI [of _ demo_desc] exI [of _ 50] exI [of _ demo_root] exI [of _ "demo_rng\<lparr>draws128 := []\<rparr>"]) auto


end
