(* ===== verification/Wakeup.thy ===== *)
theory Wakeup
  imports Worker
begin

text \<open>
  Backends and the worker running concurrently on the queue in shared memory (\<open>publish\<close> of
  \<open>src/shared.rs\<close>, the loop of \<open>src/worker.rs\<close>): a step relation whose steps are the critical sections
  under the queue lock and the single accesses outside it, interleaved in any order.

  A backend pushes under the lock and later, outside it, counts its losses or sets the worker's latch.
  The worker sleeps until its latch is set (or the idle timeout ends), resets it, and drains until a
  chunk is empty. \<open>slot\<close> is the worker's process number, \<open>nprocs\<close> the size of the process array.
\<close>

section \<open>States\<close>

datatype phase = Asleep | Draining

text \<open>\<open>finishing\<close> are the backends between the critical section of \<open>publish\<close> and its end.\<close>

record 'x system =
  sys_worker :: "'x worker"
  sys_latch :: bool
  sys_phase :: phase
  finishing :: "(pg_env \<times> batch \<times> bool option option) list"

definition wakes :: "pg_env \<times> batch \<times> bool option option \<Rightarrow> bool" where
  "wakes f \<longleftrightarrow> snd (snd f) = Some (Some True)"

text \<open>The latch of process \<open>slot\<close> was set between two states.\<close>

definition latch_set :: "nat \<Rightarrow> shm \<Rightarrow> shm \<Rightarrow> bool" where
  "latch_set slot s s' \<longleftrightarrow> SetLatch slot \<in> set (drop (length (calls s)) (calls s'))"

text \<open>
  What a backend publishes: a non-empty batch of decodable records, on a machine whose process array
  has \<open>nprocs\<close> entries, with room in the 64-bit tail counter.
\<close>

definition load_ok :: "u32 \<Rightarrow> pg_env \<Rightarrow> batch \<Rightarrow> shm \<Rightarrow> bool" where
  "load_ok nprocs env b s \<longleftrightarrow>
     all_proc_count env = Some nprocs \<and> \<not> batch_is_empty b \<and> batch_rep b (batch_items b) \<and>
     list_all (\<lambda>p. \<not> isl (decode_span p)) (batch_items b) \<and>
     (case shm_hdr s of None \<Rightarrow> False | Some h \<Rightarrow> publish_room h b)"

definition with_shm :: "shm \<Rightarrow> 'x system \<Rightarrow> 'x system" where
  "with_shm s st = st\<lparr>sys_worker := (sys_worker st)\<lparr>wk_shm := s\<rparr>\<rparr>"

definition sys_shm :: "'x system \<Rightarrow> shm" where
  "sys_shm st = wk_shm (sys_worker st)"

inductive sys_step :: "'x otel_lib \<Rightarrow> nat \<Rightarrow> u32 \<Rightarrow> 'x system \<Rightarrow> 'x system \<Rightarrow> bool"
  for lib :: "'x otel_lib" and slot :: nat and nprocs :: u32 where
  push: "load_ok nprocs env b (sys_shm st) \<Longrightarrow>
      publish_push env b (count_dropped skipped (sys_shm st)) = Some (pushed, s) \<Longrightarrow>
      sys_step lib slot nprocs st (with_shm s st\<lparr>finishing := (env, b, pushed) # finishing st\<rparr>)"
| finish: "f \<in> set (finishing st) \<Longrightarrow> f = (env, b, pushed) \<Longrightarrow>
      publish_finish env b pushed (sys_shm st) = (result, s) \<Longrightarrow>
      sys_step lib slot nprocs st
        (with_shm s st\<lparr>sys_latch := sys_latch st \<or> latch_set slot (sys_shm st) s,
                       finishing := remove1 f (finishing st)\<rparr>)"
| wake: "sys_phase st = Asleep \<Longrightarrow> sys_latch st \<Longrightarrow>
      sys_step lib slot nprocs st (st\<lparr>sys_latch := False, sys_phase := Draining\<rparr>)"
| timeout: "sys_phase st = Asleep \<Longrightarrow>
      sys_step lib slot nprocs st (st\<lparr>sys_phase := Draining\<rparr>)"
| chunk: "sys_phase st = Draining \<Longrightarrow> take_chunk wenv (sys_worker st) = Some (c, w) \<Longrightarrow> c \<noteq> [] \<Longrightarrow>
      sys_step lib slot nprocs st (st\<lparr>sys_worker := export_chunk lib c w\<rparr>)"
| settle: "sys_phase st = Draining \<Longrightarrow> take_chunk wenv (sys_worker st) = Some ([], w) \<Longrightarrow>
      sys_step lib slot nprocs st (st\<lparr>sys_worker := w, sys_phase := Asleep\<rparr>)"

inductive_cases sys_stepE: "sys_step lib slot nprocs st st'"

inductive sys_reach :: "'x otel_lib \<Rightarrow> nat \<Rightarrow> u32 \<Rightarrow> 'x system \<Rightarrow> 'x system \<Rightarrow> bool"
  for lib :: "'x otel_lib" and slot :: nat and nprocs :: u32 and st0 :: "'x system" where
  start: "sys_reach lib slot nprocs st0 st0"
| step: "sys_reach lib slot nprocs st0 st \<Longrightarrow> sys_step lib slot nprocs st st' \<Longrightarrow> sys_reach lib slot nprocs st0 st'"

section \<open>The invariant\<close>

text \<open>The worker is registered under its slot, which the process array has.\<close>

definition registered :: "nat \<Rightarrow> u32 \<Rightarrow> shm \<Rightarrow> bool" where
  "registered slot nprocs s \<longleftrightarrow>
     slot < 2 ^ 31 \<and> slot < unat nprocs \<and>
     (case shm_hdr s of None \<Rightarrow> False | Some h \<Rightarrow> worker_proc_number h = word_of_nat slot)"

definition sys_inv :: "nat \<Rightarrow> u32 \<Rightarrow> 'x system \<Rightarrow> bool" where
  "sys_inv slot nprocs st \<longleftrightarrow>
     wk_ok (sys_worker st) \<and> registered slot nprocs (sys_shm st) \<and>
     list_all (\<lambda>f. all_proc_count (fst f) = Some nprocs) (finishing st) \<and>
     (sys_phase st = Asleep \<longrightarrow> 0 < wk_queued (sys_worker st) \<longrightarrow>
        sys_latch st \<or> list_ex wakes (finishing st))"

lemma registered_wake:
  assumes "registered slot nprocs s" and "all_proc_count env = Some nprocs"
  shows "wake_worker env s = call (SetLatch slot) s"
proof -
  obtain h where h: "shm_hdr s = Some h" "worker_proc_number h = word_of_nat slot"
    and slot: "slot < 2 ^ 31" "slot < unat nprocs"
    using assms(1) by (auto simp: registered_def split: option.splits)
  have u: "unat (word_of_nat slot :: i32) = slot" using slot(1) by (simp add: unat_of_nat)
  have "uint (word_of_nat slot :: i32) = int slot" using u by (metis uint_nat)
  then have "sint (word_of_nat slot :: i32) = int slot"
    using slot(1) by (simp add: sint_uint signed_take_bit_int_eq_self)
  then show ?thesis
    using h slot u assms(2) by (simp add: wake_worker_def Let_def word_le_nat_alt not_le)
qed

lemma latch_set_call: "latch_set slot s (call (SetLatch slot) s)"
  by (simp add: latch_set_def)

text \<open>The critical section of a push, on what the worker sees of it.\<close>

lemma push_ok:
  assumes ok: "wk_ok w" and reg: "registered slot nprocs (wk_shm w)" and load: "load_ok nprocs env b (wk_shm w)"
    and push: "publish_push env b (count_dropped k (wk_shm w)) = Some (pushed, s)"
  shows "wk_ok (w\<lparr>wk_shm := s\<rparr>) \<and> registered slot nprocs s \<and>
    (wk_queued w = 0 \<longrightarrow> 0 < wk_queued (w\<lparr>wk_shm := s\<rparr>) \<longrightarrow> pushed = Some (Some True)) \<and>
    wk_queued w \<le> wk_queued (w\<lparr>wk_shm := s\<rparr>)"
proof -
  let ?s0 = "wk_shm w" and ?ps = "shm_items (wk_shm w)" and ?qs = "batch_items b"
  obtain h where h: "shm_holds ?s0 h ?ps" using ok shm_inv_holds by (auto simp: wk_ok_def)
  then have hdr: "shm_hdr ?s0 = Some h" by (simp add: shm_holds_def)
  have b: "batch_rep b ?qs" and room: "publish_room h b" and ne: "\<not> batch_is_empty b"
    and dec: "list_all (\<lambda>p. \<not> isl (decode_span p)) ?qs"
    using load hdr by (simp_all add: load_ok_def)
  let ?h = "h\<lparr>dropped_spans := dropped_spans h + word_of_nat k\<rparr>"
  have h1: "shm_holds (count_dropped k ?s0) ?h ?ps" using count_dropped_holds [OF h] by simp
  have room1: "publish_room ?h b" using room by (simp add: publish_room_def)
  obtain rs s' fits where s': "publish_push env b (count_dropped k ?s0) = Some (Some (if fits
        then Some (should_wake (header_used (count_dropped k ?s0))
          (header_used (count_dropped k ?s0) + length (batch_bytes b)) (length (shm_data (count_dropped k ?s0))))
        else None), s')"
    "shm_holds s' (?h\<lparr>header_state := rs\<rparr>) (if fits then ?ps @ ?qs else ?ps)"
    using publish_push_holds [OF h1 b room1, of env] by blast
  have s: "s' = s" using s'(1) push by simp
  have items: "shm_inv s" "shm_items s = (if fits then ?ps @ ?qs else ?ps)"
    using shm_holds_items [OF s'(2)] s by simp_all
  have "wk_ok (w\<lparr>wk_shm := s\<rparr>)"
    using ok items dec by (simp add: wk_ok_def)
  moreover have "registered slot nprocs s"
    using reg s'(2) s hdr by (simp add: registered_def shm_holds_def)
  moreover have "pushed = Some (Some True)" if "wk_queued w = 0" "0 < wk_queued (w\<lparr>wk_shm := s\<rparr>)"
  proof -
    have emp: "?ps = []" using that(1) by (simp add: wk_queued_def)
    then have fits using that(2) items(2) by (auto simp: wk_queued_def split: if_splits)
    moreover have "header_used (count_dropped k ?s0) = 0"
      using h1 emp used_rep [of "shm_ring ?h (shm_data ?s0)" "[]"]
      by (simp add: header_used_def shm_holds_def)
    ultimately show ?thesis using s'(1) push by (simp add: should_wake_def)
  qed
  ultimately show ?thesis using items(2) by (simp add: wk_queued_def)
qed

text \<open>The end of \<open>publish\<close>: the queue is as it was, and a backend that must wake the worker did.\<close>

lemma finish_ok:
  assumes ok: "wk_ok w" and reg: "registered slot nprocs (wk_shm w)" and env: "all_proc_count env = Some nprocs"
    and fin: "publish_finish env b pushed (wk_shm w) = (result, s)"
  shows "wk_ok (w\<lparr>wk_shm := s\<rparr>) \<and> registered slot nprocs s \<and> wk_queued (w\<lparr>wk_shm := s\<rparr>) = wk_queued w \<and>
    (wakes (env, b, pushed) \<longrightarrow> latch_set slot (wk_shm w) s)"
proof -
  obtain h where h: "shm_holds (wk_shm w) h (shm_items (wk_shm w))"
    using ok shm_inv_holds by (auto simp: wk_ok_def)
  then have hdr: "shm_hdr (wk_shm w) = Some h" by (simp add: shm_holds_def)
  have wake: "wake_worker env (wk_shm w) = call (SetLatch slot) (wk_shm w)"
    using registered_wake [OF reg env] .
  have cases: "(pushed = Some (Some True) \<and> s = call (SetLatch slot) (wk_shm w)) \<or>
      (pushed \<noteq> Some (Some True) \<and> (s = wk_shm w \<or> s = count_dropped (batch_records b) (wk_shm w)))"
    using fin wake by (auto simp: publish_finish_def split: option.splits if_splits)
  let ?h = "h\<lparr>dropped_spans := dropped_spans h + word_of_nat (batch_records b)\<rparr>"
  have "\<exists>h'. shm_holds s h' (shm_items (wk_shm w)) \<and> worker_proc_number h' = worker_proc_number h"
    using cases h count_dropped_holds [OF h, of "batch_records b"] by auto
  then obtain h' where h': "shm_holds s h' (shm_items (wk_shm w))" "worker_proc_number h' = worker_proc_number h"
    by blast
  then have "shm_inv s" "shm_items s = shm_items (wk_shm w)" "registered slot nprocs s"
    using shm_holds_items [OF h'(1)] reg hdr by (simp_all add: registered_def shm_holds_def)
  moreover have "wakes (env, b, pushed) \<longrightarrow> latch_set slot (wk_shm w) s"
    using cases by (auto simp: wakes_def latch_set_call)
  ultimately show ?thesis using ok by (simp add: wk_ok_def wk_queued_def)
qed

lemma take_registered:
  assumes ok: "wk_ok w" and reg: "registered slot nprocs (wk_shm w)" and take: "take_chunk env w = Some (c, w')"
  shows "wk_ok w' \<and> registered slot nprocs (wk_shm w') \<and> (c = [] \<longrightarrow> wk_queued w' = 0)"
proof -
  obtain h where h: "shm_holds (wk_shm w) h (shm_items (wk_shm w))"
    using ok shm_inv_holds by (auto simp: wk_ok_def)
  obtain rs s' where "shared_drain_into env [] CHUNK_BYTES (wk_shm w) =
      Some (Inr (drain_take CHUNK_BYTES 0 0 (shm_items (wk_shm w))),
        [] @ stream (take (drain_take CHUNK_BYTES 0 0 (shm_items (wk_shm w))) (shm_items (wk_shm w))), s')"
    "shm_holds s' (h\<lparr>header_state := rs\<rparr>) (drop (drain_take CHUNK_BYTES 0 0 (shm_items (wk_shm w))) (shm_items (wk_shm w)))"
    using drain_holds [OF h, of env "[]" CHUNK_BYTES] by blast
  then have "wk_shm w' = s'" "shm_hdr s' = Some (h\<lparr>header_state := rs\<rparr>)"
    using take by (auto simp: take_chunk_def Let_def shm_holds_def split: if_splits prod.splits)
  then have "registered slot nprocs (wk_shm w')"
    using reg h by (simp add: registered_def shm_holds_def)
  moreover have inv: "export_inv (wk_exporter w \<noteq> None)
      (if wk_exporter w \<noteq> None then concat (wk_sent w) @ wk_pending w else concat (wk_sent w)) w"
    using ok by (simp add: export_inv_def)
  moreover have "wk_ok w'" using take_chunk_ok [OF ok, of env] take by (elim exE conjE) simp
  moreover have "c = [] \<longrightarrow> wk_queued w' = 0" using export_inv_step [OF inv, of env] take by auto
  ultimately show ?thesis by blast
qed

lemma list_ex_remove1: "list_ex P xs \<Longrightarrow> \<not> P x \<Longrightarrow> list_ex P (remove1 x xs)"
  by (induction xs) auto

lemma list_all_remove1: "list_all P xs \<Longrightarrow> list_all P (remove1 x xs)"
  by (induction xs) auto

lemma sys_inv_step:
  assumes "sys_inv slot nprocs st" and "sys_step lib slot nprocs st st'"
  shows "sys_inv slot nprocs st'"
proof -
  have ok: "wk_ok (sys_worker st)" and reg: "registered slot nprocs (wk_shm (sys_worker st))"
    using assms(1) by (simp_all add: sys_inv_def sys_shm_def)
  show ?thesis
    using assms(2)
  proof (rule sys_stepE)
    fix env b skipped pushed s
    assume 1: "st' = with_shm s st\<lparr>finishing := (env, b, pushed) # finishing st\<rparr>"
      "load_ok nprocs env b (sys_shm st)"
      "publish_push env b (count_dropped skipped (sys_shm st)) = Some (pushed, s)"
    have p: "wk_ok ((sys_worker st)\<lparr>wk_shm := s\<rparr>)" "registered slot nprocs s"
      "wk_queued (sys_worker st) = 0 \<longrightarrow> 0 < wk_queued ((sys_worker st)\<lparr>wk_shm := s\<rparr>) \<longrightarrow> pushed = Some (Some True)"
      using push_ok [OF ok reg 1(2) [unfolded sys_shm_def] 1(3) [unfolded sys_shm_def]] reg
      by simp_all
    then show ?thesis
      using 1(1,2) assms(1)
      by (auto simp: sys_inv_def sys_shm_def with_shm_def load_ok_def wakes_def)
  next
    fix env b pushed result s
    assume 2: "st' = with_shm s st\<lparr>sys_latch := sys_latch st \<or> latch_set slot (sys_shm st) s,
        finishing := remove1 (env, b, pushed) (finishing st)\<rparr>"
      "(env, b, pushed) \<in> set (finishing st)"
      "publish_finish env b pushed (sys_shm st) = (result, s)"
    let ?f = "(env, b, pushed)"
    have env: "all_proc_count env = Some nprocs"
      using 2(2) assms(1) by (auto simp: sys_inv_def list_all_iff)
    have p: "wk_ok ((sys_worker st)\<lparr>wk_shm := s\<rparr>)" "registered slot nprocs s"
      "wk_queued ((sys_worker st)\<lparr>wk_shm := s\<rparr>) = wk_queued (sys_worker st)"
      "wakes ?f \<longrightarrow> latch_set slot (sys_shm st) s"
      using finish_ok [OF ok reg env 2(3) [unfolded sys_shm_def]] assms(1)
      by (simp_all add: sys_inv_def sys_shm_def)
    have "list_ex wakes (finishing st) \<Longrightarrow> latch_set slot (sys_shm st) s \<or> list_ex wakes (remove1 ?f (finishing st))"
      using p(4) list_ex_remove1 [of wakes "finishing st" ?f] by blast
    then show ?thesis
      using 2(1) p(1-3) assms(1) list_all_remove1 [of _ "finishing st" ?f]
      by (auto simp: sys_inv_def sys_shm_def with_shm_def)
  next
    assume "st' = st\<lparr>sys_latch := False, sys_phase := Draining\<rparr>"
    then show ?thesis using assms(1) by (simp add: sys_inv_def sys_shm_def)
  next
    assume "st' = st\<lparr>sys_phase := Draining\<rparr>"
    then show ?thesis using assms(1) by (simp add: sys_inv_def sys_shm_def)
  next
    fix wenv c w
    assume "st' = st\<lparr>sys_worker := export_chunk lib c w\<rparr>" "sys_phase st = Draining"
      "take_chunk wenv (sys_worker st) = Some (c, w)"
    then show ?thesis
      using take_registered [of "sys_worker st" slot nprocs wenv c w] assms(1)
      by (simp add: sys_inv_def sys_shm_def wk_ok_def)
  next
    fix wenv w
    assume "st' = st\<lparr>sys_worker := w, sys_phase := Asleep\<rparr>"
      "take_chunk wenv (sys_worker st) = Some ([], w)"
    then show ?thesis
      using take_registered [of "sys_worker st" slot nprocs wenv "[]" w] assms(1)
      by (simp add: sys_inv_def sys_shm_def)
  qed
qed

lemma sys_inv_reach: "sys_reach lib slot nprocs st0 st \<Longrightarrow> sys_inv slot nprocs st0 \<Longrightarrow> sys_inv slot nprocs st"
  by (induction rule: sys_reach.induct) (auto intro: sys_inv_step)

section \<open>Properties\<close>

text \<open>
  C19 (safety). No wake-up is lost. Whatever the interleaving of backends and worker, from any state in
  which nothing is queued behind a sleeping worker's back: when spans are queued while the worker
  sleeps, its latch is set or some backend is still about to set it. So queued spans never wait for
  the idle timeout alone.
\<close>

theorem no_lost_wakeup:
  assumes "sys_inv slot nprocs st0" and "sys_reach lib slot nprocs st0 st"
    and "sys_phase st = Asleep" and "shm_items (sys_shm st) \<noteq> []"
  shows "sys_latch st \<or> (\<exists>env b. (env, b, Some (Some True)) \<in> set (finishing st))"
proof -
  have "sys_latch st \<or> list_ex wakes (finishing st)"
    using sys_inv_reach [OF assms(2,1)] assms(3,4) by (simp add: sys_inv_def sys_shm_def wk_queued_def)
  then show ?thesis by (auto simp: list_ex_iff wakes_def)
qed

definition demo_system :: "nat system" where
  "demo_system = \<lparr>sys_worker = demo_worker
       \<lparr>shm_hdr = Some \<lparr>header_state = ring_state_new, header_capacity = 200,
          worker_proc_number = 7, dropped_spans = 3\<rparr>,
        shm_data = replicate 200 0, shm_lock = True, calls = []\<rparr> [],
     sys_latch = False, sys_phase = Asleep, finishing = []\<rparr>"

theorem no_lost_wakeup_witness:
  "\<exists>st. sys_reach demo_lib 7 100 demo_system st \<and> sys_phase st = Asleep \<and> shm_items (sys_shm st) \<noteq> [] \<and>
     (sys_latch st \<or> (\<exists>env b. (env, b, Some (Some True)) \<in> set (finishing st)))"
proof -
  let ?s0 = "sys_shm demo_system"
  let ?h = "the (shm_hdr ?s0)"
  let ?ps = "[span_bytes demo_query_span]"
  have r: "ring_rep \<lparr>rstate = ring_state_new, rdata = replicate 200 0\<rparr> []"
    by (rule ring_new_rep) (simp add: slice_sized_def)
  then have h: "shm_holds ?s0 ?h []"
    by (simp add: sys_shm_def demo_system_def demo_worker_def shm_holds_def shm_ring_def)
  have inv: "sys_inv 7 100 demo_system"
    using shm_holds_items [OF h]
    by (simp add: sys_inv_def wk_ok_def registered_def sys_shm_def wk_queued_def)
       (simp add: demo_system_def demo_worker_def)
  obtain b where b: "batch_rep b ?ps"
    using encode_batch_rep [of "[demo_query_span]"] demo_spans_typed demo_spans_fit by auto
  then have items: "batch_items b = ?ps"
    unfolding batch_items_def batch_rep_def by (metis payloads_stream)
  have len: "length (batch_bytes b) = 122" using b by (simp add: batch_rep_def demo_spans_length LEN_PREFIX_BYTES_def)
  have room: "publish_room ?h b"
    using len by (simp add: publish_room_def sys_shm_def demo_system_def demo_worker_def ring_state_new_def)
  have "load_ok 100 demo_env b ?s0"
    using b items room demo_decodes(1)
    by (simp add: load_ok_def demo_env_def batch_is_empty_def batch_rep_def)
       (simp add: sys_shm_def demo_system_def demo_worker_def)
  moreover have "header_free ?s0 = 200" "header_used ?s0 = 0" "count_dropped 0 ?s0 = ?s0"
    by (simp_all add: header_free_def header_used_def free_def capacity_def used_def is_consistent_def shm_ring_def
        sys_shm_def demo_system_def demo_worker_def ring_state_new_def count_dropped_def)
  then obtain s rs where s: "publish_push demo_env b (count_dropped 0 ?s0) = Some (Some (Some True), s)"
    "shm_holds s (?h\<lparr>header_state := rs\<rparr>) ?ps"
    using publish_push_holds [OF h b room, of demo_env] len by (auto simp: should_wake_def)
  let ?st = "with_shm s demo_system\<lparr>finishing := (demo_env, b, Some (Some True)) # finishing demo_system\<rparr>"
  have "sys_step demo_lib 7 100 demo_system ?st"
    using calculation s(1) by (rule sys_step.push)
  then have reach: "sys_reach demo_lib 7 100 demo_system ?st"
    using sys_reach.start sys_reach.step by blast
  have "sys_phase ?st = Asleep" "shm_items (sys_shm ?st) \<noteq> []"
    using shm_holds_items [OF s(2)] by (simp_all add: with_shm_def sys_shm_def demo_system_def)
  with no_lost_wakeup [OF inv reach] reach show ?thesis by blast
qed

end
