(* ===== verification/Test_Hooks.thy ===== *)
theory Test_Hooks
  imports Collect
begin

text \<open>
  The hooks of a test build (\<open>capture\<close> and \<open>fault\<close> of \<open>src/postgres.rs\<close>): published spans can be
  captured instead of queued, and one error can be armed that the next collection raises. In a release
  \<open>divert\<close> gives the batch back and \<open>inject\<close> does nothing.
\<close>

section \<open>Capturing\<close>

type_synonym captured = "span_record list option"

definition capture_start :: "captured \<Rightarrow> captured" where
  "capture_start c = Some []"

definition capture_finish :: "captured \<Rightarrow> span_record list \<times> captured" where
  "capture_finish c = (case c of Some spans \<Rightarrow> spans | None \<Rightarrow> [], None)"

definition divert :: "span_record list \<Rightarrow> captured \<Rightarrow> span_record list option \<times> captured" where
  "divert batch c = (case c of Some spans \<Rightarrow> (None, Some (spans @ batch)) | None \<Rightarrow> (Some batch, None))"

definition release_divert :: "span_record list \<Rightarrow> span_record list option" where
  "release_divert batch = Some batch"

definition publish_spans_or_capture :: "pg_env \<Rightarrow> span_record list \<Rightarrow> captured \<times> shm \<Rightarrow> (captured \<times> shm) option" where
  "publish_spans_or_capture env spans cs =
     (case cs of (c, s) \<Rightarrow>
      case divert spans c of
        (None, c) \<Rightarrow> Some (c, s)
      | (Some spans, c) \<Rightarrow> map_option (Pair c) (publish_spans env spans s))"

section \<open>Faults\<close>

datatype fault = Fault_PostgresError | Fault_Panic | Fault_QueryCancel

definition fault_code :: "fault \<Rightarrow> byte" where
  "fault_code f = (case f of Fault_PostgresError \<Rightarrow> 1 | Fault_Panic \<Rightarrow> 2 | Fault_QueryCancel \<Rightarrow> 3)"

definition arm :: "fault \<Rightarrow> byte \<Rightarrow> byte" where
  "arm f armed = fault_code f"

text \<open>
  The error that is raised, if any, and what is armed then. The report of \<open>pg_strtoint32\<close> on a text that
  is no number is Postgres'.
\<close>

definition inject :: "report \<Rightarrow> byte \<Rightarrow> caught option \<times> byte" where
  "inject pg_strtoint32 armed =
     (if armed = 1 then Some (PostgresError pg_strtoint32)
      else if armed = 2 then Some (RustPanic \<lparr>er_sqlerrcode = lit ''XX000'', er_message = lit ''injected panic''\<rparr>)
      else if armed = 3 then Some (ErrorReport \<lparr>er_sqlerrcode = ERRCODE_QUERY_CANCELED, er_message = lit ''injected query cancel''\<rparr>)
      else None, 0)"

text \<open>
  A collection of a test build. The fault is injected behind the first two tests, which the release's
  collection then passes; \<open>cxt\<close> is the memory context that the error leaves.
\<close>

definition collect_spans_or_fail ::
    "report \<Rightarrow> nat \<Rightarrow> ('i, 'q) world \<Rightarrow> byte \<times> ('i, 'q) backend \<Rightarrow> ((caught + unit) \<times> byte \<times> ('i, 'q) backend) option" where
  "collect_spans_or_fail pg_strtoint32 cxt w ab =
     (case ab of (armed, b) \<Rightarrow>
        let saved_context = bk_context b in
        if bk_desc b = None \<or> \<not> tracing_enabled_here w then Some (Inr (), armed, b)
        else case inject pg_strtoint32 armed of
          (Some e, armed) \<Rightarrow>
            (let b = b\<lparr>bk_context := cxt\<rparr> in
             if er_sqlerrcode (caught_report e) = ERRCODE_QUERY_CANCELED then Some (Inl e, armed, b)
             else Some (Inr (), armed, (report_collection_failure e b)\<lparr>bk_context := saved_context\<rparr>))
        | (None, armed) \<Rightarrow> map_option (\<lambda>(res, b). (res, armed, b)) (collect_spans w b))"

section \<open>What the hooks do\<close>

lemma inject_armed:
  "inject r (arm f a) =
     (Some (case f of
        Fault_PostgresError \<Rightarrow> PostgresError r
      | Fault_Panic \<Rightarrow> RustPanic \<lparr>er_sqlerrcode = lit ''XX000'', er_message = lit ''injected panic''\<rparr>
      | Fault_QueryCancel \<Rightarrow>
          ErrorReport \<lparr>er_sqlerrcode = ERRCODE_QUERY_CANCELED, er_message = lit ''injected query cancel''\<rparr>), 0)"
  by (cases f) (simp_all add: inject_def arm_def fault_code_def)

text \<open>Captured batches come back in the order of their publication and leave shared memory alone.\<close>

lemma captured_batches:
  "\<exists>c. foldl (\<lambda>cs ss. Option.bind cs (publish_spans_or_capture env ss)) (Some (capture_start c0, s)) batches = Some (c, s) \<and>
     capture_finish c = (concat batches, None)"
proof -
  have "foldl (\<lambda>cs ss. Option.bind cs (publish_spans_or_capture env ss)) (Some (Some xs, s)) batches = Some (Some (xs @ concat batches), s)" for xs
    by (induction batches arbitrary: xs) (simp_all add: publish_spans_or_capture_def divert_def)
  from this [of "[]"] show ?thesis by (simp add: capture_start_def capture_finish_def)
qed

text \<open>Without a capture a test build publishes what a release publishes.\<close>

lemma uncaptured_publish:
  "publish_spans_or_capture env spans (None, s) =
     map_option (Pair None) (Option.bind (release_divert spans) (\<lambda>spans. publish_spans env spans s))"
  by (simp add: publish_spans_or_capture_def divert_def release_divert_def)

text \<open>
  An armed fault hits one statement only. An error of Postgres and a panic cost that statement its spans
  and nothing else; a query cancel is raised again; and from then on the test build is the release.
\<close>

theorem injected_fault_contained:
  assumes "bk_desc b = Some q" and "tracing_enabled_here w" and "er_sqlerrcode r \<noteq> ERRCODE_QUERY_CANCELED"
  shows "\<exists>res b'. collect_spans_or_fail r cxt w (arm f a, b) = Some (res, 0, b') \<and>
    bk_shm b' = bk_shm b \<and> bk_desc b' = bk_desc b \<and> bk_levels b' = bk_levels b \<and> bk_rng b' = bk_rng b \<and>
    (if f = Fault_QueryCancel then res = Inl (ErrorReport \<lparr>er_sqlerrcode = lit ''57014'', er_message = lit ''injected query cancel''\<rparr>)
     else res = Inr () \<and> bk_context b' = bk_context b \<and> bk_failure_logged b') \<and>
    collect_spans_or_fail r cxt w (0, b') = map_option (\<lambda>(res, b). (res, 0, b)) (collect_spans w b')"
proof -
  have XX: "lit ''XX000'' \<noteq> ERRCODE_QUERY_CANCELED" by (simp add: ERRCODE_QUERY_CANCELED_def)
  have rest: "collect_spans_or_fail r cxt w (0, b') = map_option (\<lambda>(res, b). (res, 0, b)) (collect_spans w b')"
    if "bk_desc b' = bk_desc b" for b'
    using that assms(1,2) by (simp add: collect_spans_or_fail_def Let_def inject_def)
  show ?thesis
    using assms XX rest
    by (cases f)
      (auto simp: collect_spans_or_fail_def Let_def inject_armed caught_report_def report_collection_failure_def
        ERRCODE_QUERY_CANCELED_def)
qed

lemma injected_fault_contained_witness:
  "\<exists>b'. collect_spans_or_fail \<lparr>er_sqlerrcode = lit ''22P02'', er_message = lit ''invalid input''\<rparr> 9 (demo_world (\<lambda>p. None))
      (arm Fault_Panic 0, demo_backend) = Some (Inr (), 0, b') \<and> bk_failure_logged b' \<and> bk_shm b' = bk_shm demo_backend"
proof -
  have "tracing_enabled_here (demo_world (\<lambda>p. None))"
    by (simp add: tracing_enabled_here_def tracing_enabled_def demo_world_def get_min_duration_ms_def)
  moreover have "bk_desc demo_backend = Some demo_desc" by (simp add: demo_backend_def)
  ultimately show ?thesis
    using injected_fault_contained [of demo_backend demo_desc "demo_world (\<lambda>p. None)"
        "\<lparr>er_sqlerrcode = lit ''22P02'', er_message = lit ''invalid input''\<rparr>" 9 Fault_Panic 0]
    by (auto simp: ERRCODE_QUERY_CANCELED_def)
qed

end
