(* ===== verification/Testing.thy ===== *)
theory Testing
  imports "HOL-Library.Monad_Syntax" "HOL-Library.Code_Target_Nat" Prelude
begin

text \<open>
  What the translations of the repository's unit tests share. A test is a computation that panics with
  \<open>None\<close>; that it passes is the theorem that it returns.
\<close>

definition assert_that :: "bool \<Rightarrow> unit option" where
  "assert_that b = (if b then Some () else None)"

definition unwrap :: "'e + 'a \<Rightarrow> 'a option" where
  "unwrap r = (case r of Inl e \<Rightarrow> None | Inr x \<Rightarrow> Some x)"

definition is_ok :: "'e + 'a \<Rightarrow> bool" where
  "is_ok r = (case r of Inl e \<Rightarrow> False | Inr x \<Rightarrow> True)"

definition is_err :: "'e + 'a \<Rightarrow> bool" where
  "is_err r = (case r of Inl e \<Rightarrow> True | Inr x \<Rightarrow> False)"

lemma assert_that_simps [simp]: "assert_that True = Some ()" "assert_that False = None"
  by (simp_all add: assert_that_def)

lemma result_simps [simp]:
  "unwrap (Inl e) = None" "unwrap (Inr x) = Some x" "is_ok (Inl e) = False" "is_ok (Inr x) = True"
  "is_err (Inl e) = True" "is_err (Inr x) = False"
  by (simp_all add: unwrap_def is_ok_def is_err_def)

end
