(* ===== verification/Queue_Tests.thy ===== *)
theory Queue_Tests
  imports Testing Queue Utf8
begin

text \<open>
  The unit tests of \<open>src/queue.rs\<close> on the model, one definition and one theorem per test. The test that
  compares the ring with a simple model over random operations is \<open>Queue.ring_fifo\<close>, for all of them.
\<close>

section \<open>Helpers\<close>

definition batch_of :: "bytes list \<Rightarrow> batch option" where
  "batch_of ps = foldl (\<lambda>b p. do {
     batch \<leftarrow> b;
     let (res, batch) = push_record batch (\<lambda>buf. buf @ p);
     unwrap res;
     Some batch }) (Some batch_new) ps"

definition drained_records :: "ring \<Rightarrow> nat \<Rightarrow> ((nat \<times> bytes list) \<times> ring) option" where
  "drained_records ring max_bytes = do {
     (res, out, ring) \<leftarrow> drain_into ring [] max_bytes;
     count \<leftarrow> unwrap res;
     assert_that (list_all is_ok (records out));
     let payloads = map projr (records out);
     assert_that (length payloads = count);
     Some ((count, payloads), ring) }"

definition ring_of :: "nat \<Rightarrow> ring" where
  "ring_of n = \<lparr>rstate = ring_state_new, rdata = replicate n 0\<rparr>"

text \<open>\<open>push_batch(..).unwrap()\<close> and the result of \<open>push_batch\<close>.\<close>

definition try_push :: "ring \<Rightarrow> bytes list \<Rightarrow> ((queue_full + unit) \<times> ring) option" where
  "try_push ring ps = do { batch \<leftarrow> batch_of ps; push_batch ring batch }"

definition push_unwrap :: "ring \<Rightarrow> bytes list \<Rightarrow> ring option" where
  "push_unwrap ring ps = do { (res, ring) \<leftarrow> try_push ring ps; unwrap res; Some ring }"

section \<open>Tests\<close>

definition empty_ring_drains_nothing :: "unit option" where
  "empty_ring_drains_nothing = do {
     let ring = ring_of 32;
     assert_that (used ring = 0);
     assert_that (free ring = 32);
     (res, ring) \<leftarrow> drained_records ring 1024;
     assert_that (res = (0, [])) }"

definition round_trips_records_in_order :: "unit option" where
  "round_trips_records_in_order = do {
     ring \<leftarrow> push_unwrap (ring_of 64) [lit ''one'', [], lit ''three''];
     assert_that (used ring = 3 + 4 + 4 + 5 + 4);
     ((count, payloads), ring) \<leftarrow> drained_records ring 1024;
     assert_that (count = 3);
     assert_that (payloads = [lit ''one'', [], lit ''three'']);
     assert_that (used ring = 0) }"

definition exact_fit_succeeds_and_one_more_byte_is_rejected :: "unit option" where
  "exact_fit_succeeds_and_one_more_byte_is_rejected = do {
     ring \<leftarrow> push_unwrap (ring_of 16) [replicate 12 7];
     assert_that (free ring = 0);
     (res, ring) \<leftarrow> try_push ring [[]];
     assert_that (res = Inl (QueueFull 4 0));
     (res, ring) \<leftarrow> drained_records ring 100;
     assert_that (snd res = [replicate 12 7]);
     (res, ring) \<leftarrow> try_push (ring_of 16) [replicate 13 7];
     assert_that (is_err res);
     assert_that (used ring = 0) }"

definition batch_push_is_all_or_nothing :: "unit option" where
  "batch_push_is_all_or_nothing = do {
     ring \<leftarrow> push_unwrap (ring_of 20) [lit ''aaaa''];
     (res, ring) \<leftarrow> try_push ring [lit ''bbbb'', lit ''cccc'', lit ''dddd''];
     assert_that (is_err res);
     assert_that (used ring = 8);
     (res, ring) \<leftarrow> try_push ring [lit ''bbbb'', lit ''cccc'', lit ''d''];
     assert_that (is_err res);
     (res, ring) \<leftarrow> drained_records ring 100;
     assert_that (snd res = [lit ''aaaa'']) }"

definition records_wrap_around_the_end :: "unit option" where
  "records_wrap_around_the_end = do {
     ring \<leftarrow> push_unwrap (ring_of 20) [replicate 10 1];
     (res, ring) \<leftarrow> drained_records ring 100;
     assert_that (fst res = 1);
     ring \<leftarrow> push_unwrap ring [lit ''wrapped!''];
     ring \<leftarrow> push_unwrap ring [lit ''x''];
     (res, ring) \<leftarrow> drained_records ring 100;
     assert_that (snd res = [lit ''wrapped!'', lit ''x'']) }"

definition length_prefix_itself_may_wrap :: "unit option" where
  "length_prefix_itself_may_wrap = do {
     ring \<leftarrow> push_unwrap (ring_of 10) [replicate 4 9];
     (res, ring) \<leftarrow> drained_records ring 100;
     ring \<leftarrow> push_unwrap ring [lit ''ab''];
     (res, ring) \<leftarrow> drained_records ring 100;
     assert_that (snd res = [lit ''ab'']) }"

definition drain_respects_max_bytes_but_always_makes_progress :: "unit option" where
  "drain_respects_max_bytes_but_always_makes_progress = do {
     ring \<leftarrow> push_unwrap (ring_of 128) [replicate 10 1, replicate 10 2, replicate 10 3];
     (res, ring) \<leftarrow> drained_records ring 20;
     assert_that (fst res = 1);
     (res, ring) \<leftarrow> drained_records ring 28;
     assert_that (fst res = 2);
     ring \<leftarrow> push_unwrap ring [replicate 50 4];
     (res, ring) \<leftarrow> drained_records ring 1;
     assert_that (fst res = 1);
     assert_that (used ring = 0) }"

definition oversized_records_are_rejected_without_side_effects :: "unit option" where
  "oversized_records_are_rejected_without_side_effects = do {
     batch \<leftarrow> batch_of [lit ''ok''];
     let (result, batch) = push_record batch (\<lambda>buf. buf @ replicate (MAX_RECORD_BYTES + 1) 0);
     assert_that (result = Inl (RecordTooLarge (MAX_RECORD_BYTES + 1)));
     assert_that (batch_records batch = 1);
     assert_that (length (batch_bytes batch) = 6);
     assert_that (is_ok (fst (push_record batch (\<lambda>buf. buf @ replicate MAX_RECORD_BYTES 0)))) }"

text \<open>The first bytes of the data area are overwritten.\<close>

definition overwritten :: "ring \<Rightarrow> bytes \<Rightarrow> ring" where
  "overwritten ring bs = ring\<lparr>rdata := bs @ drop (length bs) (rdata ring)\<rparr>"

definition corrupted_length_prefix_discards_the_queue :: "unit option" where
  "corrupted_length_prefix_discards_the_queue = do {
     ring \<leftarrow> push_unwrap (ring_of 64) [lit ''first'', lit ''second''];
     (res, out, ring) \<leftarrow> drain_into (overwritten ring (to_le_bytes (- 1 :: u32))) [] 1024;
     assert_that (is_err res);
     assert_that (out = []);
     assert_that (used ring = 0);
     ring \<leftarrow> push_unwrap ring [lit ''fresh''];
     (res, ring) \<leftarrow> drained_records ring 100;
     assert_that (snd res = [lit ''fresh'']) }"

definition length_pointing_past_the_queued_data_is_corruption :: "unit option" where
  "length_pointing_past_the_queued_data_is_corruption = do {
     ring \<leftarrow> push_unwrap (ring_of 64) [lit ''abc''];
     (res, out, ring) \<leftarrow> drain_into (overwritten ring (to_le_bytes (100 :: u32))) [] 100;
     assert_that (res = Inl (Corrupted ''record length out of range'')) }"

definition inconsistent_positions_are_repaired :: "unit option" where
  "inconsistent_positions_are_repaired = do {
     let ring = (ring_of 16)\<lparr>rstate := \<lparr>head = 10, tail = 5\<rparr>\<rparr>;
     assert_that (used ring = 0);
     (res, out, ring) \<leftarrow> drain_into ring [] 10;
     assert_that (is_err res);
     ring \<leftarrow> push_unwrap (ring\<lparr>rstate := \<lparr>head = 0, tail = 1000\<rparr>\<rparr>) [lit ''ok''];
     (res, ring) \<leftarrow> drained_records ring 100;
     assert_that (snd res = [lit ''ok'']) }"

definition zero_capacity_ring_rejects_everything_and_never_panics :: "unit option" where
  "zero_capacity_ring_rejects_everything_and_never_panics = do {
     (res, out, ring) \<leftarrow> drain_into (ring_of 0) [] 10;
     assert_that (res = Inr 0);
     (res, ring) \<leftarrow> try_push ring [[]];
     assert_that (is_err res);
     (res, ring) \<leftarrow> push_batch ring batch_new;
     assert_that (is_ok res) }"

definition record_stream_validation :: "unit option" where
  "record_stream_validation = do {
     assert_that (length (records []) = 0);
     assert_that (is_err (hd (records [1, 0])));
     assert_that (is_err (hd (records [5, 0, 0, 0, 1])));
     assert_that (is_err (hd (records (to_le_bytes (word_of_nat MAX_RECORD_BYTES + 1 :: u32)))));
     batch \<leftarrow> batch_of [lit ''ok''];
     let items = records (batch_bytes batch @ [9, 9]);
     assert_that (length items = 2);
     assert_that (is_ok (items ! 0) \<and> is_err (items ! 1)) }"

definition wake_policy :: "unit option" where
  "wake_policy = do {
     assert_that (should_wake 0 10 1000);
     assert_that (\<not> should_wake 10 20 1000);
     assert_that (should_wake 400 600 1000);
     assert_that (\<not> should_wake 600 700 1000) }"

section \<open>They pass\<close>

subsection \<open>Rules for a ring that holds records\<close>

lemma batch_of_rep: "list_all payload_ok ps \<Longrightarrow> \<exists>b. batch_of ps = Some b \<and> batch_rep b ps"
proof (induction ps rule: rev_induct)
  case Nil
  show ?case by (simp add: batch_of_def batch_rep_new)
next
  case (snoc p ps)
  then obtain b where b: "batch_of ps = Some b" "batch_rep b ps" by auto
  from push_record_rep [OF b(2), of "\<lambda>buf. buf @ p" p] snoc.prems obtain b' where
    "push_record b (\<lambda>buf. buf @ p) = (Inr (), b')" "batch_rep b' (ps @ [p])" by auto
  with b(1) show ?case by (simp add: batch_of_def)
qed

text \<open>The ring has the capacity \<open>c\<close>, holds the records \<open>ps\<close> and was moved by at most \<open>t\<close> bytes in all.\<close>

definition holds :: "ring \<Rightarrow> bytes list \<Rightarrow> nat \<Rightarrow> nat \<Rightarrow> bool" where
  "holds r ps c t \<longleftrightarrow> ring_rep r ps \<and> capacity r = c \<and> unat (tail (rstate r)) \<le> t"

lemma holds_new: "n < 2 ^ 63 \<Longrightarrow> holds (ring_of n) [] n 0"
  using ring_new_rep [of "replicate n 0"] by (simp add: holds_def ring_of_def capacity_def slice_sized_def ring_state_new_def)

lemma holds_used: "holds r ps c t \<Longrightarrow> used r = length (stream ps)"
  using length_ring_contents [of r] by (simp add: holds_def ring_rep_def)

lemma holds_free: "holds r ps c t \<Longrightarrow> free r = c - length (stream ps)"
  using holds_used [of r ps c t] by (simp add: holds_def free_def)

lemma try_push_holds:
  assumes r: "holds r ps c t" and ok: "list_all payload_ok qs" and room: "t + length (stream qs) < 2 ^ 64"
  shows "\<exists>r'. try_push r qs =
      Some (if length (stream qs) \<le> c - length (stream ps) then Inr ()
            else Inl (QueueFull (length (stream qs)) (c - length (stream ps))), r') \<and>
    (if length (stream qs) \<le> c - length (stream ps) then holds r' (ps @ qs) c (t + length (stream qs)) else r' = r)"
proof -
  from batch_of_rep [OF ok] obtain b where b: "batch_of qs = Some b" "batch_rep b qs" by blast
  then have len: "length (batch_bytes b) = length (stream qs)" by (simp add: batch_rep_def)
  from r room have tail: "tail_room r (length (batch_bytes b))" by (simp add: holds_def tail_room_def len)
  note fr = holds_free [OF r] and rep = r [unfolded holds_def]
  show ?thesis
  proof (cases "length (stream qs) \<le> c - length (stream ps)")
    case True
    then have fits: "length (batch_bytes b) \<le> free r" by (simp add: fr len)
    from rep have "ring_wf r" by (simp add: ring_rep_def)
    from push_batch_contents [OF this fits tail] obtain r' where r': "push_batch r b = Some (Inr (), r')"
      "capacity r' = capacity r" "unat (tail (rstate r')) = unat (tail (rstate r)) + length (batch_bytes b)" by blast
    moreover have "ring_rep r' (ps @ qs)"
      using push_batch_rep [OF _ b(2) tail, of ps] rep r'(1) fits by auto
    ultimately show ?thesis using b True rep by (simp add: try_push_def holds_def len)
  next
    case False
    then have "push_batch r b = Some (Inl (QueueFull (length (batch_bytes b)) (free r)), r)"
      using rep by (intro push_batch_full) (simp_all add: ring_rep_def ring_wf_def fr len)
    then show ?thesis using b False by (simp add: try_push_def fr len)
  qed
qed

lemma drain_into_holds:
  fixes m :: nat
  assumes "holds r ps c t"
  defines "k \<equiv> drain_take m 0 0 ps"
  shows "\<exists>r'. drain_into r [] m = Some (Inr k, stream (take k ps), r') \<and> holds r' (drop k ps) c t"
proof -
  from drain_into_rep [of r ps "[]" m] assms(1) obtain r' where
    d: "drain_into r [] m = Some (Inr k, stream (take k ps), r')" and "ring_rep r' (drop k ps)" "capacity r' = c"
    unfolding k_def by (auto simp: holds_def)
  moreover have "tail (rstate r') = tail (rstate r)"
    using d by (auto simp: drain_into_def split: if_splits option.splits sum.splits)
  ultimately show ?thesis using assms(1) by (auto simp: holds_def)
qed

lemma drained_holds:
  fixes m :: nat
  assumes "holds r ps c t"
  defines "k \<equiv> drain_take m 0 0 ps"
  shows "\<exists>r'. drained_records r m = Some ((k, take k ps), r') \<and> holds r' (drop k ps) c t"
proof -
  from drain_into_holds [OF assms(1), of m] obtain r' where
    d: "drain_into r [] m = Some (Inr k, stream (take k ps), r')" and r': "holds r' (drop k ps) c t"
    unfolding k_def by blast
  have "list_all payload_ok (take k ps)"
    using assms(1) by (auto simp: holds_def ring_rep_def list_all_iff dest: in_set_takeD)
  then have "records (stream (take k ps)) = map Inr (take k ps)"
    using records_stream [of "take k ps" "[]"] by simp
  moreover have "k \<le> length ps" unfolding k_def by (rule drain_take_le)
  ultimately show ?thesis
    using d r' by (simp add: drained_records_def list_all_iff comp_def)
qed

text \<open>One rule per step of a test.\<close>

lemma push_step:
  assumes "holds r ps c t" and "list_all payload_ok qs" and "t + length (stream qs) < 2 ^ 64"
    and "length (stream qs) \<le> c - length (stream ps)"
    and "\<And>r'. holds r' (ps @ qs) c (t + length (stream qs)) \<Longrightarrow> f r' = Some ()"
  shows "push_unwrap r qs \<bind> f = Some ()"
  using try_push_holds [OF assms(1-3)] assms(4,5) by (auto simp: push_unwrap_def)

lemma full_step:
  assumes "holds r ps c t" and "list_all payload_ok qs" and "t + length (stream qs) < 2 ^ 64"
    and "c - length (stream ps) < length (stream qs)"
    and "f (Inl (QueueFull (length (stream qs)) (c - length (stream ps))), r) = Some ()"
  shows "try_push r qs \<bind> f = Some ()"
  using try_push_holds [OF assms(1-3)] assms(4,5) by auto

lemma drain_step:
  fixes m :: nat
  assumes "holds r ps c t" and "drain_take m 0 0 ps = k"
    and "\<And>r'. holds r' (drop k ps) c t \<Longrightarrow> f ((k, take k ps), r') = Some ()"
  shows "drained_records r m \<bind> f = Some ()"
  using drained_holds [OF assms(1), of m] assms(2,3) by auto

lemma drain_into_step:
  fixes m :: nat
  assumes "holds r ps c t" and "drain_take m 0 0 ps = k"
    and "\<And>r'. holds r' (drop k ps) c t \<Longrightarrow> f (Inr k, stream (take k ps), r') = Some ()"
  shows "drain_into r [] m \<bind> f = Some ()"
  using drain_into_holds [OF assms(1), of m] assms(2,3) by auto

lemma nothing_step:
  assumes "holds r ps c t" and "t < 2 ^ 64" and "\<And>r'. f (Inr (), r') = Some ()"
  shows "push_batch r batch_new \<bind> f = Some ()"
  using push_batch_rep [OF _ batch_rep_new, of r ps] assms by (auto simp: holds_def tail_room_def batch_new_def)

lemma assert_step: "b \<Longrightarrow> f () = Some () \<Longrightarrow> assert_that b \<bind> f = Some ()"
  by simp

lemma assert_last: "b \<Longrightarrow> assert_that b = Some ()"
  by simp

lemma used_new: "n < 2 ^ 63 \<Longrightarrow> used (ring_of n) = 0"
  by (simp add: holds_used [OF holds_new])

lemmas ring_eval = lit_def payload_ok_def MAX_RECORD_BYTES_def LEN_PREFIX_BYTES_def

subsection \<open>Tests\<close>

lemma empty_ring_drains_nothing_passes: "empty_ring_drains_nothing = Some ()"
  by code_simp

lemma record_tests_pass:
  "zero_capacity_ring_rejects_everything_and_never_panics = Some ()"
  "round_trips_records_in_order = Some ()"
  "exact_fit_succeeds_and_one_more_byte_is_rejected = Some ()"
  "batch_push_is_all_or_nothing = Some ()"
  "records_wrap_around_the_end = Some ()"
  "length_prefix_itself_may_wrap = Some ()"
  "drain_respects_max_bytes_but_always_makes_progress = Some ()"
  unfolding zero_capacity_ring_rejects_everything_and_never_panics_def
    round_trips_records_in_order_def
    exact_fit_succeeds_and_one_more_byte_is_rejected_def
    batch_push_is_all_or_nothing_def
    records_wrap_around_the_end_def
    length_prefix_itself_may_wrap_def
    drain_respects_max_bytes_but_always_makes_progress_def Let_def
  by ((rule push_step full_step drain_step drain_into_step nothing_step, (assumption | rule holds_new, simp)?, (simp add: ring_eval; fail)+ |
       rule assert_step assert_last, (simp add: holds_used holds_free used_new ring_eval; fail) | simp only: prod.case)+)

lemma corrupted_length_prefix_discards_the_queue_passes: "corrupted_length_prefix_discards_the_queue = Some ()"
  by code_simp

lemma length_pointing_past_the_queued_data_is_corruption_passes: "length_pointing_past_the_queued_data_is_corruption = Some ()"
  by code_simp

lemma inconsistent_positions_are_repaired_passes: "inconsistent_positions_are_repaired = Some ()"
  by code_simp

lemma record_stream_validation_passes: "record_stream_validation = Some ()"
  by code_simp

lemma wake_policy_passes: "wake_policy = Some ()"
  by code_simp

lemma oversized_records_are_rejected_without_side_effects_passes:
  "oversized_records_are_rejected_without_side_effects = Some ()"
  by (simp add: oversized_records_are_rejected_without_side_effects_def batch_of_def push_record_def Let_def batch_new_def
      lit_def LEN_PREFIX_BYTES_def MAX_RECORD_BYTES_def)

end
