(* ===== verification/Queue_Model_Test.thy ===== *)
theory Queue_Model_Test
  imports Queue_Tests
begin

text \<open>
  The unit test of \<open>src/queue.rs\<close> that runs the ring against a list of records, with the draws of its random
  generator as a parameter. The theorem is for all draws in the ranges of the test, not for one seed. The two
  assertions on how much that seed exercises (more than 500 records pushed, more than ten times around the
  ring) are not part of it.
\<close>

section \<open>The test\<close>

text \<open>What a round draws: the lengths of the payloads to push, or the budget of a drain.\<close>

datatype round = PushRound "nat list" | DrainRound nat

text \<open>\<open>for payload in payloads { assert_eq!(Some(payload), model.pop_front()) }\<close>.\<close>

fun pop_all :: "bytes list \<Rightarrow> bytes list \<Rightarrow> bytes list option" where
  "pop_all [] model = Some model"
| "pop_all (p # ps) [] = None"
| "pop_all (p # ps) (m # model) = do { assert_that (p = m); pop_all ps model }"

definition run_round :: "nat \<Rightarrow> round \<Rightarrow> ring \<times> bytes list \<times> nat \<Rightarrow> (ring \<times> bytes list \<times> nat) option" where
  "run_round n draw = (\<lambda>(ring, model, pushed).
     case draw of
       PushRound lens \<Rightarrow> do {
         let payloads = map (\<lambda>len. replicate len (word_of_nat (n mod 251))) lens;
         batch \<leftarrow> batch_of payloads;
         let fits = length (batch_bytes batch) \<le> free ring;
         (res, ring) \<leftarrow> push_batch ring batch;
         assert_that (is_ok res = fits);
         Some (if fits then (ring, model @ payloads, pushed + length lens) else (ring, model, pushed)) }
     | DrainRound max_bytes \<Rightarrow> do {
         ((_, payloads), ring) \<leftarrow> drained_records ring max_bytes;
         model \<leftarrow> pop_all payloads model;
         Some (ring, model, pushed) })"

fun run_rounds :: "nat \<Rightarrow> round list \<Rightarrow> ring \<times> bytes list \<times> nat \<Rightarrow> (ring \<times> bytes list \<times> nat) option" where
  "run_rounds n [] s = Some s"
| "run_rounds n (draw # draws) s = do { s \<leftarrow> run_round n draw s; run_rounds (n + 1) draws s }"

definition matches_a_simple_model_over_many_wraparounds :: "round list \<Rightarrow> unit option" where
  "matches_a_simple_model_over_many_wraparounds draws = do {
     (ring, model, pushed) \<leftarrow> run_rounds 0 draws (ring_of 97, [], 0);
     ((_, rest), ring) \<leftarrow> drained_records ring (2 ^ 64 - 1);
     assert_that (rest = model) }"

text \<open>\<open>rng.usize(1..4)\<close> payloads of \<open>rng.usize(0..30)\<close> bytes; \<open>rng.usize(1..80)\<close>.\<close>

definition in_range :: "round \<Rightarrow> bool" where
  "in_range draw =
     (case draw of
        PushRound lens \<Rightarrow> 1 \<le> length lens \<and> length lens < 4 \<and> list_all (\<lambda>len. len < 30) lens
      | DrainRound max_bytes \<Rightarrow> 1 \<le> max_bytes \<and> max_bytes < 80)"

section \<open>It passes\<close>

lemma pop_all_take: "k \<le> length model \<Longrightarrow> pop_all (take k model) model = Some (drop k model)"
proof (induction model arbitrary: k)
  case (Cons m model)
  then show ?case by (cases k) simp_all
qed simp

lemma payloads_small:
  assumes "list_all (\<lambda>len. len < 30) lens" and "length lens < 4"
  shows "length (stream (map (\<lambda>len. replicate len (x :: byte)) lens)) \<le> 99"
proof -
  have "list_all (\<lambda>len. len < 30) lens \<Longrightarrow> length (stream (map (\<lambda>len. replicate len x) lens)) \<le> 33 * length lens"
    for lens :: "nat list"
    by (induction lens) (auto simp: LEN_PREFIX_BYTES_def)
  from this [OF assms(1)] assms(2) show ?thesis by simp
qed

text \<open>The ring holds the model; every round moves the tail by at most 99 bytes.\<close>

lemma run_round_rep:
  assumes r: "ring_rep r model" and draw: "in_range draw" and room: "tail_room r 99"
  shows "\<exists>r' model' pushed'. run_round n draw (r, model, pushed) = Some (r', model', pushed') \<and>
    ring_rep r' model' \<and> unat (tail (rstate r')) \<le> unat (tail (rstate r)) + 99"
proof (cases draw)
  case (DrainRound m)
  from drained_holds [of r model "capacity r" "unat (tail (rstate r))" m] r drain_take_le [of m 0 0 model] show ?thesis
    by (auto simp: holds_def DrainRound run_round_def pop_all_take)
next
  case (PushRound lens)
  let ?ps = "map (\<lambda>len. replicate len (word_of_nat (n mod 251)) :: bytes) lens"
  have lens: "list_all (\<lambda>len. len < 30) lens" "length lens < 4" using draw by (simp_all add: PushRound in_range_def)
  then have "list_all payload_ok ?ps" by (auto simp: list_all_iff payload_ok_def MAX_RECORD_BYTES_def)
  then obtain b where b: "batch_of ?ps = Some b" "batch_rep b ?ps" using batch_of_rep by blast
  have len: "length (batch_bytes b) \<le> 99" using b(2) payloads_small [OF lens] by (simp add: batch_rep_def)
  then have room': "tail_room r (length (batch_bytes b))" using room by (simp add: tail_room_def)
  show ?thesis
  proof (cases "length (batch_bytes b) \<le> free r")
    case True
    from r have "ring_wf r" by (simp add: ring_rep_def)
    from push_batch_contents [OF this True room'] obtain r' where r': "push_batch r b = Some (Inr (), r')"
      "unat (tail (rstate r')) = unat (tail (rstate r)) + length (batch_bytes b)" by blast
    moreover have "ring_rep r' (model @ ?ps)"
      using push_batch_rep [OF r b(2) room'] r'(1) True by simp
    ultimately show ?thesis using b True len by (simp add: PushRound run_round_def)
  next
    case False
    then have "push_batch r b = Some (Inl (QueueFull (length (batch_bytes b)) (free r)), r)"
      using r by (intro push_batch_full) (simp_all add: ring_rep_def ring_wf_def)
    then show ?thesis using b False r by (simp add: PushRound run_round_def)
  qed
qed

lemma run_rounds_rep:
  assumes "ring_rep r model" and "list_all in_range draws" and "tail_room r (99 * length draws)"
  shows "\<exists>r' model' pushed'. run_rounds n draws (r, model, pushed) = Some (r', model', pushed') \<and> ring_rep r' model'"
  using assms
proof (induction draws arbitrary: n r model pushed)
  case (Cons draw draws)
  from run_round_rep [of r model draw n pushed] Cons.prems obtain r' model' pushed' where
    step: "run_round n draw (r, model, pushed) = Some (r', model', pushed')" "ring_rep r' model'"
      "unat (tail (rstate r')) \<le> unat (tail (rstate r)) + 99"
    by (auto simp: tail_room_def)
  then have "tail_room r' (99 * length draws)" using Cons.prems(3) by (simp add: tail_room_def)
  from Cons.IH [OF step(2) _ this] Cons.prems(2) step(1) show ?case by simp
qed simp

text \<open>The test runs 5000 rounds.\<close>

lemma matches_a_simple_model_over_many_wraparounds_passes:
  assumes "length draws = 5000" and "list_all in_range draws"
  shows "matches_a_simple_model_over_many_wraparounds draws = Some ()"
proof -
  have "ring_rep (ring_of 97) []" unfolding ring_of_def by (rule ring_new_rep) (simp add: slice_sized_def)
  moreover have "tail_room (ring_of 97) (99 * length draws)"
    by (simp add: tail_room_def ring_of_def ring_state_new_def assms(1))
  ultimately obtain r model pushed where run: "run_rounds 0 draws (ring_of 97, [], 0) = Some (r, model, pushed)"
    and r: "ring_rep r model"
    using run_rounds_rep assms(2) by blast
  let ?k = "drain_take (2 ^ 64 - 1) 0 0 model"
  have "?k = length model"
  proof (rule ccontr)
    assume "?k \<noteq> length model"
    then have "?k < length model" using drain_take_le [of "2 ^ 64 - 1" 0 0 model] by simp
    from drain_take_greedy [OF this] have "2 ^ 64 - 1 < length (stream (take (Suc ?k) model))" by simp
    also have "\<dots> \<le> length (stream model)"
      by (metis append_take_drop_id le_add1 length_append stream_simps(3))
    also have "\<dots> = used r" using r length_ring_contents [of r] by (simp add: ring_rep_def)
    also have "\<dots> \<le> 2 ^ 64 - 1" using unsigned_less [of "tail (rstate r) - head (rstate r)", where 'a = nat] by (simp add: used_def)
    finally show False by simp
  qed
  then show ?thesis using drained_holds [of r model "capacity r" "unat (tail (rstate r))" "2 ^ 64 - 1"] r run
    by (auto simp: holds_def matches_a_simple_model_over_many_wraparounds_def)
qed

end
