(* ===== verification/Codec_Tests.thy ===== *)
theory Codec_Tests
  imports Testing Codec
begin

text \<open>
  The unit tests of \<open>src/codec.rs\<close> on the model. The test with random garbage asserts only that decoding does
  not panic, which the type of \<open>decode_span\<close> says.
\<close>

section \<open>Helpers\<close>

definition query_span :: span_record where
  "query_span =
     \<lparr>sp_trace_id = [0x11, 0x22, 0x33, 0x44, 0x55, 0x66, 0x77, 0x88, 0x99, 0xAA, 0xBB, 0xCC, 0xDD, 0xEE, 0xFF, 0x00],
      sp_span_id = [0, 0, 0, 0, 0, 0, 0, 7], sp_parent_id = SPAN_ID_INVALID, sp_name = lit ''SELECT public.t'',
      sp_start_time = 1700000000123456789, sp_end_time = 1700000000223456789,
      sp_attributes = Query
        \<lparr>parent_is_remote = True, operation = lit ''SELECT'',
         query_text = Some (lit ''SELECT * FROM t WHERE x = $1 -- '' @ [0xC3, 0xA9, 0xE2, 0x82, 0xAC, 0xF0, 0x9F, 0x98, 0x80]),
         query_id = - 42, exec_total_time_ns = 100000000, plan_spans_omitted = 17\<rparr>\<rparr>"

definition plan_span :: span_record where
  "plan_span =
     \<lparr>sp_trace_id = replicate 15 0 @ [5], sp_span_id = [0, 0, 0, 0, 0, 0, 0, 9], sp_parent_id = [0, 0, 0, 0, 0, 0, 0, 7],
      sp_name = lit ''postgresql.operation.T_SeqScanState [public.t]'',
      sp_start_time = 5000000000, sp_end_time = 6000000000,
      sp_attributes = PlanNode
        \<lparr>node_type = lit ''T_SeqScanState'', node_relation = Some (lit ''public.t''),
         parent_relationship = Some (lit ''Member''), subplan_name = Some (lit ''InitPlan 1''), subplans_removed = 2,
         workers_launched = Some 3, never_executed = True, instrumentation_incomplete = True,
         startup_cost = 0, total_cost = 0x4041C00000000000, plan_rows = 0x40A3EC0000000000, width_bytes = - 4,
         parallel_aware = True, parallel_safe = False, async_capable = True,
         instr_startup_time_ns = 11, instr_total_time_ns = 22, instr_rows = 0x4024000000000000,
         instr_secondary_rows = 0x3FE0000000000000, instr_loops = 0x4008000000000000,
         instr_rows_removed_by_scan_or_join_filter = 0x3FF0000000000000,
         instr_rows_removed_by_other_filter = 0x7FEFFFFFFFFFFFFF\<rparr>\<rparr>"

definition encoded :: "span_record \<Rightarrow> bytes" where
  "encoded span = encode_span span []"

definition without_options :: "span_record \<Rightarrow> span_record" where
  "without_options s =
     s\<lparr>sp_attributes :=
       (case sp_attributes s of
          Query q \<Rightarrow> Query (q\<lparr>query_text := None\<rparr>)
        | PlanNode n \<Rightarrow> PlanNode
            (n\<lparr>node_relation := None, parent_relationship := None, subplan_name := None, workers_launched := None,
               subplans_removed := 0, never_executed := False, instrumentation_incomplete := False\<rparr>))\<rparr>"

section \<open>Tests\<close>

definition query_span_round_trips :: "unit option" where
  "query_span_round_trips = assert_that (decode_span (encoded query_span) = Inr query_span)"

definition plan_span_round_trips :: "unit option" where
  "plan_span_round_trips = assert_that (decode_span (encoded plan_span) = Inr plan_span)"

definition optional_fields_round_trip_when_absent :: "unit option" where
  "optional_fields_round_trip_when_absent = do {
     let span = without_options query_span;
     assert_that (decode_span (encoded span) = Inr span);
     let span = without_options plan_span;
     assert_that (decode_span (encoded span) = Inr span) }"

definition every_truncation_is_an_error_not_a_panic :: "unit option" where
  "every_truncation_is_an_error_not_a_panic =
     assert_that (list_all (\<lambda>span. let bytes = encoded span in
       list_all (\<lambda>len. is_err (decode_span (take len bytes))) [0..<length bytes]) [query_span, plan_span])"

definition trailing_bytes_are_rejected :: "unit option" where
  "trailing_bytes_are_rejected = assert_that (decode_span (encoded query_span @ [0]) = Inl TrailingBytes)"

definition unknown_version_kind_and_tags_are_rejected :: "unit option" where
  "unknown_version_kind_and_tags_are_rejected = do {
     let good = encoded query_span;
     assert_that (decode_span (good[0 := 99]) = Inl (UnknownTag 99));
     assert_that (decode_span (good[1 := 77]) = Inl (UnknownTag 77)) }"

definition oversized_string_length_is_truncation :: "unit option" where
  "oversized_string_length_is_truncation = (
     let bytes = encoded query_span; name_len_at = 2 + 16 + 8 + 8 + 8 + 8;
         bytes = take name_len_at bytes @ to_le_bytes (- 1 :: u32) @ drop (name_len_at + 4) bytes
     in assert_that (decode_span bytes = Inl Truncated))"

definition invalid_utf8_is_rejected :: "unit option" where
  "invalid_utf8_is_rejected = (
     let bytes = encoded (query_span\<lparr>sp_name := lit ''abc''\<rparr>); name_at = 2 + 16 + 8 + 8 + 8 + 8 + 4
     in assert_that (decode_span (bytes[name_at := 0xFF]) = Inl InvalidUtf8))"

definition batch_round_trips_through_the_record_stream :: "unit option" where
  "batch_round_trips_through_the_record_stream = do {
     let (batch, skipped) = encode_batch [plan_span, query_span];
     assert_that (skipped = 0);
     assert_that (batch_records batch = 2);
     assert_that (map (\<lambda>payload. Option.bind (unwrap payload) (\<lambda>p. unwrap (decode_span p))) (records (batch_bytes batch)) =
       [Some plan_span, Some query_span]) }"

definition spans_too_large_for_a_record_are_skipped :: "unit option" where
  "spans_too_large_for_a_record_are_skipped = do {
     let huge = query_span\<lparr>sp_name := replicate (MAX_RECORD_BYTES + 1) 0x78\<rparr>;
     let (batch, skipped) = encode_batch [huge, plan_span];
     assert_that (skipped = 1);
     assert_that (batch_records batch = 1) }"

definition decode_records_skips_undecodable_records :: "unit option" where
  "decode_records_skips_undecodable_records = do {
     let (res, batch) = push_record batch_new (encode_span plan_span);
     unwrap res;
     let (res, batch) = push_record batch (\<lambda>out. out @ lit ''not a span'');
     unwrap res;
     let (res, batch) = push_record batch (encode_span query_span);
     unwrap res;
     assert_that (decode_records (batch_bytes batch) = ([plan_span, query_span], 1)) }"

definition decode_records_stops_at_a_corrupt_stream :: "unit option" where
  "decode_records_stops_at_a_corrupt_stream = do {
     let bytes = batch_bytes (fst (encode_batch [plan_span])) @ [0xFF, 0xFF, 0xFF, 0xFF, 1];
     let (spans, undecodable) = decode_records bytes;
     assert_that (length spans = 1);
     assert_that (undecodable = 1) }"

definition times_before_the_epoch_clamp_to_the_epoch :: "unit option" where
  "times_before_the_epoch_clamp_to_the_epoch = do {
     decoded \<leftarrow> unwrap (decode_span (encoded (plan_span\<lparr>sp_start_time := - 1000000000\<rparr>)));
     assert_that (sp_start_time decoded = 0) }"

section \<open>They pass\<close>

lemma test_spans_ok:
  "span_ok query_span" "span_ok plan_span" "span_ok (without_options query_span)" "span_ok (without_options plan_span)"
  by code_simp+

lemma encoded_bytes: "encoded s = span_bytes s"
  by (simp add: encoded_def encode_span_def)

lemma decode_encoded: "span_ok s \<Longrightarrow> decode_span (encoded s) = Inr s"
  by (simp add: encoded_bytes decode_span_iff)

lemma round_trip_tests_pass:
  "query_span_round_trips = Some ()" "plan_span_round_trips = Some ()" "optional_fields_round_trip_when_absent = Some ()"
  using test_spans_ok
  by (simp_all add: query_span_round_trips_def plan_span_round_trips_def optional_fields_round_trip_when_absent_def decode_encoded)

lemma truncation_err:
  assumes "span_ok s" and "n < length (encoded s)"
  shows "is_err (decode_span (take n (encoded s)))"
proof -
  have "decode_span_fields (take n (span_bytes s)) = Inl Truncated"
    using assms by (intro span_f.get_prefix [of s _ "drop n (span_bytes s)"]) (simp_all add: encoded_bytes)
  then show ?thesis by (simp add: decode_span_def encoded_bytes)
qed

lemma every_truncation_is_an_error_not_a_panic_passes: "every_truncation_is_an_error_not_a_panic = Some ()"
  using truncation_err test_spans_ok(1,2) by (simp add: every_truncation_is_an_error_not_a_panic_def Let_def list_all_iff)

lemma trailing_bytes_are_rejected_passes: "trailing_bytes_are_rejected = Some ()"
  using span_f.get_put [OF test_spans_ok(1), of "[0]"]
  by (simp add: trailing_bytes_are_rejected_def decode_span_def encoded_bytes)

lemma test_spans_length: "length (span_bytes query_span) < 1000" "length (span_bytes plan_span) < 1000"
  by (simp_all add: span_bytes_def encode_attributes_def encode_query_def encode_plan_node_def
      put_str_def put_opt_str_def put_opt_i64_def put_i64_def put_u64_def put_f64_def put_i32_def
      put_bool_def put_time_def Let_def lit_def query_span_def plan_span_def SPAN_ID_INVALID_def)

text \<open>The fixed part of an encoding, and reading behind it.\<close>

definition fixed_part :: "span_record \<Rightarrow> bytes" where
  "fixed_part s = sp_trace_id s @ sp_span_id s @ sp_parent_id s @ put_time (sp_start_time s) @ put_time (sp_end_time s)"

lemma encoded_parts:
  "encoded s = FORMAT_VERSION # span_kind (sp_attributes s) # fixed_part s @ put_str (sp_name s) @ encode_attributes (sp_attributes s)"
  by (simp add: encoded_bytes span_bytes_def fixed_part_def)

lemma fixed_part_length: "span_ok s \<Longrightarrow> length (fixed_part s) = 48"
  by (simp add: fixed_part_def span_ok_def put_time_def Let_def)

lemma read_fixed_part:
  assumes "span_ok s"
  shows "decode_span_fields (FORMAT_VERSION # kind # fixed_part s @ rest) =
    rd_bind rd_string (\<lambda>nm. rd_bind (decode_attributes kind) (\<lambda>attr.
      rd_return \<lparr>sp_trace_id = sp_trace_id s, sp_span_id = sp_span_id s, sp_parent_id = sp_parent_id s, sp_name = nm,
        sp_start_time = sp_start_time s, sp_end_time = sp_end_time s, sp_attributes = attr\<rparr>)) rest"
  using assms by (simp add: decode_span_fields_def fixed_part_def span_ok_def field_puts)

lemma unknown_version_kind_and_tags_are_rejected_passes: "unknown_version_kind_and_tags_are_rejected = Some ()"
proof -
  have version: "decode_span ((encoded query_span)[0 := 99]) = Inl (UnknownTag 99)"
    by (simp add: encoded_parts decode_span_def decode_span_fields_def FORMAT_VERSION_def rd_fail_def)
  have "str_ok (sp_name query_span)" using test_spans_ok(1) by (simp add: span_ok_def)
  then have "decode_span ((encoded query_span)[1 := 77]) = Inl (UnknownTag 77)"
    using read_fixed_part [OF test_spans_ok(1), of 77 "put_str (sp_name query_span) @ encode_attributes (sp_attributes query_span)"]
    unfolding str_f.bind_put [OF \<open>str_ok (sp_name query_span)\<close>]
    by (simp add: encoded_parts decode_span_def rd_bind_def decode_attributes_def KIND_QUERY_def KIND_PLAN_NODE_def rd_fail_def)
  with version show ?thesis by (simp add: unknown_version_kind_and_tags_are_rejected_def)
qed

lemma oversized_string_length_is_truncation_passes: "oversized_string_length_is_truncation = Some ()"
proof -
  let ?rest = "drop 4 (put_str (sp_name query_span) @ encode_attributes (sp_attributes query_span))"
  note test_spans_length(1)
  then have few: "length ?rest < 1000" by (simp add: encoded_parts flip: encoded_bytes)
  have "take 50 (encoded query_span) = FORMAT_VERSION # span_kind (sp_attributes query_span) # fixed_part query_span"
    "drop 54 (encoded query_span) = ?rest"
    using fixed_part_length [OF test_spans_ok(1)] by (simp_all add: encoded_parts)
  moreover have "rd_string (to_le_bytes (- 1 :: u32) @ ?rest) = Inl Truncated"
    using few unfolding rd_string_def
    by (subst array_f.bind_put) (simp_all add: from_to_le_u32 rd_bind_def rd_take_def unsigned_minus_1_eq_mask mask_eq_exp_minus_1)
  ultimately show ?thesis
    using read_fixed_part [OF test_spans_ok(1), of "span_kind (sp_attributes query_span)" "to_le_bytes (- 1 :: u32) @ ?rest"]
    by (simp add: oversized_string_length_is_truncation_def Let_def decode_span_def rd_bind_def)
qed

lemma invalid_utf8_is_rejected_passes: "invalid_utf8_is_rejected = Some ()"
proof -
  let ?s = "query_span\<lparr>sp_name := lit ''abc''\<rparr>" and ?rest = "encode_attributes (sp_attributes query_span)"
  have ok: "span_ok ?s" by code_simp
  have "put_str (lit ''abc'') = to_le_bytes (3 :: u32) @ [0x61, 0x62, 0x63]" by code_simp
  then have "(encoded ?s)[54 := 0xFF] = FORMAT_VERSION # span_kind (sp_attributes query_span) # fixed_part ?s @
      to_le_bytes (3 :: u32) @ [0xFF, 0x62, 0x63] @ ?rest"
    using fixed_part_length [OF ok] by (simp add: encoded_parts list_update_append)
  moreover have "\<not> utf8_valid [0xFF, 0x62, 0x63]" by code_simp
  then have "rd_string (to_le_bytes (3 :: u32) @ [0xFF, 0x62, 0x63] @ ?rest) = Inl InvalidUtf8"
    unfolding rd_string_def by (subst array_f.bind_put) (simp_all add: from_to_le_u32 rd_bind_def rd_take_def rd_fail_def)
  ultimately show ?thesis
    using read_fixed_part [OF ok, of "span_kind (sp_attributes query_span)" "to_le_bytes (3 :: u32) @ [0xFF, 0x62, 0x63] @ ?rest"]
    by (simp add: invalid_utf8_is_rejected_def Let_def decode_span_def rd_bind_def)
qed

lemma times_before_the_epoch_clamp_to_the_epoch_passes: "times_before_the_epoch_clamp_to_the_epoch = Some ()"
proof -
  let ?s = "plan_span\<lparr>sp_start_time := - 1000000000\<rparr>"
  have "clamp_span ?s = plan_span\<lparr>sp_start_time := 0\<rparr>" by (simp add: clamp_span_def clamp_time_def plan_span_def)
  moreover have "span_typed ?s" by code_simp
  ultimately have "decode_span (encoded ?s) = Inr (plan_span\<lparr>sp_start_time := 0\<rparr>)"
    using clamp_span_ok [of ?s] by (metis encoded_bytes decode_span_iff span_bytes_clamp)
  then show ?thesis by (simp add: times_before_the_epoch_clamp_to_the_epoch_def)
qed

lemma test_spans_fit: "span_fits query_span" "span_fits plan_span" "span_typed query_span" "span_typed plan_span"
  using test_spans_ok(1,2) test_spans_length by (simp_all add: span_fits_def payload_ok_def MAX_RECORD_BYTES_def span_ok_typed)

lemma encoded_batch:
  assumes "list_all span_typed spans" and "list_all span_fits spans"
  shows "\<exists>b. encode_batch spans = (b, 0) \<and> batch_rep b (map span_bytes spans)"
  using encode_batch_rep [OF assms(1)] assms(2) by (simp add: list_all_iff filter_id_conv [THEN iffD2])

lemma batch_round_trips_through_the_record_stream_passes: "batch_round_trips_through_the_record_stream = Some ()"
proof -
  obtain b where b: "encode_batch [plan_span, query_span] = (b, 0)" "batch_rep b [span_bytes plan_span, span_bytes query_span]"
    using encoded_batch [of "[plan_span, query_span]"] test_spans_fit by auto
  then have "records (batch_bytes b) = map Inr [span_bytes plan_span, span_bytes query_span]" "batch_records b = 2"
    using records_stream [of "[span_bytes plan_span, span_bytes query_span]" "[]"] by (simp_all add: batch_rep_def)
  with b(1) show ?thesis
    using decode_encoded [OF test_spans_ok(1)] decode_encoded [OF test_spans_ok(2)]
    by (simp add: batch_round_trips_through_the_record_stream_def encoded_bytes)
qed

lemma spans_too_large_for_a_record_are_skipped_passes: "spans_too_large_for_a_record_are_skipped = Some ()"
proof -
  let ?huge = "query_span\<lparr>sp_name := replicate (MAX_RECORD_BYTES + 1) 0x78\<rparr>"
  have "\<not> span_fits ?huge" by (simp add: span_fits_def payload_ok_def span_bytes_def put_str_def Let_def MAX_RECORD_BYTES_def)
  moreover have "utf8_valid (replicate n 0x78)" for n by (rule ascii_valid) (simp add: list_all_iff)
  then have "span_typed ?huge" using test_spans_fit(3) by (simp add: span_typed_def str_ok_def MAX_RECORD_BYTES_def)
  ultimately show ?thesis
    using encode_batch_rep [of "[?huge, plan_span]"] test_spans_fit
    by (auto simp: spans_too_large_for_a_record_are_skipped_def Let_def batch_rep_def)
qed

lemma decode_records_skips_undecodable_records_passes: "decode_records_skips_undecodable_records = Some ()"
proof -
  let ?ps = "[span_bytes plan_span, lit ''not a span'', span_bytes query_span]"
  have ok: "payload_ok (span_bytes plan_span)" "payload_ok (lit ''not a span'')" "payload_ok (span_bytes query_span)"
    using test_spans_fit(1,2) by (simp_all add: span_fits_def payload_ok_def MAX_RECORD_BYTES_def lit_def)
  obtain b1 where b1: "push_record batch_new (encode_span plan_span) = (Inr (), b1)" "batch_rep b1 [span_bytes plan_span]"
    using push_record_rep [OF batch_rep_new _ ok(1), of "encode_span plan_span"] by (auto simp: encode_span_def)
  obtain b2 where b2: "push_record b1 (\<lambda>out. out @ lit ''not a span'') = (Inr (), b2)"
    "batch_rep b2 [span_bytes plan_span, lit ''not a span'']"
    using push_record_rep [OF b1(2) _ ok(2), of "\<lambda>out. out @ lit ''not a span''"] by auto
  obtain b3 where b3: "push_record b2 (encode_span query_span) = (Inr (), b3)" "batch_rep b3 ?ps"
    using push_record_rep [OF b2(2) _ ok(3), of "encode_span query_span"] by (auto simp: encode_span_def)
  have "isl (decode_span (lit ''not a span''))"
    by (simp add: lit_def decode_span_def decode_span_fields_def FORMAT_VERSION_def rd_fail_def)
  then have "decodable ?ps = [plan_span, query_span]"
    using decode_encoded [OF test_spans_ok(1)] decode_encoded [OF test_spans_ok(2)]
    by (auto simp: decodable_simps encoded_bytes isl_def)
  then have "decode_records (batch_bytes b3) = ([plan_span, query_span], 1)"
    using decode_records_stream [of ?ps] ok b3(2) by (simp add: batch_rep_def)
  with b1(1) b2(1) b3(1) show ?thesis by (simp add: decode_records_skips_undecodable_records_def)
qed

lemma decode_records_stops_at_a_corrupt_stream_passes: "decode_records_stops_at_a_corrupt_stream = Some ()"
proof -
  let ?bad = "[0xFF, 0xFF, 0xFF, 0xFF, 1] :: bytes"
  obtain b where b: "encode_batch [plan_span] = (b, 0)" "batch_rep b [span_bytes plan_span]"
    using encoded_batch [of "[plan_span]"] test_spans_fit by auto
  have ok: "list_all payload_ok [span_bytes plan_span]" using test_spans_fit(2) by (simp add: span_fits_def)
  have "length (records ?bad) = 1 \<and> isl (hd (records ?bad))" by code_simp
  then have "\<exists>c. records ?bad = [Inl c]" by (cases "records ?bad") (auto simp: isl_def)
  then obtain c where "records (batch_bytes b @ ?bad) = [Inr (span_bytes plan_span), Inl c]"
    using records_stream [OF ok, of ?bad] b(2) by (auto simp: batch_rep_def)
  then show ?thesis using b(1) decode_encoded [OF test_spans_ok(2)]
    by (simp add: decode_records_stops_at_a_corrupt_stream_def decode_records_def encoded_bytes)
qed

end
