(* ===== verification/Trace_Tests.thy ===== *)
theory Trace_Tests
  imports Testing Traceparent
begin

text \<open>
  The unit tests of the trace context (\<open>unit_tests\<close> of \<open>src/postgres.rs\<close>, those of \<open>parse_traceparent\<close> and the
  parent contexts in \<open>src/span.rs\<close>) on the model, with a propagator that reads the values at their places
  in the trimmed header.
\<close>

section \<open>Helpers\<close>

definition test_otel :: otel where
  "test_otel =
     \<lparr>ot_extract = (\<lambda>get. case get (lit ''traceparent'') of
          None \<Rightarrow> \<lparr>cx_trace_id = TRACE_ID_INVALID, cx_span_id = SPAN_ID_INVALID, cx_is_sampled = False\<rparr>
        | Some h \<Rightarrow> (let h = trim h in
            \<lparr>cx_trace_id = unhex (take 32 (drop 3 h)), cx_span_id = unhex (take 16 (drop 36 h)),
             cx_is_sampled = (take 2 (drop 53 h) = lit ''01'')\<rparr>)),
      ot_is_valid = (\<lambda>c. cx_trace_id c \<noteq> TRACE_ID_INVALID \<and> cx_span_id c \<noteq> SPAN_ID_INVALID)\<rparr>"

definition test_rng :: rng where
  "test_rng = \<lparr>draws128 = [0, 77], draws64 = [0, 78]\<rparr>"

definition TP :: str where
  "TP = lit ''00-4bf92f3577b34da6a3ce929d0e0e4736-00f067aa0ba902b7-01''"

definition TP_UNSAMPLED :: str where
  "TP_UNSAMPLED = lit ''00-4bf92f3577b34da6a3ce929d0e0e4736-00f067aa0ba902b7-00''"

definition OTHER_TP :: str where
  "OTHER_TP = lit ''00-11111111111111111111111111111111-2222222222222222-01''"

definition found :: "str \<Rightarrow> trace_id option option" where
  "found t = map_option (map_option cx_trace_id) (traceparent_from_comments test_otel t)"

definition trace_hex :: "str \<Rightarrow> trace_id option" where
  "trace_hex tp = map_option cx_trace_id (parse_traceparent test_otel tp)"

text \<open>\<open>assert_eq!(found(text), Some(trace_hex(tp)))\<close> and \<open>assert_eq!(found(text), None)\<close>.\<close>

definition finds :: "str \<Rightarrow> str \<Rightarrow> unit option" where
  "finds t tp = do { expected \<leftarrow> trace_hex tp; c \<leftarrow> found t; assert_that (c = Some expected) }"

definition finds_none :: "str \<Rightarrow> unit option" where
  "finds_none t = do { c \<leftarrow> found t; assert_that (c = None) }"

section \<open>Tests\<close>

definition extracts_pg_otel_key_with_spaces :: "unit option" where
  "extracts_pg_otel_key_with_spaces =
     finds (lit ''SELECT 1 /* pg_otel.traceparent='' @ TP @ lit '' */'') TP"

definition extracts_pg_otel_key_without_spaces :: "unit option" where
  "extracts_pg_otel_key_without_spaces =
     finds (lit ''SELECT 1 /*pg_otel.traceparent='' @ TP @ lit ''*/'') TP"

definition extracts_leading_comment :: "unit option" where
  "extracts_leading_comment =
     finds (lit ''/* pg_otel.traceparent='' @ TP @ lit '' */ SELECT 1'') TP"

definition extracts_sqlcommenter_quoted_value :: "unit option" where
  "extracts_sqlcommenter_quoted_value =
     finds (lit ''SELECT 1 /*traceparent='' @ [0x27] @ TP @ [0x27] @ lit ''*/'') TP"

definition extracts_sqlcommenter_among_other_pairs :: "unit option" where
  "extracts_sqlcommenter_among_other_pairs =
     finds (lit ''SELECT 1 /*controller='' @ [0x27] @ lit ''users%2Fshow'' @ [0x27] @ lit '',framework='' @ [0x27] @ lit ''rails'' @ [0x27] @ lit '',traceparent='' @ [0x27] @ TP @ [0x27] @ lit '',route='' @ [0x27] @ lit ''%2Fusers'' @ [0x27] @ lit ''*/'') TP"

definition percent_decodes_value :: "unit option" where
  "percent_decodes_value =
     finds (lit ''SELECT 1 /*traceparent='' @ [0x27] @ (concat (map (\<lambda>c. if c = 0x2D then lit ''%2D'' else [c]) TP)) @ [0x27] @ lit ''*/'') TP"

definition accepts_double_quotes_and_spaces_around_equals :: "unit option" where
  "accepts_double_quotes_and_spaces_around_equals =
     finds (lit ''SELECT 1 /* pg_otel.traceparent = '' @ [0x22] @ TP @ [0x22] @ lit '' */'') TP"

definition multiple_comments_do_not_panic_and_first_valid_wins :: "unit option" where
  "multiple_comments_do_not_panic_and_first_valid_wins = do {
     finds_none (lit ''SELECT 1 FROM t WHERE x = 1 /* a */ /* b */'');
     finds (lit ''SELECT 1 /* a */ /* pg_otel.traceparent=bogus */ /* pg_otel.traceparent='' @ TP @ lit '' */ /* traceparent='' @ [0x27] @ OTHER_TP @ [0x27] @ lit '' */'') TP }"

definition nested_comments_are_scanned :: "unit option" where
  "nested_comments_are_scanned = do {
     finds (lit ''SELECT 1 /* outer /* pg_otel.traceparent='' @ TP @ lit '' */ tail */'') TP;
     finds (lit ''SELECT 1 /* outer /*pg_otel.traceparent='' @ TP @ lit ''*/*/'') TP }"

definition does_not_include_comment_terminator_in_value :: "unit option" where
  "does_not_include_comment_terminator_in_value =
     assert_that (traceparent_values (lit ''pg_otel.traceparent='' @ TP) = [TP])"

definition unterminated_comment_is_ignored :: "unit option" where
  "unterminated_comment_is_ignored = do {
     finds_none (lit ''SELECT 1 /* pg_otel.traceparent='' @ TP);
     finds_none (lit ''SELECT 1 /* traceparent='' @ [0x27]);
     finds_none (lit ''/*'');
     finds_none (lit ''*/ traceparent=x'') }"

definition unterminated_quote_is_dropped :: "unit option" where
  "unterminated_quote_is_dropped =
     assert_that (traceparent_values (lit ''traceparent='' @ [0x27] @ TP) = [])"

definition keys_are_case_insensitive :: "unit option" where
  "keys_are_case_insensitive = do {
     finds (lit ''SELECT 1 /* PG_OTEL.TraceParent='' @ TP @ lit '' */'') TP;
     finds (lit ''SELECT 1 /*TRACEPARENT='' @ [0x27] @ TP @ [0x27] @ lit ''*/'') TP }"

definition non_ascii_text_does_not_panic :: "unit option" where
  "non_ascii_text_does_not_panic = do {
     finds (lit ''SELECT '' @ [0x27, 0xC3, 0xA9, 0xE2, 0x82, 0xAC, 0xF0, 0x9F, 0x98, 0x80, 0x27] @ lit '' /* h'' @ [0xC3, 0xA9] @ lit ''llo '' @ [0xF0, 0x9F, 0x98, 0x80] @ lit '' pg_otel.traceparent='' @ TP @ lit '' '' @ [0xC3, 0xBC] @ lit ''n'' @ [0xC3, 0xAF] @ lit '' */ -- '' @ [0xC2, 0xBF]) TP;
     finds_none (lit ''/*'' @ [0xF0, 0x9F, 0x98, 0x80] @ lit ''*/ /*traceparent='' @ [0x27, 0xF0, 0x9F, 0x98, 0x80, 0x27] @ lit ''*/ '' @ [0xF0, 0x9F, 0x98, 0x80]);
     finds_none (lit ''/*'' @ [0xC3, 0xA9]);
     finds_none ([0xC3, 0xA9] @ lit ''*/'' @ [0xC3, 0xA9] @ lit ''/*'') }"

definition invalid_values_are_ignored :: "unit option" where
  "invalid_values_are_ignored = do {
     finds_none (lit ''SELECT 1 /* pg_otel.traceparent= */'');
     finds_none (lit ''SELECT 1 /* pg_otel.traceparent */'');
     finds_none (lit ''SELECT 1 /* traceparent='' @ [0x27, 0x27] @ lit '' */'');
     finds_none (lit ''SELECT 1 /* traceparent='' @ [0x27] @ lit ''not-a-traceparent'' @ [0x27] @ lit '' */'');
     finds_none (lit ''SELECT 1 /* traceparent='' @ [0x27] @ lit ''00-00000000000000000000000000000000-00f067aa0ba902b7-01'' @ [0x27] @ lit '' */'');
     finds_none (lit ''SELECT 1 /* other=1 */'');
     finds_none (lit ''SELECT 1 /* = '' @ [0x27] @ lit '' '' @ [0x22] @ lit '' , */'') }"

definition comment_marker_inside_string_literal_is_matched :: "unit option" where
  "comment_marker_inside_string_literal_is_matched =
     finds (lit ''SELECT '' @ [0x27] @ lit ''/* pg_otel.traceparent='' @ TP @ lit '' */'' @ [0x27]) TP"

definition key_outside_comment_is_ignored :: "unit option" where
  "key_outside_comment_is_ignored =
     finds_none (lit ''SELECT '' @ [0x27] @ lit ''pg_otel.traceparent='' @ TP @ [0x27])"

definition percent_decode_handles_malformed_escapes :: "unit option" where
  "percent_decode_handles_malformed_escapes = do {
     assert_that (percent_decode (lit ''a%2Fb'') = lit ''a/b'');
     assert_that (percent_decode (lit ''100%'') = lit ''100%'');
     assert_that (percent_decode (lit ''%zz%4'') = lit ''%zz%4'');
     assert_that (percent_decode (lit ''%ff'') = [0xEF, 0xBF, 0xBD]);
     assert_that (percent_decode (lit ''%C3%A9'') = [0xC3, 0xA9]) }"

text \<open>The parent that is decided, where a panic or a skipped trace fails the test.\<close>

definition decided_parent :: "str option \<Rightarrow> str option \<Rightarrow> parent_context option" where
  "decided_parent guc t = do {
     d \<leftarrow> decide_parent test_otel guc t test_rng;
     (decision, r) \<leftarrow> d;
     case decision of Trace parent \<Rightarrow> Some parent | Skip \<Rightarrow> None }"

definition skips :: "str option \<Rightarrow> str option \<Rightarrow> unit option" where
  "skips guc t = do { d \<leftarrow> decide_parent test_otel guc t test_rng; (decision, r) \<leftarrow> d; assert_that (decision = Skip) }"

definition guc_takes_precedence_over_comment :: "unit option" where
  "guc_takes_precedence_over_comment = do {
     parent \<leftarrow> decided_parent (Some TP) (Some (lit ''SELECT 1 /* traceparent='' @ [0x27] @ OTHER_TP @ [0x27] @ lit '' */''));
     expected \<leftarrow> trace_hex TP;
     assert_that (pc_trace_id parent = expected);
     assert_that (pc_is_remote parent) }"

definition invalid_guc_falls_back_to_comment :: "unit option" where
  "invalid_guc_falls_back_to_comment =
     foldl (\<lambda>ok guc. do {
       ok;
       parent \<leftarrow> decided_parent guc (Some (lit ''SELECT 1 /* traceparent='' @ [0x27] @ OTHER_TP @ [0x27] @ lit '' */''));
       expected \<leftarrow> trace_hex OTHER_TP;
       assert_that (pc_trace_id parent = expected);
       assert_that (pc_is_remote parent) }) (Some ()) [None, Some [], Some (lit ''bogus'')]"

definition no_parent_starts_new_trace :: "unit option" where
  "no_parent_starts_new_trace = do {
     parent \<leftarrow> decided_parent None (Some (lit ''SELECT 1''));
     assert_that (\<not> pc_is_remote parent);
     assert_that (pc_trace_id parent \<noteq> TRACE_ID_INVALID);
     assert_that (pc_span_id parent = SPAN_ID_INVALID);
     parent \<leftarrow> decided_parent None None;
     Some () }"

definition unsampled_parent_skips_tracing :: "unit option" where
  "unsampled_parent_skips_tracing = do {
     skips (Some TP_UNSAMPLED) None;
     skips None (Some (lit ''SELECT 1 /* traceparent='' @ [0x27] @ TP_UNSAMPLED @ [0x27] @ lit '' */'')) }"

text \<open>Of \<open>src/span.rs\<close>.\<close>

definition parses_valid_sampled_traceparent :: "unit option" where
  "parses_valid_sampled_traceparent = do {
     context \<leftarrow> parse_traceparent test_otel TP;
     assert_that (cx_is_sampled context);
     assert_that (cx_trace_id context =
       [0x4B, 0xF9, 0x2F, 0x35, 0x77, 0xB3, 0x4D, 0xA6, 0xA3, 0xCE, 0x92, 0x9D, 0x0E, 0x0E, 0x47, 0x36]);
     assert_that (cx_span_id context = [0x00, 0xF0, 0x67, 0xAA, 0x0B, 0xA9, 0x02, 0xB7]) }"

definition accepts_surrounding_whitespace_and_future_versions :: "unit option" where
  "accepts_surrounding_whitespace_and_future_versions = do {
     context \<leftarrow> parse_traceparent test_otel (lit ''  '' @ TP @ [0x0A]);
     context \<leftarrow> parse_traceparent test_otel (lit ''01-4bf92f3577b34da6a3ce929d0e0e4736-00f067aa0ba902b7-01-more'');
     Some () }"

definition parses_unsampled_flag :: "unit option" where
  "parses_unsampled_flag = do {
     context \<leftarrow> parse_traceparent test_otel TP_UNSAMPLED;
     assert_that (\<not> cx_is_sampled context) }"

definition rejects_invalid_traceparents :: "unit option" where
  "rejects_invalid_traceparents =
     assert_that (list_all (\<lambda>invalid. parse_traceparent test_otel invalid = None)
       [[],
        lit ''garbage'',
        lit ''00-00000000000000000000000000000000-00f067aa0ba902b7-01'',
        lit ''00-4bf92f3577b34da6a3ce929d0e0e4736-0000000000000000-01'',
        lit ''00-4bf92f3577b34da6a3ce929d0e0e4736-00f067aa0ba902b7'',
        lit ''00-4bf92f3577b34da6a3ce929d0e0e47-00f067aa0ba902b7-01'',
        lit ''00-4bf92f3577b34da6a3ce929d0e0e4736-00f067aa0ba9-01'',
        lit ''00-4bf92f3577b34da6a3ce929d0e0e4736-00f067aa0ba902b7-1'',
        lit ''00-4bf92f3577b34da6a3ce929d0e0e4736-00f067aa0ba902b7-01-extra'',
        lit ''ff-4bf92f3577b34da6a3ce929d0e0e4736-00f067aa0ba902b7-01'',
        lit ''00-4BF92F3577B34DA6A3CE929D0E0E4736-00f067aa0ba902b7-01'',
        lit ''00-4bf92f3577b34da6a3ce929d0e0e473'' @ [0xC3, 0xA9] @ lit ''-00f067aa0ba902b7-01''])"

definition root_parent_is_new_local_trace :: "unit option" where
  "root_parent_is_new_local_trace = do {
     (root, r) \<leftarrow> new_root test_rng;
     assert_that (pc_trace_id root \<noteq> TRACE_ID_INVALID);
     assert_that (pc_span_id root = SPAN_ID_INVALID);
     assert_that (\<not> pc_is_remote root) }"

definition remote_parent_keeps_ids_and_is_remote :: "unit option" where
  "remote_parent_keeps_ids_and_is_remote = do {
     remote \<leftarrow> parse_traceparent test_otel TP;
     let parent = from_remote remote;
     assert_that (pc_trace_id parent = cx_trace_id remote);
     assert_that (pc_span_id parent = cx_span_id remote);
     assert_that (pc_is_remote parent) }"

section \<open>They pass\<close>

text \<open>
  Evaluating a scan needs the texts as lists of bytes, a search for the key that lowers each letter once,
  and the headers' contexts.
\<close>

lemma TP_bytes:
  "TP = [48, 48, 45, 52, 98, 102, 57, 50, 102, 51, 53, 55, 55, 98, 51, 52, 100, 97, 54, 97, 51, 99, 101, 57, 50, 57, 100, 48, 101, 48, 101, 52, 55, 51, 54, 45, 48, 48, 102, 48, 54, 55, 97, 97, 48, 98, 97, 57, 48, 50, 98, 55, 45, 48, 49]"
  "TP_UNSAMPLED = [48, 48, 45, 52, 98, 102, 57, 50, 102, 51, 53, 55, 55, 98, 51, 52, 100, 97, 54, 97, 51, 99, 101, 57, 50, 57, 100, 48, 101, 48, 101, 52, 55, 51, 54, 45, 48, 48, 102, 48, 54, 55, 97, 97, 48, 98, 97, 57, 48, 50, 98, 55, 45, 48, 48]"
  "OTHER_TP = [48, 48, 45, 49, 49, 49, 49, 49, 49, 49, 49, 49, 49, 49, 49, 49, 49, 49, 49, 49, 49, 49, 49, 49, 49, 49, 49, 49, 49, 49, 49, 49, 49, 49, 49, 45, 50, 50, 50, 50, 50, 50, 50, 50, 50, 50, 50, 50, 50, 50, 50, 50, 45, 48, 49]"
  by (simp_all add: TP_def TP_UNSAMPLED_def OTHER_TP_def lit_def)

lemma key_bytes:
  "lit ''traceparent'' = [116, 114, 97, 99, 101, 112, 97, 114, 101, 110, 116]"
  "lit ''pg_otel.traceparent'' = [112, 103, 95, 111, 116, 101, 108, 46, 116, 114, 97, 99, 101, 112, 97, 114, 101, 110, 116]"
  by (simp_all add: lit_def)

fun has_prefix :: "str \<Rightarrow> str \<Rightarrow> bool" where
  "has_prefix [] s = True"
| "has_prefix (a # p) [] = False"
| "has_prefix (a # p) (b # s) = (a = b \<and> has_prefix p s)"

fun key_in :: "str \<Rightarrow> bool" where
  "key_in [] = False"
| "key_in (b # bs) = (has_prefix [116, 114, 97, 99, 101, 112, 97, 114, 101, 110, 116] (b # bs) \<or> key_in bs)"

lemma has_prefix_take: "has_prefix p s \<longleftrightarrow> length p \<le> length s \<and> take (length p) s = p"
  by (induction p s rule: has_prefix.induct) auto

lemma has_window_key_in: "has_window t = key_in (map ascii_lower t)"
proof (induction t)
  case (Cons b bs)
  have "map ascii_lower (lit ''traceparent'') = [116, 114, 97, 99, 101, 112, 97, 114, 101, 110, 116]"
    by (simp add: key_bytes ascii_lower_def)
  then have "(11 \<le> length (b # bs) \<and> eq_ignore_ascii_case (take 11 (b # bs)) (lit ''traceparent'')) =
      has_prefix [116, 114, 97, 99, 101, 112, 97, 114, 101, 110, 116] (map ascii_lower (b # bs))"
    unfolding has_prefix_take eq_ignore_ascii_case_def to_ascii_lowercase_def by (simp add: take_map eval_nat_numeral)
  then show ?case using Cons.IH by (simp only: has_window.simps list.map key_in.simps)
qed simp

lemma has_window_scan: "map ascii_lower t = u \<Longrightarrow> has_window t = key_in u"
  by (simp add: has_window_key_in)

lemma key_in_skip: "b \<noteq> 116 \<Longrightarrow> key_in (b # bs) = key_in bs"
  by simp

lemma key_in_t: "key_in (116 # bs) \<longleftrightarrow> has_prefix [114, 97, 99, 101, 112, 97, 114, 101, 110, 116] bs \<or> key_in bs"
  by simp

declare key_in.simps(2) [simp del]

text \<open>The rest of the text is a value already: the simplifier need not look into it again.\<close>

lemma key_in_cong: "key_in s = key_in s"
  by simp

text \<open>The classes of the printable bytes, as tables.\<close>

lemma whitespace_row:
  "is_whitespace [32]"
  "list_all (\<lambda>b. \<not> is_whitespace [b])
   [33, 34, 35, 36, 37, 38, 39, 40, 41, 42, 43, 44, 45, 46, 47, 48, 49, 50, 51, 52, 53, 54, 55, 56, 57,
    58, 59, 60, 61, 62, 63, 64, 65, 66, 67, 68, 69, 70, 71, 72, 73, 74, 75, 76, 77, 78, 79, 80, 81, 82,
    83, 84, 85, 86, 87, 88, 89, 90, 91, 92, 93, 94, 95, 96, 97, 98, 99, 100, 101, 102, 103, 104, 105,
    106, 107, 108, 109, 110, 111, 112, 113, 114, 115, 116, 117, 118, 119, 120, 121, 122, 123, 124, 125,
    126]"
  by code_simp+

lemma key_end_row:
  "list_all (\<lambda>b. ends_key [b]) [32, 34, 39, 44, 61]"
  "list_all (\<lambda>b. \<not> ends_key [b])
   [33, 35, 36, 37, 38, 40, 41, 42, 43, 45, 46, 47, 48, 49, 50, 51, 52, 53, 54, 55, 56, 57, 58, 59, 60,
    62, 63, 64, 65, 66, 67, 68, 69, 70, 71, 72, 73, 74, 75, 76, 77, 78, 79, 80, 81, 82, 83, 84, 85, 86,
    87, 88, 89, 90, 91, 92, 93, 94, 95, 96, 97, 98, 99, 100, 101, 102, 103, 104, 105, 106, 107, 108,
    109, 110, 111, 112, 113, 114, 115, 116, 117, 118, 119, 120, 121, 122, 123, 124, 125, 126]"
  by code_simp+

lemma lower_row:
  "list_all (\<lambda>b. ascii_lower b = b)
   [32, 33, 34, 35, 36, 37, 38, 39, 40, 41, 42, 43, 44, 45, 46, 47, 48, 49, 50, 51, 52, 53, 54, 55, 56,
    57, 58, 59, 60, 61, 62, 63, 64, 91, 92, 93, 94, 95, 96, 97, 98, 99, 100, 101, 102, 103, 104, 105,
    106, 107, 108, 109, 110, 111, 112, 113, 114, 115, 116, 117, 118, 119, 120, 121, 122, 123, 124, 125,
    126]"
  "map ascii_lower
   [65, 66, 67, 68, 69, 70, 71, 72, 73, 74, 75, 76, 77, 78, 79, 80, 81, 82, 83, 84, 85, 86, 87, 88, 89,
    90] =
   [97, 98, 99, 100, 101, 102, 103, 104, 105, 106, 107, 108, 109, 110, 111, 112, 113, 114, 115, 116,
    117, 118, 119, 120, 121, 122]"
  by code_simp+

lemma ascii_row: "list_all (\<lambda>b. b < (0x80 :: byte))
   [32, 33, 34, 35, 36, 37, 38, 39, 40, 41, 42, 43, 44, 45, 46, 47, 48, 49, 50, 51, 52, 53, 54, 55, 56,
    57, 58, 59, 60, 61, 62, 63, 64, 65, 66, 67, 68, 69, 70, 71, 72, 73, 74, 75, 76, 77, 78, 79, 80, 81,
    82, 83, 84, 85, 86, 87, 88, 89, 90, 91, 92, 93, 94, 95, 96, 97, 98, 99, 100, 101, 102, 103, 104,
    105, 106, 107, 108, 109, 110, 111, 112, 113, 114, 115, 116, 117, 118, 119, 120, 121, 122, 123, 124,
    125, 126]"
  by code_simp

lemma row_end: "([] = []) = True"
  by simp

lemmas list_rows = list.pred_inject list.map list.inject row_end

lemmas byte_classes = whitespace_row [unfolded list_rows] key_end_row [unfolded list_rows]
  lower_row [unfolded list_rows] ascii_row [unfolded list_rows]

text \<open>The loop over the comments, along the rest of the text.\<close>

fun scan :: "str \<Rightarrow> str list \<Rightarrow> nat list \<Rightarrow> nat \<Rightarrow> str \<Rightarrow> str list option" where
  "scan t comments opened i (a # b # r) =
     (if a = 0x2F \<and> b = 0x2A then scan t comments ((i + 2) # opened) (i + 2) r
      else if a = 0x2A \<and> b = 0x2F then
        (case opened of
           [] \<Rightarrow> scan t comments [] (i + 2) r
         | start # opened' \<Rightarrow>
             (case str_get t start i of None \<Rightarrow> None | Some c \<Rightarrow> scan t (comments @ [c]) opened' (i + 2) r))
      else scan t comments opened (i + 1) (b # r))"
| "scan t comments opened i [] = Some comments"
| "scan t comments opened i [a] = Some comments"

lemma block_comments_scan: "block_comments_loop t comments opened i = scan t comments opened i (drop i t)"
proof (induction t comments opened i rule: block_comments_loop.induct)
  case (1 t comments opened i)
  show ?case
  proof (cases "i + 1 < length t")
    case True
    then have "drop i t = t ! i # t ! (i + 1) # drop (i + 2) t"
      by (simp add: Cons_nth_drop_Suc)
    moreover have "drop (i + 1) t = t ! (i + 1) # drop (i + 2) t" using True by (simp add: Cons_nth_drop_Suc)
    ultimately show ?thesis using 1 True
      by (subst block_comments_loop.simps) (simp split: list.split option.split)
  next
    case False
    then have "length (drop i t) \<le> 1" by simp
    then have "drop i t = [] \<or> (\<exists>a. drop i t = [a])" by (cases "drop i t") auto
    then show ?thesis using False by (subst block_comments_loop.simps) auto
  qed
qed

lemma scan_skip: "a \<noteq> 0x2F \<Longrightarrow> a \<noteq> 0x2A \<Longrightarrow> scan t comments opened i (a # r) = scan t comments opened (i + 1) r"
  by (cases r) simp_all

lemma block_comments_start: "block_comments t = scan t [] [] 0 t"
  by (simp add: block_comments_def block_comments_scan)

lemma scan_cong:
  "comments = comments' \<Longrightarrow> opened = opened' \<Longrightarrow> i = i' \<Longrightarrow> scan t comments opened i r = scan t comments' opened' i' r"
  by simp

lemma hex_row:
  "list_all is_hex_byte [48, 49, 50, 51, 52, 53, 54, 55, 56, 57, 97, 98, 99, 100, 101, 102]"
  "list_all (\<lambda>b. \<not> is_hex_byte b)
   [32, 33, 34, 35, 36, 37, 38, 39, 40, 41, 42, 43, 44, 45, 46, 47, 58, 59, 60, 61, 62, 63, 64, 65, 66,
    67, 68, 69, 70, 71, 72, 73, 74, 75, 76, 77, 78, 79, 80, 81, 82, 83, 84, 85, 86, 87, 88, 89, 90, 91,
    92, 93, 94, 95, 96, 103, 104, 105, 106, 107, 108, 109, 110, 111, 112, 113, 114, 115, 116, 117, 118,
    119, 120, 121, 122, 123, 124, 125, 126]"
  by code_simp+

lemma unhex_row:
  "map hex_digit [48, 49, 50, 51, 52, 53, 54, 55, 56, 57, 65, 66, 67, 68, 69, 70, 97, 98, 99, 100, 101, 102] =
   [Some 0, Some 1, Some 2, Some 3, Some 4, Some 5, Some 6, Some 7, Some 8, Some 9, Some 10, Some 11, Some 12, Some 13, Some 14, Some 15, Some 10, Some 11, Some 12, Some 13, Some 14, Some 15]"
  "list_all (\<lambda>b. hex_digit b = None)
   [32, 33, 34, 35, 36, 37, 38, 39, 40, 41, 42, 43, 44, 45, 46, 47, 58, 59, 60, 61, 62, 63, 64, 71, 72,
    73, 74, 75, 76, 77, 78, 79, 80, 81, 82, 83, 84, 85, 86, 87, 88, 89, 90, 91, 92, 93, 94, 95, 96,
    103, 104, 105, 106, 107, 108, 109, 110, 111, 112, 113, 114, 115, 116, 117, 118, 119, 120, 121, 122,
    123, 124, 125, 126]"
  by code_simp+

lemmas hex_classes = hex_row [unfolded list_rows] unhex_row [unfolded list_rows]

lemma invalid_ids: "TRACE_ID_INVALID = [0, 0, 0, 0, 0, 0, 0, 0, 0, 0, 0, 0, 0, 0, 0, 0]" "SPAN_ID_INVALID = [0, 0, 0, 0, 0, 0, 0, 0]"
  by (simp_all add: TRACE_ID_INVALID_def SPAN_ID_INVALID_def numeral_eq_Suc)

lemmas parse_defs = byte_classes hex_classes parse_traceparent_def has_traceparent_shape_def split_dash.simps is_hex_def trim_def
  chars_ascii_Cons extractor_get_def test_otel_def Let_def unhex.simps invalid_ids key_bytes
  eq_ignore_ascii_case_def to_ascii_lowercase_def lit_def

lemma parsed:
  "parse_traceparent test_otel TP = Some \<lparr>cx_trace_id = [75, 249, 47, 53, 119, 179, 77, 166, 163, 206, 146, 157, 14, 14, 71, 54], cx_span_id = [0, 240, 103, 170, 11, 169, 2, 183], cx_is_sampled = True\<rparr>"
  "parse_traceparent test_otel TP_UNSAMPLED = Some \<lparr>cx_trace_id = [75, 249, 47, 53, 119, 179, 77, 166, 163, 206, 146, 157, 14, 14, 71, 54], cx_span_id = [0, 240, 103, 170, 11, 169, 2, 183], cx_is_sampled = False\<rparr>"
  "parse_traceparent test_otel OTHER_TP = Some \<lparr>cx_trace_id = [17, 17, 17, 17, 17, 17, 17, 17, 17, 17, 17, 17, 17, 17, 17, 17], cx_span_id = [34, 34, 34, 34, 34, 34, 34, 34], cx_is_sampled = True\<rparr>"
  "parse_traceparent test_otel [48, 48, 45, 48, 48, 48, 48, 48, 48, 48, 48, 48, 48, 48, 48, 48, 48, 48, 48, 48, 48, 48, 48, 48, 48, 48, 48, 48, 48, 48, 48, 48, 48, 48, 48, 45, 48, 48, 102, 48, 54, 55, 97, 97, 48, 98, 97, 57, 48, 50, 98, 55, 45, 48, 49] = None"
  by (simp_all add: parse_defs TP_bytes)

lemma unparsed:
  "parse_traceparent test_otel [] = None" "parse_traceparent test_otel [98, 111, 103, 117, 115] = None"
  "parse_traceparent test_otel [110, 111, 116, 45, 97, 45, 116, 114, 97, 99, 101, 112, 97, 114, 101, 110, 116] = None"
  by (simp_all add: parse_defs TP_bytes)

lemma unparsed_emoji: "parse_traceparent test_otel [0xF0, 0x9F, 0x98, 0x80] = None"
  by code_simp

lemma lossy_ascii_Cons: "b < 0x80 \<Longrightarrow> utf8_lossy (b # s) = b # utf8_lossy s"
  by (subst utf8_lossy.simps) simp

lemma split_value_Cons:
  "split_value [] = ([], [])"
  "split_value ([39] # body) =
     (if [39] \<in> set body then (takeWhile (\<lambda>c. c \<noteq> [39]) body, tl (dropWhile (\<lambda>c. c \<noteq> [39]) body)) else ([], []))"
  "split_value ([34] # body) =
     (if [34] \<in> set body then (takeWhile (\<lambda>c. c \<noteq> [34]) body, tl (dropWhile (\<lambda>c. c \<noteq> [34]) body)) else ([], []))"
  "q \<noteq> [39] \<Longrightarrow> q \<noteq> [34] \<Longrightarrow> split_value (q # body) =
     (takeWhile (\<lambda>c. \<not> (is_whitespace c \<or> c = COMMA)) (q # body), dropWhile (\<lambda>c. \<not> (is_whitespace c \<or> c = COMMA)) (q # body))"
  by (simp_all add: split_value_def SQUOTE_def DQUOTE_def)

text \<open>A header in a text is taken as a whole: what its bytes have in common is enough.\<close>

definition header_text :: "str \<Rightarrow> bool" where
  "header_text h \<longleftrightarrow>
     length h = 55 \<and>
     list_all (\<lambda>b. b \<in> set [45, 48, 49, 50, 51, 52, 53, 54, 55, 56, 57, 97, 98, 99, 100, 101, 102]) h"

lemma header_texts [simp]: "header_text TP" "header_text TP_UNSAMPLED" "header_text OTHER_TP"
  by (simp_all add: header_text_def TP_bytes)

lemma header_byte:
  assumes "header_text h" and "b \<in> set h"
  shows "b < 0x80" and "\<not> is_whitespace [b]" and "\<not> ends_key [b]" and "ascii_lower b = b"
    and "b \<noteq> 0x2F" and "b \<noteq> 0x2A" and "b \<noteq> 0x25" and "b \<noteq> 0x74" and "b \<noteq> 0x2C" and "b \<noteq> 0x27" and "b \<noteq> 0x22"
  using assms by (auto simp: header_text_def list_all_iff byte_classes)

lemma header_length: "header_text h \<Longrightarrow> length h = 55" "header_text h \<Longrightarrow> h \<noteq> []"
  by (auto simp: header_text_def)

lemma header_scan:
  assumes "header_text h"
  shows "scan t comments opened i (h @ r) = scan t comments opened (i + 55) r"
    and "scan t comments opened i h = Some comments"
proof -
  have skip: "scan t comments opened i (s @ r) = scan t comments opened (i + length s) r"
    if "\<forall>b \<in> set s. b \<noteq> 0x2F \<and> b \<noteq> 0x2A" for s i r
    using that
  proof (induction s arbitrary: i)
    case (Cons a s)
    then show ?case by (simp add: scan_skip)
  qed simp
  from assms have "\<forall>b \<in> set h. b \<noteq> 0x2F \<and> b \<noteq> 0x2A" by (auto dest: header_byte)
  from skip [OF this, of i r] skip [OF this, of i "[]"] header_length [OF assms]
  show "scan t comments opened i (h @ r) = scan t comments opened (i + 55) r"
    and "scan t comments opened i h = Some comments" by simp_all
qed

lemma header_lower: "header_text h \<Longrightarrow> map ascii_lower h = h"
  by (intro map_idI header_byte)

lemma header_key_in: "header_text h \<Longrightarrow> key_in (h @ r) = key_in r" "header_text h \<Longrightarrow> \<not> key_in h"
proof -
  have skip: "key_in (s @ r) = key_in r" if "\<forall>b \<in> set s. b \<noteq> 116" for s r
    using that by (induction s) (simp_all add: key_in_skip)
  assume "header_text h"
  then have "\<forall>b \<in> set h. b \<noteq> 116" by (auto dest: header_byte)
  from skip [OF this, of r] skip [OF this, of "[]"] show "key_in (h @ r) = key_in r" and "\<not> key_in h" by simp_all
qed

lemma header_chars:
  "header_text h \<Longrightarrow> chars (h @ r) = map (\<lambda>b. [b]) h @ chars r" "header_text h \<Longrightarrow> chars h = map (\<lambda>b. [b]) h"
proof -
  have ascii: "chars (s @ r) = map (\<lambda>b. [b]) s @ chars r" if "\<forall>b \<in> set s. b < 0x80" for s r
    using that by (induction s) (simp_all add: chars_ascii_Cons)
  assume "header_text h"
  then have "\<forall>b \<in> set h. b < 0x80" by (auto dest: header_byte)
  from ascii [OF this, of r] ascii [OF this, of "[]"]
  show "chars (h @ r) = map (\<lambda>b. [b]) h @ chars r" and "chars h = map (\<lambda>b. [b]) h" by simp_all
qed

text \<open>A header behind its key, with or without quotes.\<close>

lemma header_value:
  assumes "header_text h"
  shows "dropWhile is_whitespace (map (\<lambda>b. [b]) h @ r) = map (\<lambda>b. [b]) h @ r"
    and "split_value (map (\<lambda>b. [b]) h @ r) =
      (map (\<lambda>b. [b]) h @ takeWhile (\<lambda>c. \<not> (is_whitespace c \<or> c = COMMA)) r,
       dropWhile (\<lambda>c. \<not> (is_whitespace c \<or> c = COMMA)) r)"
    and "takeWhile (\<lambda>c. c \<noteq> [39]) (map (\<lambda>b. [b]) h @ r) = map (\<lambda>b. [b]) h @ takeWhile (\<lambda>c. c \<noteq> [39]) r"
    and "takeWhile (\<lambda>c. c \<noteq> [34]) (map (\<lambda>b. [b]) h @ r) = map (\<lambda>b. [b]) h @ takeWhile (\<lambda>c. c \<noteq> [34]) r"
    and "dropWhile (\<lambda>c. c \<noteq> [39]) (map (\<lambda>b. [b]) h @ r) = dropWhile (\<lambda>c. c \<noteq> [39]) r"
    and "dropWhile (\<lambda>c. c \<noteq> [34]) (map (\<lambda>b. [b]) h @ r) = dropWhile (\<lambda>c. c \<noteq> [34]) r"
proof -
  let ?s = "map (\<lambda>b. [b]) h"
  have s: "\<not> is_whitespace c" "c \<noteq> [39]" "c \<noteq> [34]" "c \<noteq> [44]" if "c \<in> set ?s" for c
    using that header_byte(2) [OF assms] header_byte(9) [OF assms, of 44] header_byte(10) [OF assms, of 39]
      header_byte(11) [OF assms, of 34] by auto
  obtain c s' where c: "?s = c # s'" using header_length(2) [OF assms] by (cases ?s) auto
  with s [of c] show "dropWhile is_whitespace (?s @ r) = ?s @ r" by simp
  have "\<forall>c \<in> set ?s. \<not> (is_whitespace c \<or> c = COMMA)" using s by (auto simp: COMMA_def)
  then have "takeWhile (\<lambda>c. \<not> (is_whitespace c \<or> c = COMMA)) (?s @ r) = ?s @ takeWhile (\<lambda>c. \<not> (is_whitespace c \<or> c = COMMA)) r"
    "dropWhile (\<lambda>c. \<not> (is_whitespace c \<or> c = COMMA)) (?s @ r) = dropWhile (\<lambda>c. \<not> (is_whitespace c \<or> c = COMMA)) r"
    by (subst takeWhile_append2 dropWhile_append2; blast)+
  with c s [of c] show "split_value (?s @ r) =
      (?s @ takeWhile (\<lambda>c. \<not> (is_whitespace c \<or> c = COMMA)) r, dropWhile (\<lambda>c. \<not> (is_whitespace c \<or> c = COMMA)) r)"
    by (simp add: split_value_def SQUOTE_def DQUOTE_def)
  have "takeWhile (\<lambda>c. c \<noteq> q) (?s @ r) = ?s @ takeWhile (\<lambda>c. c \<noteq> q) r \<and>
      dropWhile (\<lambda>c. c \<noteq> q) (?s @ r) = dropWhile (\<lambda>c. c \<noteq> q) r"
    if "q \<in> {[39], [34]}" for q
    using that s(2,3) by (intro conjI takeWhile_append2 dropWhile_append2) blast+
  from this [of "[39]"] this [of "[34]"] show
    "takeWhile (\<lambda>c. c \<noteq> [39]) (?s @ r) = ?s @ takeWhile (\<lambda>c. c \<noteq> [39]) r"
    "takeWhile (\<lambda>c. c \<noteq> [34]) (?s @ r) = ?s @ takeWhile (\<lambda>c. c \<noteq> [34]) r"
    "dropWhile (\<lambda>c. c \<noteq> [39]) (?s @ r) = dropWhile (\<lambda>c. c \<noteq> [39]) r"
    "dropWhile (\<lambda>c. c \<noteq> [34]) (?s @ r) = dropWhile (\<lambda>c. c \<noteq> [34]) r" by simp_all
qed

lemma header_decode: "header_text h \<Longrightarrow> percent_decode h = h"
  by (intro percent_decode_ascii) (auto simp: list_all_iff dest: header_byte)

lemma header_elements:
  assumes "header_text h"
  shows "\<exists>b. b \<in> set h" and "[39] \<notin> (\<lambda>b. [b]) ` set h" and "[34] \<notin> (\<lambda>b. [b]) ` set h"
  using header_length(2) [OF assms] header_byte(10,11) [OF assms] by (auto simp: ex_in_conv)

lemma percent_decode_text:
  "percent_decode [] = []" "percent_decode (b # bs) = utf8_lossy (percent_decode_bytes (b # bs))"
  by (simp_all add: percent_decode_def)

lemma concat_singletons: "concat (map (\<lambda>b. [b]) h) = h"
  by (induction h) simp_all

lemmas header_scans = header_scan header_lower header_key_in header_chars header_value header_value(1,2) [where r = "[]", simplified]
  header_decode header_elements concat_singletons header_length nth_append

lemmas text_defs = byte_classes finds_def finds_none_def found_def trace_hex_def traceparent_from_comments_def has_window_scan key_in_skip key_in_t
  lit_def unparsed unparsed_emoji Let_def
  block_comments_start scan_skip numeral_2_eq_2 [symmetric] str_get_def is_char_boundary_def is_cont_def
  traceparent_values_def traceparent_values_loop.simps chars_ascii_Cons
  EQUALS_def COMMA_def SQUOTE_def DQUOTE_def split_value_Cons is_traceparent_key_def key_bytes
  eq_ignore_ascii_case_def to_ascii_lowercase_def percent_decode_text percent_escape_def hex_digit_def lossy_ascii_Cons

lemmas scan_defs = text_defs parsed header_scans

lemmas byte_defs = text_defs TP_bytes parsed [unfolded TP_bytes]

text \<open>Characters that are not ASCII.\<close>

lemma chars_wide: "\<not> b < 0x80 \<Longrightarrow>
    chars (b # s) = take (snd (utf8_step (b # s))) (b # s) # chars (drop (snd (utf8_step (b # s))) (b # s))"
  by (subst chars.simps) simp

lemma wide_row:
  "list_all (\<lambda>c. \<not> is_whitespace c \<and> \<not> ends_key c) [[0xC3, 0xA9], [0xC3, 0xBC], [0xC3, 0xAF], [0xF0, 0x9F, 0x98, 0x80]]"
  "list_all (\<lambda>b. ascii_lower b = b \<and> \<not> b < 0x80)
     [0xC3, 0xA9, 0xE2, 0x82, 0xAC, 0xF0, 0x9F, 0x98, 0x80, 0xBC, 0xAF, 0xC2, 0xBF]"
  "utf8_lossy [0xF0, 0x9F, 0x98, 0x80] = [0xF0, 0x9F, 0x98, 0x80]"
  by code_simp+

lemmas wide_chars = wide_row [unfolded list_rows] chars_wide chars.simps [of "[]"] utf8_tails second3_def second4_def

lemma extracts_pg_otel_key_with_spaces_passes: "extracts_pg_otel_key_with_spaces = Some ()"
  by (simp add: extracts_pg_otel_key_with_spaces_def scan_defs cong: key_in_cong scan_cong)

lemma extracts_pg_otel_key_without_spaces_passes: "extracts_pg_otel_key_without_spaces = Some ()"
  by (simp add: extracts_pg_otel_key_without_spaces_def scan_defs cong: key_in_cong scan_cong)

lemma extracts_leading_comment_passes: "extracts_leading_comment = Some ()"
  by (simp add: extracts_leading_comment_def scan_defs cong: key_in_cong scan_cong)

lemma extracts_sqlcommenter_quoted_value_passes: "extracts_sqlcommenter_quoted_value = Some ()"
  by (simp add: extracts_sqlcommenter_quoted_value_def scan_defs cong: key_in_cong scan_cong)

lemma extracts_sqlcommenter_among_other_pairs_passes: "extracts_sqlcommenter_among_other_pairs = Some ()"
  by (simp add: extracts_sqlcommenter_among_other_pairs_def scan_defs cong: key_in_cong scan_cong)

lemma percent_decodes_value_passes: "percent_decodes_value = Some ()"
  by (simp add: percent_decodes_value_def byte_defs cong: key_in_cong scan_cong)

lemma accepts_double_quotes_and_spaces_around_equals_passes: "accepts_double_quotes_and_spaces_around_equals = Some ()"
  by (simp add: accepts_double_quotes_and_spaces_around_equals_def scan_defs cong: key_in_cong scan_cong)

lemma multiple_comments_do_not_panic_and_first_valid_wins_passes: "multiple_comments_do_not_panic_and_first_valid_wins = Some ()"
  by (simp add: multiple_comments_do_not_panic_and_first_valid_wins_def scan_defs cong: key_in_cong scan_cong)

lemma nested_comments_are_scanned_passes: "nested_comments_are_scanned = Some ()"
  by (simp add: nested_comments_are_scanned_def scan_defs cong: key_in_cong scan_cong)

lemma does_not_include_comment_terminator_in_value_passes: "does_not_include_comment_terminator_in_value = Some ()"
  by (simp add: does_not_include_comment_terminator_in_value_def scan_defs cong: key_in_cong scan_cong)

lemma unterminated_comment_is_ignored_passes: "unterminated_comment_is_ignored = Some ()"
  by (simp add: unterminated_comment_is_ignored_def scan_defs cong: key_in_cong scan_cong)

lemma unterminated_quote_is_dropped_passes: "unterminated_quote_is_dropped = Some ()"
  by (simp add: unterminated_quote_is_dropped_def scan_defs cong: key_in_cong scan_cong)

lemma keys_are_case_insensitive_passes: "keys_are_case_insensitive = Some ()"
  by (simp add: keys_are_case_insensitive_def scan_defs cong: key_in_cong scan_cong)

lemma non_ascii_text_does_not_panic_passes: "non_ascii_text_does_not_panic = Some ()"
  by (simp add: non_ascii_text_does_not_panic_def scan_defs wide_chars cong: key_in_cong scan_cong)

lemma invalid_values_are_ignored_passes: "invalid_values_are_ignored = Some ()"
  by (simp add: invalid_values_are_ignored_def scan_defs cong: key_in_cong scan_cong)

lemma comment_marker_inside_string_literal_is_matched_passes: "comment_marker_inside_string_literal_is_matched = Some ()"
  by (simp add: comment_marker_inside_string_literal_is_matched_def scan_defs cong: key_in_cong scan_cong)

lemma key_outside_comment_is_ignored_passes: "key_outside_comment_is_ignored = Some ()"
  by (simp add: key_outside_comment_is_ignored_def scan_defs cong: key_in_cong scan_cong)

lemma percent_decode_handles_malformed_escapes_passes: "percent_decode_handles_malformed_escapes = Some ()"
  by code_simp

lemma guc_takes_precedence_over_comment_passes: "guc_takes_precedence_over_comment = Some ()"
  by (simp add: guc_takes_precedence_over_comment_def scan_defs decided_parent_def skips_def decide_parent_def from_remote_def cong: key_in_cong scan_cong)

lemma invalid_guc_falls_back_to_comment_passes: "invalid_guc_falls_back_to_comment = Some ()"
  by (simp add: invalid_guc_falls_back_to_comment_def scan_defs decided_parent_def skips_def decide_parent_def from_remote_def cong: key_in_cong scan_cong)

lemma no_parent_starts_new_trace_passes: "no_parent_starts_new_trace = Some ()"
  by code_simp

lemma unsampled_parent_skips_tracing_passes: "unsampled_parent_skips_tracing = Some ()"
  by (simp add: unsampled_parent_skips_tracing_def scan_defs decided_parent_def skips_def decide_parent_def from_remote_def cong: key_in_cong scan_cong)

lemma parses_valid_sampled_traceparent_passes: "parses_valid_sampled_traceparent = Some ()"
  by (simp add: parses_valid_sampled_traceparent_def TP_bytes from_remote_def is_whitespace_def parse_defs lit_def)

lemma accepts_surrounding_whitespace_and_future_versions_passes: "accepts_surrounding_whitespace_and_future_versions = Some ()"
  by (simp add: accepts_surrounding_whitespace_and_future_versions_def TP_bytes from_remote_def is_whitespace_def parse_defs lit_def)

lemma parses_unsampled_flag_passes: "parses_unsampled_flag = Some ()"
  by (simp add: parses_unsampled_flag_def TP_bytes from_remote_def is_whitespace_def parse_defs lit_def)

lemma rejects_invalid_traceparents_passes: "rejects_invalid_traceparents = Some ()"
proof -
  have r0: "parse_traceparent test_otel ([]) = None" by (simp add: parse_defs lit_def)
  have r1: "parse_traceparent test_otel (lit ''garbage'') = None" by (simp add: parse_defs lit_def)
  have r2: "parse_traceparent test_otel (lit ''00-00000000000000000000000000000000-00f067aa0ba902b7-01'') = None" by (simp add: parse_defs lit_def)
  have r3: "parse_traceparent test_otel (lit ''00-4bf92f3577b34da6a3ce929d0e0e4736-0000000000000000-01'') = None" by (simp add: parse_defs lit_def)
  have r4: "parse_traceparent test_otel (lit ''00-4bf92f3577b34da6a3ce929d0e0e4736-00f067aa0ba902b7'') = None" by (simp add: parse_defs lit_def)
  have r5: "parse_traceparent test_otel (lit ''00-4bf92f3577b34da6a3ce929d0e0e47-00f067aa0ba902b7-01'') = None" by (simp add: parse_defs lit_def)
  have r6: "parse_traceparent test_otel (lit ''00-4bf92f3577b34da6a3ce929d0e0e4736-00f067aa0ba9-01'') = None" by (simp add: parse_defs lit_def)
  have r7: "parse_traceparent test_otel (lit ''00-4bf92f3577b34da6a3ce929d0e0e4736-00f067aa0ba902b7-1'') = None" by (simp add: parse_defs lit_def)
  have r8: "parse_traceparent test_otel (lit ''00-4bf92f3577b34da6a3ce929d0e0e4736-00f067aa0ba902b7-01-extra'') = None" by (simp add: parse_defs lit_def)
  have r9: "parse_traceparent test_otel (lit ''ff-4bf92f3577b34da6a3ce929d0e0e4736-00f067aa0ba902b7-01'') = None" by (simp add: parse_defs lit_def)
  have r10: "parse_traceparent test_otel (lit ''00-4BF92F3577B34DA6A3CE929D0E0E4736-00f067aa0ba902b7-01'') = None" by (simp add: parse_defs lit_def)
  have r11: "parse_traceparent test_otel (lit ''00-4bf92f3577b34da6a3ce929d0e0e473'' @ [0xC3, 0xA9] @ lit ''-00f067aa0ba902b7-01'') = None" by code_simp
  show ?thesis unfolding rejects_invalid_traceparents_def by (simp add: r0 r1 r2 r3 r4 r5 r6 r7 r8 r9 r10 r11 del: append.simps)
qed

lemma root_parent_is_new_local_trace_passes: "root_parent_is_new_local_trace = Some ()"
  by code_simp

lemma remote_parent_keeps_ids_and_is_remote_passes: "remote_parent_keeps_ids_and_is_remote = Some ()"
  by (simp add: remote_parent_keeps_ids_and_is_remote_def TP_bytes from_remote_def is_whitespace_def parse_defs lit_def)

end
