(* ===== verification/F64_Eval.thy ===== *)
theory F64_Eval
  imports F64
begin

text \<open>
  Evaluation of the floating-point operations on concrete patterns: each rule takes the values of the parts
  as premises, so that they are computed once.
\<close>

lemma nat_bits_eval: "nat_bits (numeral k) = Suc (nat_bits (numeral k div 2))" "nat_bits 0 = 0" "nat_bits (Suc 0) = 1"
  by (subst nat_bits.simps, simp; subst nat_bits.simps; simp add: nat_bits.simps)+

lemma nat_bits_16: "65536 \<le> n \<Longrightarrow> nat_bits n = 16 + nat_bits (n div 65536)"
proof -
  have step: "nat_bits m = Suc (nat_bits (m div 2))" if "0 < m" for m
    using that by (subst nat_bits.simps) simp
  assume "65536 \<le> n"
  then have n: "0 < n div 2 ^ i" if "i \<le> 16" for i
    using that power_increasing [of i 16 "2 :: nat"] by (simp add: div_greater_zero_iff)
  have "nat_bits n = i + nat_bits (n div 2 ^ i)" if "i \<le> 16" for i
    using that
  proof (induction i)
    case (Suc i)
    have "n div 2 ^ Suc i = n div 2 ^ i div 2" by (simp only: power_Suc2 div_mult2_eq)
    then show ?case using Suc step [of "n div 2 ^ i"] n [of i] by simp
  qed simp
  from this [of 16] show ?thesis by simp
qed

lemma nat_bits_steps:
  "nat_bits (numeral k) =
     (if (65536 :: nat) \<le> numeral k then 16 + nat_bits (numeral k div 65536) else Suc (nat_bits (numeral k div 2)))"
  using nat_bits_16 [of "numeral k"] nat_bits_eval(1) [of k] by simp

lemma f64_pack_eval:
  assumes "n \<noteq> 0" and "int (nat_bits n) - int (nat_bits d) = e0"
    and "max (if (case frac_scale (- e0) (n, d) of (a, b) \<Rightarrow> a < b) then e0 - 1 else e0) (- 1022) = e"
    and "(case frac_scale (52 - e) (n, d) of (a, b) \<Rightarrow> round_half_even a b) = m" 
  shows "f64_pack neg (n, d) = f64_make neg (min F64_INF (nat (e + 1022) * 2 ^ 52 + m))"
  unfolding assms(4) [symmetric] assms(3) [symmetric] assms(2) [symmetric] f64_pack_def Let_def
  using assms(1) by (simp only: prod.case if_False)

lemma round_half_even_eval:
  "n div d = q \<Longrightarrow> n - d * q = r \<Longrightarrow> round_half_even n d = (if 2 * r < d \<or> (2 * r = d \<and> even q) then q else q + 1)"
  by (auto simp: round_half_even_def Let_def minus_mult_div_eq_mod)

lemma f64_frac_eval:
  "f64_mag w div 2 ^ 52 = e \<Longrightarrow> f64_mag w mod 2 ^ 52 = f \<Longrightarrow> e \<noteq> 0 \<Longrightarrow>
     f64_frac w = (if 1075 \<le> e then ((2 ^ 52 + f) * 2 ^ (e - 1075), 1) else (2 ^ 52 + f, 2 ^ (1075 - e)))"
  by (simp add: f64_frac_def)

definition f64_finite :: "f64 \<Rightarrow> bool" where
  "f64_finite w \<longleftrightarrow> \<not> f64_is_nan w \<and> \<not> f64_is_inf w"

lemma f64_mul_eval:
  "f64_finite a \<Longrightarrow> f64_finite b \<Longrightarrow> f64_frac a = (n, d) \<Longrightarrow> f64_frac b = (n', d') \<Longrightarrow>
     f64_mul a b = f64_pack (f64_neg a \<noteq> f64_neg b) (n * n', d * d')"
  by (simp add: f64_mul_def f64_finite_def)

lemma f64_div_eval:
  "f64_finite a \<Longrightarrow> f64_finite b \<Longrightarrow> \<not> f64_is_zero b \<Longrightarrow> f64_frac a = (n, d) \<Longrightarrow> f64_frac b = (n', d') \<Longrightarrow>
     f64_div a b = f64_pack (f64_neg a \<noteq> f64_neg b) (n * d', d * n')"
  by (simp add: f64_div_def f64_finite_def)

lemma f64_round_eval:
  "f64_finite a \<Longrightarrow> f64_frac a = q \<Longrightarrow> f64_round a = f64_pack (f64_neg a) (frac_round q, 1)"
  by (simp add: f64_round_def f64_finite_def)

lemma f64_to_i64_eval:
  "f64_finite a \<Longrightarrow> f64_frac a = (n, d) \<Longrightarrow>
     f64_to_i64 a = saturate_i64 (if f64_neg a then - int (n div d) else int (n div d))"
  by (simp add: f64_to_i64_def f64_finite_def)

lemma f64_finite_eval: "f64_mag w < F64_INF \<Longrightarrow> f64_finite w"
  by (simp add: f64_finite_def f64_is_nan_def f64_is_inf_def)

lemmas f64_eval = f64_pack_eval f64_frac_eval f64_mul_eval f64_div_eval f64_round_eval f64_to_i64_eval f64_finite_eval
  nat_bits_steps nat_bits_eval(2,3) f64_make_def frac_scale_def round_half_even_eval frac_round_def saturate_i64_def i64_min_def i64_max_def
  f64_mag_def F64_INF_def f64_neg_def f64_is_nan_def f64_is_zero_def Let_def

end
