(* ===== verification/Plan_Tests.thy ===== *)
theory Plan_Tests
  imports Testing Collect Export F64_Eval
begin

text \<open>
  The unit tests of \<open>src/span.rs\<close> on plan walks, names, units and random identifiers and those of
  \<open>src/postgres.rs\<close> on which statements are traced, on the model (those of the trace context are in
  \<open>Trace_Tests\<close>).
\<close>

section \<open>Helpers\<close>

type_synonym test_plan = "(nat \<times> relationship \<times> str option) list list"

text \<open>\<open>TestPlan::children\<close>, for a node of the plan.\<close>

definition test_children :: "test_plan \<Rightarrow> nat \<Rightarrow> nat plan_child list" where
  "test_children plan node =
     map (\<lambda>(child, relationship, name).
        \<lparr>pch_node = child, pch_edge = \<lparr>ed_relationship = relationship, ed_subplan_name = name\<rparr>\<rparr>) (plan ! node)"

text \<open>Node, parent link, relationship, in visiting order.\<close>

type_synonym visited = "(nat \<times> nat option \<times> str option) list"

definition record_visit :: "(visited, nat, nat) visitor" where
  "record_visit visited node edge parent =
     (let relationship = map_option (\<lambda>e. relationship_str (ed_relationship e)) edge
      in Some (Some node, visited @ [(node, parent, relationship)]))"

definition walk_test :: "test_plan \<Rightarrow> nat \<Rightarrow> (visited \<times> walk_summary) option" where
  "walk_test plan max_spans = do {
     (summary, _, visited) \<leftarrow> walk_plan 0 max_spans (\<lambda>c node. (test_children plan node, c)) record_visit () [];
     Some (visited, summary) }"

definition USIZE_MAX :: nat where
  "USIZE_MAX = 2 ^ 64 - 1"

section \<open>Tests\<close>

definition walk_is_depth_first_in_explain_order_with_parents :: "unit option" where
  "walk_is_depth_first_in_explain_order_with_parents = do {
     let plan =
       [[(1, InitPlan, Some (lit ''InitPlan 1'')), (2, Outer, None), (3, Inner, None), (4, SubPlan, Some (lit ''SubPlan 2''))],
        [], [], [(5, Member, None), (6, Member, None)], [], [], []];
     (visited, summary) \<leftarrow> walk_test plan USIZE_MAX;
     assert_that (map fst visited = [0, 1, 2, 3, 5, 6, 4]);
     assert_that (map (fst \<circ> snd) visited = [None, Some 0, Some 0, Some 0, Some 3, Some 3, Some 0]);
     assert_that (map (snd \<circ> snd) visited =
       [None, Some (lit ''InitPlan''), Some (lit ''Outer''), Some (lit ''Inner''), Some (lit ''Member''),
        Some (lit ''Member''), Some (lit ''SubPlan'')]);
     assert_that (summary = \<lparr>ws_emitted = 7, ws_omitted = 0\<rparr>) }"

definition walk_stops_emitting_at_the_cap_and_counts_the_rest :: "unit option" where
  "walk_stops_emitting_at_the_cap_and_counts_the_rest = do {
     let plan = [[(1, Outer, None), (2, Inner, None)], [(3, Outer, None)], [(4, Outer, None)], [], []];
     (visited, summary) \<leftarrow> walk_test plan 3;
     assert_that (map fst visited = [0, 1, 3]);
     assert_that (summary = \<lparr>ws_emitted = 3, ws_omitted = 2\<rparr>);
     (visited, summary) \<leftarrow> walk_test plan 0;
     assert_that (visited = []);
     assert_that (summary = \<lparr>ws_emitted = 0, ws_omitted = 5\<rparr>);
     (_, summary) \<leftarrow> walk_test plan 5;
     assert_that (summary = \<lparr>ws_emitted = 5, ws_omitted = 0\<rparr>) }"

definition nodes_without_a_span_pass_their_ancestor_on_to_their_children :: "unit option" where
  "nodes_without_a_span_pass_their_ancestor_on_to_their_children = do {
     let plan = [[(1, Outer, None)], [(2, Outer, None)], []];
     (summary, _, parents) \<leftarrow> walk_plan 0 USIZE_MAX (\<lambda>c node. (test_children plan node, c))
       (\<lambda>parents node edge parent. Some (if node \<noteq> 1 then Some node else None, parents @ [(node, parent)])) () [];
     assert_that (parents = [(0, None), (1, Some 0), (2, Some 0)]);
     assert_that (summary = \<lparr>ws_emitted = 2, ws_omitted = 0\<rparr>) }"

definition chain_plan :: "nat \<Rightarrow> test_plan" where
  "chain_plan depth = map (\<lambda>n. if n + 1 < depth then [(n + 1, Outer, None)] else []) [0..<depth]"

definition very_deep_plans_do_not_overflow_the_stack :: "nat \<Rightarrow> unit option" where
  "very_deep_plans_do_not_overflow_the_stack depth = do {
     let plan = chain_plan depth;
     (visited, summary) \<leftarrow> walk_test plan USIZE_MAX;
     assert_that (length visited = depth);
     assert_that (ws_emitted summary = depth);
     (_, summary) \<leftarrow> walk_test plan 10;
     assert_that (summary = \<lparr>ws_emitted = 10, ws_omitted = depth - 10\<rparr>) }"

definition relationship_names_match_explain :: "unit option" where
  "relationship_names_match_explain = do {
     assert_that (relationship_str Outer = lit ''Outer'');
     assert_that (relationship_str Inner = lit ''Inner'');
     assert_that (relationship_str InitPlan = lit ''InitPlan'');
     assert_that (relationship_str SubPlan = lit ''SubPlan'');
     assert_that (relationship_str Member = lit ''Member'');
     assert_that (relationship_str Subquery = lit ''Subquery'') }"

definition plan_span_names_show_the_subplan_relationship :: "unit option" where
  "plan_span_names_show_the_subplan_relationship = do {
     assert_that (plan_span_name None (lit ''T_SeqScanState'') (lit '' [public.t]'') =
       lit ''postgresql.operation.T_SeqScanState [public.t]'');
     assert_that (plan_span_name (Some (lit ''InitPlan 1'')) (lit ''T_AggState'') [] =
       lit ''InitPlan 1 '' @ [0xE2, 0x86, 0x92] @ lit '' postgresql.operation.T_AggState'') }"

text \<open>\<open>1.5\<close>, \<open>1500.0\<close> and \<open>0.0\<close> as bit patterns.\<close>

definition duration_units_are_seconds_and_microseconds :: "unit option" where
  "duration_units_are_seconds_and_microseconds = do {
     assert_that (ns_to_seconds 1500000000 = 0x3FF8000000000000);
     assert_that (ns_to_micros 1500000 = 0x4097700000000000);
     assert_that (ns_to_micros 0 = 0) }"

definition query_text_modes_map_to_normalization :: "unit option" where
  "query_text_modes_map_to_normalization = do {
     assert_that (normalize_for QueryTextOff = None);
     assert_that (normalize_for QueryTextNormalized = Some True);
     assert_that (normalize_for QueryTextRaw = Some False) }"

definition threshold_semantics :: "unit option" where
  "threshold_semantics = do {
     assert_that (\<not> meets_slow_query_threshold 10000000000 (- 1));
     assert_that (meets_slow_query_threshold 0 0);
     assert_that (\<not> meets_slow_query_threshold 999999 1);
     assert_that (meets_slow_query_threshold 1000000 1);
     assert_that (meets_slow_query_threshold 9223372036854775807 2147483647) }"

definition explain_only_flag_is_detected :: "unit option" where
  "explain_only_flag_is_detected = do {
     assert_that (is_explain_only EXEC_FLAG_EXPLAIN_ONLY);
     assert_that (is_explain_only (or EXEC_FLAG_EXPLAIN_ONLY 0x10));
     assert_that (\<not> is_explain_only 0) }"

definition tracing_disabled_when_off_or_in_parallel_worker :: "unit option" where
  "tracing_disabled_when_off_or_in_parallel_worker = do {
     assert_that (\<not> tracing_enabled (- 1) (- 1));
     assert_that (tracing_enabled 0 (- 1));
     assert_that (\<not> tracing_enabled 0 0);
     assert_that (\<not> tracing_enabled 100 3) }"

text \<open>The draws of the generator are a parameter; the loop takes the number of its rounds.\<close>

fun random_ids_are_never_zero :: "nat \<Rightarrow> rng \<Rightarrow> unit option" where
  "random_ids_are_never_zero 0 r = Some ()"
| "random_ids_are_never_zero (Suc n) r = do {
     (i, r) \<leftarrow> random_span_id r;
     assert_that (i \<noteq> SPAN_ID_INVALID);
     (t, r) \<leftarrow> random_trace_id r;
     assert_that (t \<noteq> TRACE_ID_INVALID);
     random_ids_are_never_zero n r }"

section \<open>They pass\<close>

lemma walk_loop_nil: "walk_loop children_of visit m [] s c v = Some (s, c, v)"
  by (subst walk_loop.simps) simp

lemma walk_loop_node:
  "visit_node visit m node edge parent s v = Some (link, s', v') \<Longrightarrow> children_of c node = (children, c') \<Longrightarrow>
     walk_loop children_of visit m ((node, edge, parent) # stack) s c v =
     walk_loop children_of visit m
       (fold (\<lambda>child stack. (pch_node child, Some (pch_edge child), (case link of Some l \<Rightarrow> Some l | None \<Rightarrow> parent)) # stack)
          (rev children) stack) s' c' v'"
  by (subst walk_loop.simps) simp

lemmas walk_steps = walk_test_def walk_plan_def walk_summary_default_def walk_loop_nil walk_loop_node visit_node_def
  record_visit_def test_children_def USIZE_MAX_def

lemma walk_is_depth_first_in_explain_order_with_parents_passes:
  "walk_is_depth_first_in_explain_order_with_parents = Some ()"
  by (simp add: walk_is_depth_first_in_explain_order_with_parents_def walk_steps relationship_str_def)

lemma walk_stops_emitting_at_the_cap_and_counts_the_rest_passes:
  "walk_stops_emitting_at_the_cap_and_counts_the_rest = Some ()"
  by (simp add: walk_stops_emitting_at_the_cap_and_counts_the_rest_def walk_steps relationship_str_def)

lemma nodes_without_a_span_pass_their_ancestor_on_to_their_children_passes:
  "nodes_without_a_span_pass_their_ancestor_on_to_their_children = Some ()"
  by (simp add: nodes_without_a_span_pass_their_ancestor_on_to_their_children_def walk_steps relationship_str_def)

text \<open>A chain is walked to its end whatever its depth: the walk keeps its own stack.\<close>

lemma chain_children:
  "n < depth \<Longrightarrow>
     test_children (chain_plan depth) n =
       (if n + 1 < depth then [\<lparr>pch_node = n + 1, pch_edge = \<lparr>ed_relationship = Outer, ed_subplan_name = None\<rparr>\<rparr>] else [])"
  by (simp add: test_children_def chain_plan_def)

lemma walk_chain:
  assumes "n < depth" and "ws_emitted summary + ws_omitted summary = n" and "ws_emitted summary = min n m"
  shows "\<exists>visited'. walk_loop (\<lambda>c node. (test_children (chain_plan depth) node, c)) record_visit m [(n, edge, parent)]
      summary () visited =
    Some (\<lparr>ws_emitted = min depth m, ws_omitted = depth - m\<rparr>, (), visited') \<and>
    length visited' = length visited + (min depth m - min n m)"
  using assms
proof (induction "depth - n" arbitrary: n edge parent summary visited)
  case (Suc k)
  let ?cs = "\<lambda>c node. (test_children (chain_plan depth) node, c)"
  obtain link s v where step: "visit_node record_visit m n edge parent summary visited = Some (link, s, v)"
    and s: "ws_emitted s + ws_omitted s = n + 1" "ws_emitted s = min (n + 1) m"
    and v: "length v = length visited + (min (n + 1) m - min n m)"
  proof (cases "n < m")
    case True
    then show ?thesis using Suc.prems that [of "Some n" "summary\<lparr>ws_emitted := n + 1\<rparr>"]
      by (simp add: visit_node_def record_visit_def)
  next
    case False
    then show ?thesis using Suc.prems that [of None "summary\<lparr>ws_omitted := ws_omitted summary + 1\<rparr>" visited]
      by (simp add: visit_node_def)
  qed
  show ?case
  proof (cases "n + 1 < depth")
    case True
    have "k = depth - (n + 1)" using Suc.hyps(2) by simp
    from Suc.hyps(1) [OF this True s] obtain v' where
      "walk_loop ?cs record_visit m
         [(n + 1, Some \<lparr>ed_relationship = Outer, ed_subplan_name = None\<rparr>,
           case link of None \<Rightarrow> parent | Some l \<Rightarrow> Some l)] s () v =
       Some (\<lparr>ws_emitted = min depth m, ws_omitted = depth - m\<rparr>, (), v')"
      "length v' = length v + (min depth m - min (n + 1) m)"
      by blast
    then show ?thesis using Suc.prems(1) True v
      by (simp add: walk_loop_node [OF step]) (auto simp: chain_children min_def)
  next
    case False
    then have "depth = n + 1" using Suc.prems(1) by simp
    then show ?thesis using step s v
      by (simp add: walk_loop_node [OF step] walk_loop_nil chain_children)
  qed
qed simp

lemma very_deep_plans_do_not_overflow_the_stack_passes:
  "very_deep_plans_do_not_overflow_the_stack 500000 = Some ()"
proof -
  have "\<exists>v. walk_test (chain_plan 500000) m = Some (v, \<lparr>ws_emitted = min 500000 m, ws_omitted = 500000 - m\<rparr>) \<and>
      length v = min 500000 m" for m
    using walk_chain [of 0 500000 walk_summary_default m None None "[]"]
    by (auto simp: walk_test_def walk_plan_def walk_summary_default_def)
  from this [of USIZE_MAX] this [of 10] show ?thesis
    by (auto simp: very_deep_plans_do_not_overflow_the_stack_def USIZE_MAX_def Let_def)
qed

lemma relationship_names_match_explain_passes: "relationship_names_match_explain = Some ()"
  by (simp add: relationship_names_match_explain_def relationship_str_def)

lemma plan_span_names_show_the_subplan_relationship_passes: "plan_span_names_show_the_subplan_relationship = Some ()"
  by (simp add: plan_span_names_show_the_subplan_relationship_def plan_span_name_def ARROW_def lit_def)

lemma duration_units_are_seconds_and_microseconds_passes: "duration_units_are_seconds_and_microseconds = Some ()"
proof -
  have "ns_to_micros 0 = 0"
    by (simp add: ns_to_micros_def f64_of_i64_def f64_of_int_def f64_pack_def f64_make_def f64_div_def f64_frac_def
        f64_is_inf_def f64_eval)
  then show ?thesis
    by (simp add: duration_units_are_seconds_and_microseconds_def ns_to_seconds_def ns_to_micros_def f64_of_i64_def
        f64_of_int_def f64_eval)
qed

lemma threshold_semantics_passes: "threshold_semantics = Some ()"
  by code_simp

lemma explain_only_flag_is_detected_passes: "explain_only_flag_is_detected = Some ()"
  by code_simp

lemma tracing_disabled_when_off_or_in_parallel_worker_passes: "tracing_disabled_when_off_or_in_parallel_worker = Some ()"
  by code_simp

lemma query_text_modes_map_to_normalization_passes: "query_text_modes_map_to_normalization = Some ()"
  by (simp add: query_text_modes_map_to_normalization_def normalize_for_def)

text \<open>Any draws do, as long as the generator goes on to give values other than zero.\<close>

definition trace_ids_left :: "rng \<Rightarrow> nat" where
  "trace_ids_left r = length (filter (\<lambda>w. w \<noteq> 0) (draws128 r))"

lemma random_trace_id_total:
  assumes "0 < trace_ids_left r"
  obtains t r' where "random_trace_id r = Some (t, r')" and "trace_ids_left r = trace_ids_left r' + 1"
    and "span_ids_left r' = span_ids_left r"
proof -
  have "\<exists>t vs. random_id_loop TRACE_ID_INVALID ws = Some (t, vs) \<and>
      length (filter (\<lambda>w. w \<noteq> 0) ws) = length (filter (\<lambda>w. w \<noteq> 0) vs) + 1"
    if "0 < length (filter (\<lambda>w. w \<noteq> 0) ws)" for ws :: "128 word list"
    using that by (induction ws) (auto simp: be_bytes_ids Let_def split: if_splits)
  from this [of "draws128 r"] assms show ?thesis
    by (auto simp: random_trace_id_def trace_ids_left_def span_ids_left_def intro!: that)
qed

lemma random_ids_are_never_zero_passes:
  "n \<le> span_ids_left r \<Longrightarrow> n \<le> trace_ids_left r \<Longrightarrow> random_ids_are_never_zero n r = Some ()"
proof (induction n arbitrary: r)
  case (Suc n)
  obtain i r1 where i: "random_span_id r = Some (i, r1)" "span_ids_left r = span_ids_left r1 + 1"
    using random_span_id_total [of r] Suc.prems(1) by auto
  then have same: "trace_ids_left r1 = trace_ids_left r" by (auto simp: random_span_id_def trace_ids_left_def)
  with Suc.prems(2) have "0 < trace_ids_left r1" by simp
  then obtain t r2 where t: "random_trace_id r1 = Some (t, r2)" "trace_ids_left r1 = trace_ids_left r2 + 1"
    "span_ids_left r2 = span_ids_left r1"
    using random_trace_id_total by blast
  with Suc i same have "random_ids_are_never_zero n r2 = Some ()" by simp
  with i(1) t(1) show ?case using random_span_id_valid [OF i(1)] random_trace_id_valid [OF t(1)] by simp
qed simp

end
