(* ===== verification/Worker_Tests.thy ===== *)
theory Worker_Tests
  imports Testing Worker
begin

text \<open>
  The unit tests of \<open>src/worker.rs\<close> on the model. The closures of a test share its variables: they are the
  state that \<open>drain_queue\<close> threads. \<open>None\<close> as the outcome of a chunk, a handler that gives up, does not occur
  in the tests.
\<close>

section \<open>Tests\<close>

text \<open>The queue and the number of elements handled.\<close>

definition drain_takes_every_chunk_without_a_cap :: "unit option" where
  "drain_takes_every_chunk_without_a_cap = do {
     let queue = map (\<lambda>i. replicate 3 (word_of_nat i :: byte)) [0..<100];
     (outcome, queue, handled) \<leftarrow> drain_queue
       (\<lambda>(queue, handled). Some (case queue of c # cs \<Rightarrow> (c, cs, handled) | [] \<Rightarrow> ([], [], handled)))
       (\<lambda>chunk (queue, handled). (True, queue, handled + length chunk))
       (\<lambda>s. (False, s)) (queue, 0);
     assert_that (outcome = Some Empty);
     assert_that (handled = 300);
     assert_that (queue = []) }"

text \<open>The queue, the chunks handled and the checks.\<close>

definition drain_stops_between_chunks_when_interrupted :: "unit option" where
  "drain_stops_between_chunks_when_interrupted = do {
     let queue = replicate 10 (replicate 1 (0 :: byte));
     (outcome, queue, handled, checks) \<leftarrow> drain_queue
       (\<lambda>(queue, handled, checks).
          Some (case queue of c # cs \<Rightarrow> (c, cs, handled, checks) | [] \<Rightarrow> ([], [], handled, checks)))
       (\<lambda>chunk (queue, handled, checks). (True, queue, handled + 1, checks))
       (\<lambda>(queue, handled, checks). let checks = checks + 1 in (handled = (3 :: nat), queue, handled, checks))
       (queue, 0, 0 :: nat);
     assert_that (outcome = Some Interrupted);
     assert_that (handled = 3);
     assert_that (length queue = 7);
     assert_that (checks = 4) }"

definition drain_does_not_touch_the_queue_when_already_interrupted :: "unit option" where
  "drain_does_not_touch_the_queue_when_already_interrupted = do {
     (outcome, taken) \<leftarrow> drain_queue (\<lambda>taken. let taken = taken + 1 in Some ([1 :: byte], taken))
       (\<lambda>chunk s. (True, s)) (\<lambda>s. (True, s)) (0 :: nat);
     assert_that (outcome = Some Interrupted);
     assert_that (taken = 0) }"

text \<open>The state counts the calls of the handler, which panics in the test.\<close>

definition drain_of_an_empty_queue_returns_empty :: "unit option" where
  "drain_of_an_empty_queue_returns_empty = do {
     (outcome, calls) \<leftarrow> drain_queue (\<lambda>s. Some ([] :: byte list, s)) (\<lambda>chunk calls. (True, calls + 1))
       (\<lambda>s. (False, s)) (0 :: nat);
     assert_that (calls = 0);
     assert_that (outcome = Some Empty) }"

definition pending_signals_start_clear :: "unit option" where
  "pending_signals_start_clear = do {
     let signals = \<lparr>sighup = False, sigterm = False\<rparr>;
     assert_that (\<not> any_signal signals);
     assert_that (any_signal \<lparr>sighup = True, sigterm = False\<rparr>);
     assert_that (any_signal \<lparr>sighup = False, sigterm = True\<rparr>) }"

definition dropped_report_is_rate_limited_and_reports_the_delta :: "nat \<Rightarrow> unit option" where
  "dropped_report_is_rate_limited_and_reports_the_delta start = do {
     let r = dropped_report_new start;
     let (message, r) = report (start + DROPPED_LOG_INTERVAL) 0 r;
     assert_that (message = None);
     let (message, r) = report (start + 10 * 1000000000) 5 r;
     assert_that (message = None);
     let (message, r) = report (start + DROPPED_LOG_INTERVAL) 5 r;
     assert_that (message = Some (DroppedReport 5 5));
     let (message, r) = report (start + DROPPED_LOG_INTERVAL * 3) 5 r;
     assert_that (message = None);
     let (message, r) = report (start + DROPPED_LOG_INTERVAL + 1000000000) 9 r;
     assert_that (message = None);
     let (message, r) = report (start + DROPPED_LOG_INTERVAL * 2) 9 r;
     assert_that (case message of Some (DroppedReport newly _) \<Rightarrow> newly = 4 | _ \<Rightarrow> False) }"

section \<open>They pass\<close>

lemma drain_queue_interrupted: "interrupted s = (True, s1) \<Longrightarrow> drain_queue nxt handle interrupted s = Some (Some Interrupted, s1)"
  by (subst drain_queue.simps) simp

lemma drain_queue_empty:
  "interrupted s = (False, s1) \<Longrightarrow> nxt s1 = Some ([], s2) \<Longrightarrow> drain_queue nxt handle interrupted s = Some (Some Empty, s2)"
  by (subst drain_queue.simps) simp

lemma drain_queue_chunk:
  "interrupted s = (False, s1) \<Longrightarrow> nxt s1 = Some (c, s2) \<Longrightarrow> c \<noteq> [] \<Longrightarrow> handle c s2 = (True, s3) \<Longrightarrow>
     drain_queue nxt handle interrupted s = drain_queue nxt handle interrupted s3"
  by (subst drain_queue.simps) simp

lemmas drain_steps = drain_queue_interrupted drain_queue_empty drain_queue_chunk

text \<open>Draining a list of chunks hands all of them over.\<close>

lemma drain_list:
  assumes "\<forall>c \<in> set queue. c \<noteq> []"
  shows "drain_queue (\<lambda>(queue, handled). Some (case queue of c # cs \<Rightarrow> (c, cs, handled) | [] \<Rightarrow> ([], [], handled)))
       (\<lambda>chunk (queue, handled). (True, queue, handled + length chunk)) (\<lambda>s. (False, s)) (queue, handled) =
     Some (Some Empty, [], handled + length (concat queue))"
  using assms
proof (induction queue arbitrary: handled)
  case Nil
  show ?case by (simp add: drain_steps)
next
  case (Cons c cs)
  from Cons.prems Cons.IH [of "handled + length c"] show ?case by (simp add: drain_queue_chunk add.assoc)
qed

lemma drain_takes_every_chunk_without_a_cap_passes: "drain_takes_every_chunk_without_a_cap = Some ()"
  by (simp add: drain_takes_every_chunk_without_a_cap_def drain_list length_concat comp_def sum_list_triv)

lemma drain_stops_between_chunks_when_interrupted_passes: "drain_stops_between_chunks_when_interrupted = Some ()"
  by (simp add: drain_stops_between_chunks_when_interrupted_def drain_steps numeral_eq_Suc)

lemma drain_does_not_touch_the_queue_when_already_interrupted_passes:
  "drain_does_not_touch_the_queue_when_already_interrupted = Some ()"
  by (simp add: drain_does_not_touch_the_queue_when_already_interrupted_def drain_steps)

lemma drain_of_an_empty_queue_returns_empty_passes: "drain_of_an_empty_queue_returns_empty = Some ()"
  by (simp add: drain_of_an_empty_queue_returns_empty_def drain_steps)

lemma pending_signals_start_clear_passes: "pending_signals_start_clear = Some ()"
  by (simp add: pending_signals_start_clear_def any_signal_def)

text \<open>Whatever the instant it starts at.\<close>

lemma dropped_report_is_rate_limited_and_reports_the_delta_passes:
  "dropped_report_is_rate_limited_and_reports_the_delta start = Some ()"
  by (simp add: dropped_report_is_rate_limited_and_reports_the_delta_def dropped_report_new_def report_def
      DROPPED_LOG_INTERVAL_def Let_def)

end
