(* ===== verification/Sanitize_Tests.thy ===== *)
theory Sanitize_Tests
  imports Testing Sanitize
begin

text \<open>
  The unit tests of \<open>src/sanitize.rs\<close> (\<open>pure_tests\<close>) on the model. The others lex with the server's scanner.
\<close>

section \<open>Helpers\<close>

definition token_at :: "token_kind \<Rightarrow> nat \<Rightarrow> nat \<Rightarrow> token" where
  "token_at kind start stop = \<lparr>tk_kind = kind, tk_start = start, tk_end = stop\<rparr>"

text \<open>\<open>assert_eq!(render(sql, &tokens).as_deref(), expected)\<close>.\<close>

definition renders :: "str \<Rightarrow> token list \<Rightarrow> str option \<Rightarrow> unit option" where
  "renders sql tokens expected = do { r \<leftarrow> render sql tokens; assert_that (r = expected) }"

section \<open>Tests\<close>

text \<open>An e with an acute accent; three characters of three bytes.\<close>

definition truncates_on_utf8_boundary :: "unit option" where
  "truncates_on_utf8_boundary = do {
     assert_that (truncate_utf8 (lit ''abcdef'') 3 = lit ''abc'');
     assert_that (truncate_utf8 (lit ''abc'') 3 = lit ''abc'');
     assert_that (truncate_utf8 (lit ''abc'') 10 = lit ''abc'');
     assert_that (truncate_utf8 (lit ''abc'') 0 = []);
     assert_that (truncate_utf8 (lit ''a'' @ [0xC3, 0xA9]) 2 = lit ''a'');
     assert_that (truncate_utf8 (lit ''a'' @ [0xC3, 0xA9]) 3 = lit ''a'' @ [0xC3, 0xA9]);
     assert_that (truncate_utf8 [0xE6, 0x97, 0xA5, 0xE6, 0x9C, 0xAC, 0xE8, 0xAA, 0x9E] 4 = [0xE6, 0x97, 0xA5]);
     assert_that (truncate_utf8 [0xE6, 0x97, 0xA5, 0xE6, 0x9C, 0xAC, 0xE8, 0xAA, 0x9E] 2 = []) }"

definition validated_range_handles_boundaries :: "unit option" where
  "validated_range_handles_boundaries = do {
     assert_that (validated_range 10 (- 1) 5 = Some (- 1, 0));
     assert_that (validated_range 10 4 6 = Some (4, 6));
     assert_that (validated_range 10 4 7 = Some (4, 0));
     assert_that (validated_range 10 4 (2 ^ 31 - 1) = Some (4, 0));
     assert_that (validated_range 10 4 0 = Some (4, 0));
     assert_that (validated_range 10 4 (- 3) = Some (4, - 3));
     assert_that (validated_range 10 10 0 = Some (10, 0));
     assert_that (validated_range 10 11 0 = None);
     assert_that (validated_range 0 0 0 = Some (0, 0)) }"

definition render_replaces_constants_in_order :: "unit option" where
  "render_replaces_constants_in_order =
     renders (lit ''a 1 , '' @ [0x27] @ lit ''x'' @ [0x27])
       [token_at Other 0 1, token_at Constant 2 3, token_at Other 4 5, token_at Constant 6 9]
       (Some (lit ''a $1 , $2''))"

definition render_numbers_above_existing_parameters :: "unit option" where
  "render_numbers_above_existing_parameters =
     renders (lit ''$7 '' @ [0x27] @ lit ''x'' @ [0x27])
       [token_at (Param 7) 0 2, token_at Constant 3 6] (Some (lit ''$7 $8''))"

definition render_separates_words_that_would_fuse :: "unit option" where
  "render_separates_words_that_would_fuse = do {
     renders (lit ''N'' @ [0x27] @ lit ''x'' @ [0x27]) [token_at Other 0 1, token_at Constant 1 4] (Some (lit ''N $1''));
     renders ([0x27] @ lit ''x'' @ [0x27] @ lit ''b'') [token_at Constant 0 3, token_at Other 3 4] (Some (lit ''$1 b''));
     renders (lit ''(1)'') [token_at Other 0 1, token_at Constant 1 2, token_at Other 2 3] (Some (lit ''($1)'')) }"

definition render_rejects_inconsistent_tokens :: "unit option" where
  "render_rejects_inconsistent_tokens = do {
     renders (lit ''abcd'') [token_at Other 0 3, token_at Other 2 4] None;
     renders (lit ''abcd'') [token_at Other 0 9] None;
     renders [0xC3, 0xA9] [token_at Other 0 1] None }"

definition render_compacts_select_lists_and_keeps_placeholder_numbers :: "unit option" where
  "render_compacts_select_lists_and_keeps_placeholder_numbers =
     renders (lit ''SELECT a, '' @ [0x27] @ lit ''secret'' @ [0x27] @ lit '', c FROM t WHERE x = 42'')
       [token_at Other 0 6, token_at Other 7 8, token_at Other 8 9, token_at Constant 10 18, token_at Other 18 19,
        token_at Other 20 21, token_at Other 22 26, token_at Other 27 28, token_at Other 29 34, token_at Other 35 36,
        token_at Other 37 38, token_at Constant 39 41]
       (Some (lit ''SELECT a, ...(2 more columns) FROM t WHERE x = $2''))"

definition render_of_no_tokens_is_empty :: "unit option" where
  "render_of_no_tokens_is_empty = renders (lit ''  -- c'') [] (Some [])"

section \<open>They pass\<close>

lemma truncates_on_utf8_boundary_passes: "truncates_on_utf8_boundary = Some ()"
  by code_simp

lemma validated_range_handles_boundaries_passes: "validated_range_handles_boundaries = Some ()"
  by (simp add: validated_range_handles_boundaries_def validated_range_def)

lemma render_replaces_constants_in_order_passes: "render_replaces_constants_in_order = Some ()"
  by code_simp

lemma render_numbers_above_existing_parameters_passes: "render_numbers_above_existing_parameters = Some ()"
  by code_simp

lemma render_separates_words_that_would_fuse_passes: "render_separates_words_that_would_fuse = Some ()"
  by code_simp

lemma render_rejects_inconsistent_tokens_passes: "render_rejects_inconsistent_tokens = Some ()"
  by code_simp

text \<open>The longest of them in steps: the tokens' texts, the compaction, the text rendered with it.\<close>

lemma render_compacts_select_lists_and_keeps_placeholder_numbers_passes:
  "render_compacts_select_lists_and_keeps_placeholder_numbers = Some ()"
proof -
  let ?tokens =
    "[token_at Other 0 6, token_at Other 7 8, token_at Other 8 9, token_at Constant 10 18, token_at Other 18 19,
      token_at Other 20 21, token_at Other 22 26, token_at Other 27 28, token_at Other 29 34, token_at Other 35 36,
      token_at Other 37 38, token_at Constant 39 41]"
  let ?sql = "[83, 69, 76, 69, 67, 84, 32, 97, 44, 32, 39, 115, 101, 99, 114, 101, 116, 39, 44, 32, 99, 32, 70, 82, 79, 77, 32, 116, 32, 87, 72, 69, 82, 69, 32, 120, 32, 61, 32, 52, 50] :: str"
  let ?xs =
    "[[83, 69, 76, 69, 67, 84],
       [97],
       [44],
       [39, 115, 101, 99, 114, 101, 116, 39],
       [44],
       [99],
       [70, 82, 79, 77],
       [116],
       [87, 72, 69, 82, 69],
       [120],
       [61],
       [52, 50]] :: str list"
  have sql: "lit ''SELECT a, '' @ [0x27] @ lit ''secret'' @ [0x27] @ lit '', c FROM t WHERE x = 42'' = ?sql"
    by (simp add: lit_def)
  have xs: "texts ?sql ?tokens = Some ?xs"
    by code_simp
  have cs: "compactions_of ?xs = [\<lparr>cp_start = 2, cp_end = 6, additional_columns = 2\<rparr>]"
    by (simp add: compactions_of_def select_list_terminator_def eq_ignore_ascii_case_def to_ascii_lowercase_def
        ascii_lower_def lit_def)
  have first: "first_placeholder ?tokens = 1"
    by (simp add: first_placeholder_def param_numbers_def token_at_def)
  have out: "lit ''SELECT a, ...(2 more columns) FROM t WHERE x = $2'' =
      [83, 69, 76, 69, 67, 84, 32, 97, 44, 32, 46, 46, 46, 40, 50, 32, 109, 111, 114, 101, 32, 99, 111, 108, 117, 109, 110, 115, 41, 32, 70, 82, 79, 77, 32, 116, 32, 87, 72, 69, 82, 69, 32, 120, 32, 61, 32, 36, 50]"
    by (simp add: lit_def)
  have "render_loop ?sql ?tokens [\<lparr>cp_start = 2, cp_end = 6, additional_columns = 2\<rparr>] 1 [] None 0 =
      Some (Some [83, 69, 76, 69, 67, 84, 32, 97, 44, 32, 46, 46, 46, 40, 50, 32, 109, 111, 114, 101, 32, 99, 111, 108, 117, 109, 110, 115, 41, 32, 70, 82, 79, 77, 32, 116, 32, 87, 72, 69, 82, 69, 32, 120, 32, 61, 32, 36, 50])"
    by code_simp
  then have "render ?sql ?tokens = Some (Some [83, 69, 76, 69, 67, 84, 32, 97, 44, 32, 46, 46, 46, 40, 50, 32, 109, 111, 114, 101, 32, 99, 111, 108, 117, 109, 110, 115, 41, 32, 70, 82, 79, 77, 32, 116, 32, 87, 72, 69, 82, 69, 32, 120, 32, 61, 32, 36, 50])"
    by (simp only: render_def select_list_compactions_def xs option.map cs option.case first)
  then show ?thesis
    by (simp only: render_compacts_select_lists_and_keeps_placeholder_numbers_def renders_def sql out)
       simp
qed

lemma render_of_no_tokens_is_empty_passes: "render_of_no_tokens_is_empty = Some ()"
  by code_simp

end
