(* ===== verification/Timing_Tests.thy ===== *)
theory Timing_Tests
  imports Testing Timing Shared F64_Eval
begin

text \<open>
  The unit tests of \<open>src/compat\<close> on the model, and those of the shared memory's size (\<open>src/shared.rs\<close>).
\<close>

section \<open>Tests\<close>

definition only_a_running_node_with_a_started_timer_is_mid_timer :: "unit option" where
  "only_a_running_node_with_a_started_timer_is_mid_timer = do {
     assert_that (is_mid_timer True 5);
     assert_that (\<not> is_mid_timer True 0);
     assert_that (\<not> is_mid_timer False 5);
     assert_that (\<not> is_mid_timer False 0) }"

text \<open>\<open>((ticks as i128 * scale as i128) >> TICKS_TO_NS_SHIFT) as i64\<close>.\<close>

definition reference_ticks_to_ns :: "i64 \<Rightarrow> u64 \<Rightarrow> i64" where
  "reference_ticks_to_ns ticks scale = word_of_int (sint ticks * uint scale div 2 ^ TICKS_TO_NS_SHIFT)"

definition ticks_are_nanoseconds_when_scale_is_zero :: "unit option" where
  "ticks_are_nanoseconds_when_scale_is_zero = do {
     assert_that (ticks_to_ns 123456 0 0 = 123456);
     assert_that (ticks_to_ns (2 ^ 63 - 1) 0 0 = 2 ^ 63 - 1) }"

definition converts_tsc_ticks_with_fixed_point_scale :: "unit option" where
  "converts_tsc_ticks_with_fixed_point_scale = do {
     let scale = push_bit TICKS_TO_NS_SHIFT (1000000 :: u64) div 3000000;
     let max_ticks = (2 ^ 63 - 1 :: u64) div scale;
     assert_that (scale = 5461);
     assert_that (ticks_to_ns 0 scale max_ticks = 0);
     assert_that (ticks_to_ns 16384 scale max_ticks = 5461);
     let one_second = ticks_to_ns 3000000000 scale max_ticks;
     assert_that (999000000 \<le> sint one_second \<and> sint one_second \<le> 1000000000) }"

text \<open>\<open>random\<close>: the samples that the test draws for a scale.\<close>

definition samples_agree :: "i64 list \<Rightarrow> u64 \<Rightarrow> u64 \<Rightarrow> bool" where
  "samples_agree random scale max_ticks =
     list_all (\<lambda>ticks. ticks_to_ns ticks scale max_ticks = reference_ticks_to_ns ticks scale)
       ([0, 1, 16383, 16384, 16385, max_ticks - 1, max_ticks, i64_saturating_add max_ticks 1, (2 ^ 63 - 1) div 2] @
        random)"

definition matches_exact_arithmetic_including_the_overflow_branch :: "(u64 \<Rightarrow> i64 list) \<Rightarrow> unit option" where
  "matches_exact_arithmetic_including_the_overflow_branch random = do {
     assert_that (samples_agree (random 5461) 5461 ((2 ^ 63 - 1) div 5461));
     assert_that (samples_agree (random 16384) 16384 ((2 ^ 63 - 1) div 16384));
     assert_that (samples_agree (random 1) 1 (2 ^ 63 - 1)) }"

definition conversion_saturates_instead_of_overflowing :: "unit option" where
  "conversion_saturates_instead_of_overflowing = do {
     assert_that (0 < sint (ticks_to_ns (2 ^ 63 - 1) (push_bit 40 1) (2 ^ 64 - 1)));
     assert_that (0 < sint (ticks_to_ns (2 ^ 63 - 1) (2 ^ 64 - 1) 0)) }"

definition subplan_names_follow_explain :: "unit option" where
  "subplan_names_follow_explain = do {
     assert_that (cook_subplan_name False True (lit ''1'') = lit ''InitPlan 1'');
     assert_that (cook_subplan_name False False (lit ''2'') = lit ''SubPlan 2'');
     assert_that (cook_subplan_name True True (lit ''c'') = lit ''CTE c'');
     assert_that (cook_subplan_name True False (lit ''c'') = lit ''CTE c'') }"

text \<open>
  \<open>1.0\<close>, \<open>1.5e-6\<close>, \<open>0.0500000004\<close> and \<open>0.0500000006\<close>, \<open>-1.0\<close>, infinity and \<open>1e30\<close> as bit patterns.
\<close>

definition seconds_convert_to_rounded_nanoseconds :: "unit option" where
  "seconds_convert_to_rounded_nanoseconds = do {
     assert_that (seconds_to_ns 0 = 0);
     assert_that (seconds_to_ns 0x3FF0000000000000 = 1000000000);
     assert_that (seconds_to_ns 0x3EB92A737110E454 = 1500);
     assert_that (seconds_to_ns 0x3FA999999D093595 = 50000000);
     assert_that (seconds_to_ns 0x3FA999999EC10392 = 50000001) }"

definition invalid_durations_become_zero_and_huge_ones_saturate :: "unit option" where
  "invalid_durations_become_zero_and_huge_ones_saturate = do {
     assert_that (seconds_to_ns 0xBFF0000000000000 = 0);
     assert_that (seconds_to_ns f64_nan = 0);
     assert_that (seconds_to_ns 0x7FF0000000000000 = 2 ^ 63 - 1);
     assert_that (seconds_to_ns 0x46293E5939A08CEA = 2 ^ 63 - 1) }"

definition memory_size_includes_the_header :: "unit option" where
  "memory_size_includes_the_header = do {
     assert_that (shared_memory_size 0 = HEADER_BYTES);
     assert_that (shared_memory_size 64 = HEADER_BYTES + 64 * 1024);
     assert_that (shared_memory_size (- 5) = HEADER_BYTES) }"

definition header_keeps_the_data_area_aligned :: "unit option" where
  "header_keeps_the_data_area_aligned = assert_that (HEADER_BYTES mod 8 = 0)"

section \<open>They pass\<close>

lemma only_a_running_node_with_a_started_timer_is_mid_timer_passes:
  "only_a_running_node_with_a_started_timer_is_mid_timer = Some ()"
  by (simp add: only_a_running_node_with_a_started_timer_is_mid_timer_def is_mid_timer_def)

lemma ticks_are_nanoseconds_when_scale_is_zero_passes: "ticks_are_nanoseconds_when_scale_is_zero = Some ()"
  by (simp add: ticks_are_nanoseconds_when_scale_is_zero_def ticks_to_ns_def)

lemma ticks_to_ns_below:
  "scale \<noteq> 0 \<Longrightarrow> \<not> sint (u64_to_i64 max_ticks) < sint ticks \<Longrightarrow>
     ticks_to_ns ticks scale max_ticks =
     i64_saturating_add 0 (i64_shr (i64_saturating_mul ticks (u64_to_i64 scale)) TICKS_TO_NS_SHIFT)"
  by (simp add: ticks_to_ns_def)

lemma ticks_to_ns_above:
  "scale \<noteq> 0 \<Longrightarrow> sint (u64_to_i64 max_ticks) < sint ticks \<Longrightarrow> i64_shr ticks TICKS_TO_NS_SHIFT = count \<Longrightarrow>
     ticks_to_ns ticks scale max_ticks =
     i64_saturating_add (i64_saturating_mul count (u64_to_i64 scale))
       (i64_shr (i64_saturating_mul (ticks - push_bit TICKS_TO_NS_SHIFT count) (u64_to_i64 scale)) TICKS_TO_NS_SHIFT)"
  by (simp add: ticks_to_ns_def Let_def)

lemmas ticks_eval = ticks_to_ns_below ticks_to_ns_above u64_to_i64_def TICKS_TO_NS_SHIFT_def i64_saturating_add_def i64_saturating_mul_def
  i64_shr_def saturate_i64_def i64_min_def i64_max_def Let_def

lemma converts_tsc_ticks_with_fixed_point_scale_passes: "converts_tsc_ticks_with_fixed_point_scale = Some ()"
proof -
  have scale: "push_bit TICKS_TO_NS_SHIFT (1000000 :: u64) div 3000000 = 5461"
    by (simp add: TICKS_TO_NS_SHIFT_def)
  have limit: "(2 ^ 63 - 1 :: u64) div 5461 = 1688952945770880"
    by simp
  show ?thesis
    unfolding converts_tsc_ticks_with_fixed_point_scale_def scale Let_def limit by (simp add: ticks_eval)
qed

text \<open>Any ticks that are not negative convert like the reference.\<close>

lemma matches_reference:
  assumes ticks: "0 \<le> sint ticks" and scale: "0 < unat scale" "unat scale \<le> 2 ^ 14"
    and limit: "unat max_ticks * unat scale < 2 ^ 63"
  shows "ticks_to_ns ticks scale max_ticks = reference_ticks_to_ns ticks scale"
proof -
  let ?v = "sint ticks * int (unat scale) div 2 ^ 14"
  have "sint ticks < 2 ^ 63" using sint_lt [of ticks] by simp
  moreover have "int (unat scale) \<le> 2 ^ 14" using scale(2) by (simp only: of_nat_le_numeral_power_cancel_iff)
  then have "sint ticks * int (unat scale) \<le> sint ticks * 2 ^ 14" using ticks by (rule mult_left_mono)
  then have "?v \<le> sint ticks" using zdiv_mono1 [of _ "sint ticks * 2 ^ 14" "2 ^ 14"] by simp
  ultimately have v: "0 \<le> ?v" "?v < 2 ^ 63" using ticks by (simp_all add: pos_imp_zdiv_nonneg_iff)
  then have "signed_take_bit 63 ?v = ?v" by (intro signed_take_bit_int_eq_self) simp_all
  then have "sint (reference_ticks_to_ns ticks scale) = ?v"
    by (simp add: reference_ticks_to_ns_def TICKS_TO_NS_SHIFT_def sint_sbintrunc')
  moreover have "sint (ticks_to_ns ticks scale max_ticks) = ?v"
    using ticks_to_ns_value [OF ticks scale(1) _ limit] scale(2) v by (simp add: i64_max_def)
  ultimately show ?thesis by (simp add: word_eq_iff_signed [where 'a = int])
qed

lemma matches_exact_arithmetic_including_the_overflow_branch_passes:
  assumes "\<And>scale. list_all (\<lambda>ticks. 0 \<le> sint ticks) (random scale)"
  shows "matches_exact_arithmetic_including_the_overflow_branch random = Some ()"
proof -
  note agree = samples_agree_def matches_reference i64_saturating_add_def saturate_i64_def i64_min_def i64_max_def
  have random: "list_all (\<lambda>ticks. ticks_to_ns ticks scale m = reference_ticks_to_ns ticks scale) (random scale)"
    if "0 < unat scale" "unat scale \<le> 2 ^ 14" "unat m * unat scale < 2 ^ 63" for scale m
    using assms [of scale] matches_reference [OF _ that] by (simp add: list_all_iff)
  have "samples_agree (random 5461) 5461 ((2 ^ 63 - 1) div 5461)"
    and "samples_agree (random 16384) 16384 ((2 ^ 63 - 1) div 16384)"
    and "samples_agree (random 1) 1 (2 ^ 63 - 1)"
    by (simp_all add: agree random)
  then show ?thesis by (simp add: matches_exact_arithmetic_including_the_overflow_branch_def)
qed

lemma conversion_saturates_instead_of_overflowing_passes: "conversion_saturates_instead_of_overflowing = Some ()"
  by (simp add: conversion_saturates_instead_of_overflowing_def ticks_eval)

lemma subplan_names_follow_explain_passes: "subplan_names_follow_explain = Some ()"
  by (simp add: subplan_names_follow_explain_def cook_subplan_name_def lit_def)

lemma seconds_eval:
  "\<not> f64_is_nan s \<Longrightarrow> \<not> f64_neg s \<Longrightarrow> \<not> f64_is_zero s \<Longrightarrow> f64_mul s 0x41CDCD6500000000 = p \<Longrightarrow> f64_round p = r \<Longrightarrow>
     f64_to_i64 r = v \<Longrightarrow> seconds_to_ns s = v"
  by (simp add: seconds_to_ns_def f64_le_zero_def)

lemma seconds_to_ns_zero: "f64_is_nan s \<or> f64_is_zero s \<or> f64_neg s \<Longrightarrow> seconds_to_ns s = 0"
  by (auto simp: seconds_to_ns_def f64_le_zero_def)

lemma seconds_convert_to_rounded_nanoseconds_passes: "seconds_convert_to_rounded_nanoseconds = Some ()"
  by (simp add: seconds_convert_to_rounded_nanoseconds_def seconds_to_ns_zero seconds_eval f64_eval)

lemma invalid_durations_become_zero_and_huge_ones_saturate_passes:
  "invalid_durations_become_zero_and_huge_ones_saturate = Some ()"
proof -
  have "f64_mul 0x7FF0000000000000 0x41CDCD6500000000 = 0x7FF0000000000000"
    by (simp add: f64_mul_def f64_is_inf_def f64_eval)
  then have "seconds_to_ns 0x7FF0000000000000 = 2 ^ 63 - 1"
    by (simp add: seconds_to_ns_def f64_le_zero_def f64_round_def f64_to_i64_def f64_is_inf_def f64_eval)
  then show ?thesis
    by (simp add: invalid_durations_become_zero_and_huge_ones_saturate_def seconds_to_ns_zero seconds_eval f64_nan_def f64_eval)
qed

lemma memory_size_includes_the_header_passes: "memory_size_includes_the_header = Some ()"
  by (simp add: memory_size_includes_the_header_def shared_memory_size_def)

lemma header_keeps_the_data_area_aligned_passes: "header_keeps_the_data_area_aligned = Some ()"
  by (simp add: header_keeps_the_data_area_aligned_def HEADER_BYTES_def)

end
