(* ===== verification/Spec2Isabelle.thy ===== *)
theory Spec2Isabelle
  imports Pipeline Wakeup Test_Hooks
    Queue_Model_Test Codec_Tests Trace_Tests Plan_Tests Worker_Tests Sanitize_Tests Timing_Tests
begin

text \<open>
  pg_otel, a PostgreSQL extension that exports an OpenTelemetry span for every statement and every
  node of its plan. A verification library of \<open>src/src\<close>.

  The program. A backend's executor hooks (\<open>lib.rs\<close>) ask for instrumentation before a statement and, at
  its end, collect its spans (\<open>postgres.rs\<close>, \<open>span.rs\<close>): the trace it belongs to is taken from a setting
  or from a comment of its text, the plan is walked as EXPLAIN walks it, each node's instrumentation is
  read through a layer for the PostgreSQL version (\<open>compat/\<close>), the statement's text is masked
  (\<open>sanitize.rs\<close>). All of its spans are encoded (\<open>codec.rs\<close>) into one batch and copied, under a lock,
  into a ring of bytes in shared memory (\<open>queue.rs\<close>, \<open>shared.rs\<close>). A background worker (\<open>worker.rs\<close>) drains
  the ring chunk by chunk, decodes the spans, converts them (\<open>span.rs\<close>) and exports them as the settings
  (\<open>config.rs\<close>) say.

  The theories, from the bottom:
  \<^item> \<open>Prelude\<close>: little-endian words, lists and results, the collections of lemmas; \<open>Utf8\<close>: strings as
    bytes, character boundaries, lossy decoding, decimal numbers.
  \<^item> \<open>Queue\<close> (\<open>queue.rs\<close>): batches, the ring, draining whole records, the record iterator. The locale
    \<open>fifo_channel\<close> is the contract of a channel that loses and reorders nothing; the ring is an instance.
  \<^item> \<open>Span_Types\<close>, \<open>Codec\<close> (\<open>span.rs\<close>, \<open>codec.rs\<close>): the spans and their encoding. A field is a pair of a
    writer and a reader under the locale \<open>field_codec\<close>; the codec of a span is built from such pairs.
  \<^item> \<open>Shared\<close> (\<open>shared.rs\<close>): header, lock, publishing, draining, wake-up, registration, the counter of
    dropped spans. Postgres is a trace of calls. The locale \<open>counted_channel\<close> extends the one of the ring.
  \<^item> \<open>F64\<close>, \<open>Export\<close>: \<open>f64\<close> arithmetic on bit patterns and the conversion to exported spans.
  \<^item> \<open>Config\<close> (\<open>config.rs\<close>): registration and values of the settings, the exporter configuration.
  \<^item> \<open>Worker\<close> (\<open>worker.rs\<close>): main loop, export run, reload, flush, reports; \<open>Wakeup\<close>: the worker and the
    backends as an interleaving of steps.
  \<^item> \<open>Sanitize\<close> (\<open>sanitize.rs\<close>): the statement's part of the text, masking of constants against a reference
    definition that goes token by token, select-list compaction, truncation, message suppression.
  \<^item> \<open>Traceparent\<close> (\<open>postgres.rs\<close>, \<open>span.rs\<close>): comments, keys and values, percent escapes, the shape of a
    header, random identifiers, the parent of a statement.
  \<^item> \<open>Timing\<close> (\<open>compat/\<close>): PostgreSQL 18 and 19. What the program relies on of either is the locale
    \<open>version_layer\<close>, of which both are instances.
  \<^item> \<open>Walk\<close>, \<open>Plan_Tree\<close> (\<open>span.rs\<close>, \<open>postgres.rs\<close>): the walk over an explicit stack for any tree (locale
    \<open>plan_tree\<close>) and the executor's tree of plan states as its instance.
  \<^item> \<open>Plan_Spans\<close>: the spans of nodes and statements and their collection.
  \<^item> \<open>Collect\<close> (\<open>postgres.rs\<close>): which statements are traced, the collection, the containment of failures,
    publication; \<open>Extension\<close> (\<open>lib.rs\<close>): initialisation, hooks, the worker's main function;
    \<open>Test_Hooks\<close>: capture and fault injection of a test build.
  \<^item> \<open>Lifecycle\<close>: the worker from its registration to its exit over any iterations. \<open>Pipeline\<close>: statements that
    end in any backends and the chunks of the worker as an interleaving of steps on one queue.
  \<^item> \<open>Queue_Tests\<close>, \<open>Queue_Model_Test\<close>, \<open>Codec_Tests\<close>, \<open>Trace_Tests\<close>, \<open>Plan_Tests\<close>, \<open>Worker_Tests\<close>,
    \<open>Sanitize_Tests\<close>, \<open>Timing_Tests\<close>: the repository's unit tests, translated (\<open>Testing\<close>, \<open>F64_Eval\<close>: what they
    share) and passed by the model, a check of the definitions against the behaviour the authors wrote down.
    A test that draws its inputs at random takes the draws as a parameter and passes for all of them; the one
    that only looks for panics of the decoder is \<open>Codec.decode_records_any_bytes\<close>.

  What the lemmas show. Queue: refinement of a queue of records, with robustness against any memory
  contents. Codec: the decoder accepts exactly the encodings. Shared: no span disappears uncounted.
  Worker and Wakeup: everything queued is exported, signals are honoured, no wake-up is lost. Sanitize:
  the loop computes the reference definition, constants do not show, failures give no text. Plan walk:
  the loop is the depth-first recursion and ends. Collection: the spans of a statement form a tree
  within its time, well typed for the codec, published all or none, and no failure but a query cancel
  reaches the statement. Lifecycle and Pipeline put the parts together: the worker never hangs, names
  itself while it runs and nobody afterwards; from the statements to the exporter the program is a
  channel that delivers whole statements in order and counts every span that it loses.

  Representation. Machine integers are words of their width, \<open>usize\<close> is a natural number below \<open>2 ^ 64\<close>
  where it can overflow, \<open>f64\<close> its bit pattern, a \<open>SystemTime\<close> nanoseconds as an integer, a pointer that
  may be null an option, a string its UTF-8 bytes. A panic is an outer \<open>None\<close> or an error value. Random
  numbers and the environment's answers over time are lists that the code consumes; a property that
  needs enough of them says so. No fuel is used: every loop is total or a \<open>partial_function\<close> that is
  proved to return.

  Parameters and what is assumed of them: \<open>InstrEndLoop\<close> raises an error only for a cycle with a running
  timer and settles the node (\<open>settles18\<close>, \<open>settles19\<close>); Postgres' \<open>CleanQuerytext\<close> only trims
  (\<open>clean_trims\<close>); the propagator reads a well-formed header (\<open>w3c_otel\<close>); Postgres keeps a setting in
  its range (\<open>gucs_ok\<close>). The core scanner, the catalogs, the OTLP client, the clock and the point at
  which a Postgres call raises an error are arbitrary.

  Not modelled: tests that need a server, the pgrx bindings and macros, the SQL and build files. What
  InstrEndLoop does to a plan node is not carried on to a later reading of the same node: a walk reads
  each node once. The content of the generator after an error inside Postgres is left open.
\<close>

end
